(* ===== verification/Getd_Prelude.thy ===== *)
theory Getd_Prelude
  imports Main "HOL-Library.Word" "HOL-Library.Monad_Syntax"
begin

text \<open>
  What every component of the development shares: the machine integers, byte memory with
  bounds, byte order, and the collections its lemmas are gathered in.

  Memory is a list of bytes, one list per C object. Every access outside the object is the
  value \<open>None\<close>: undefined behaviour of the C program. A result \<open>Some x\<close> therefore says
  that the code ran to its end and touched only memory it owns.
\<close>

named_theorems mem_simps \<open>reads and writes of byte memory\<close>
named_theorems byte_order \<open>conversions between integers and bytes\<close>

type_synonym byte = "8 word"
type_synonym u32 = "32 word"
type_synonym u64 = "64 word"

section \<open>Options as a monad\<close>

lemma bind_SomeI [intro]: "x = Some a \<Longrightarrow> f a = y \<Longrightarrow> Option.bind x f = y"
  by simp

lemma bind_not_None: "Option.bind x f \<noteq> None \<longleftrightarrow> (\<exists>a. x = Some a \<and> f a \<noteq> None)"
  by (cases x) auto

lemma foldr_bind_cong:
  "x = y \<Longrightarrow> (\<And>a. y = Some a \<Longrightarrow> f a = g a) \<Longrightarrow> Option.bind x f = Option.bind y g"
  by (cases y) auto

section \<open>Bytes in an object\<close>

definition peek :: "'a list \<Rightarrow> nat \<Rightarrow> 'a option" where
  "peek m i = (if i < length m then Some (m ! i) else None)"

definition slice :: "nat \<Rightarrow> nat \<Rightarrow> 'a list \<Rightarrow> 'a list" where
  "slice i n m = take n (drop i m)"

definition overwrite :: "'a list \<Rightarrow> nat \<Rightarrow> 'a list \<Rightarrow> 'a list" where
  "overwrite m i bs = take i m @ bs @ drop (i + length bs) m"

definition poke :: "'a list \<Rightarrow> nat \<Rightarrow> 'a list \<Rightarrow> 'a list option" where
  "poke m i bs = (if i + length bs \<le> length m then Some (overwrite m i bs) else None)"

lemma peek_Some [mem_simps]: "i < length m \<Longrightarrow> peek m i = Some (m ! i)"
  by (simp add: peek_def)

lemma peek_None [mem_simps]: "length m \<le> i \<Longrightarrow> peek m i = None"
  by (simp add: peek_def)

lemma peek_eq_Some: "peek m i = Some b \<longleftrightarrow> i < length m \<and> m ! i = b"
  by (auto simp: peek_def)

lemma poke_Some [mem_simps]: "i + length bs \<le> length m \<Longrightarrow> poke m i bs = Some (overwrite m i bs)"
  by (simp add: poke_def)

lemma poke_eq_Some:
  "poke m i bs = Some m' \<longleftrightarrow> i + length bs \<le> length m \<and> m' = overwrite m i bs"
  by (auto simp: poke_def)

lemma length_overwrite [mem_simps]:
  "i + length bs \<le> length m \<Longrightarrow> length (overwrite m i bs) = length m"
  by (simp add: overwrite_def)

lemma length_poke: "poke m i bs = Some m' \<Longrightarrow> length m' = length m"
  by (auto simp: poke_eq_Some length_overwrite)

lemma length_slice [simp]: "length (slice i n m) = min n (length m - i)"
  by (simp add: slice_def)

lemma slice_overwrite_same [mem_simps]:
  "i + length bs \<le> length m \<Longrightarrow> n = length bs \<Longrightarrow> slice i n (overwrite m i bs) = bs"
  by (simp add: slice_def overwrite_def)

lemma drop_overwrite_after [mem_simps]:
  assumes "i + length bs \<le> length m" and "i + length bs \<le> j"
  shows "drop j (overwrite m i bs) = drop j m"
proof -
  from assms(2) obtain k where "j = i + length bs + k" using le_Suc_ex by blast
  with assms(1) show ?thesis
    by (simp add: overwrite_def add.commute add.left_commute)
qed

lemma slice_overwrite_before [mem_simps]:
  "i + length bs \<le> length m \<Longrightarrow> j + n \<le> i \<Longrightarrow> slice j n (overwrite m i bs) = slice j n m"
  by (simp add: overwrite_def slice_def take_drop min_def)

lemma slice_overwrite_after [mem_simps]:
  "i + length bs \<le> length m \<Longrightarrow> i + length bs \<le> j \<Longrightarrow>
     slice j n (overwrite m i bs) = slice j n m"
  by (simp add: slice_def drop_overwrite_after)

lemma drop_overwrite_same [mem_simps]:
  "i + length bs \<le> length m \<Longrightarrow> drop i (overwrite m i bs) = bs @ drop (i + length bs) m"
  by (simp add: overwrite_def)

lemma drop_overwrite_before [mem_simps]:
  "i + length bs \<le> length m \<Longrightarrow> j < i \<Longrightarrow>
     drop j (overwrite m i bs) = overwrite (drop j m) (i - j) bs"
  by (simp add: overwrite_def drop_take min_def add.commute)

lemma nth_overwrite [mem_simps]:
  "i + length bs \<le> length m \<Longrightarrow> k < length m \<Longrightarrow>
     overwrite m i bs ! k = (if i \<le> k \<and> k < i + length bs then bs ! (k - i) else m ! k)"
  by (auto simp: overwrite_def nth_append min_def)

lemma peek_overwrite [mem_simps]:
  "i + length bs \<le> length m \<Longrightarrow>
     peek (overwrite m i bs) k =
       (if i \<le> k \<and> k < i + length bs then Some (bs ! (k - i)) else peek m k)"
  by (auto simp: peek_def length_overwrite nth_overwrite)

lemma take_overwrite: "i \<le> length m \<Longrightarrow> n \<le> i \<Longrightarrow> take n (overwrite m i bs) = take n m"
  by (simp add: overwrite_def min_def)

section \<open>Byte order\<close>

text \<open>
  Little-endian (the ABI getd is built for) and big-endian (what nanomsg puts on the wire).
\<close>

lemma uint_byte_eq [simp]: "uint (a :: byte) = uint b \<longleftrightarrow> a = b"
  by (simp add: word_uint_eq_iff)

lemma uint_byte_0 [simp]: "uint (a :: byte) = 0 \<longleftrightarrow> a = 0"
  by (simp add: uint_0_iff)

fun le_bytes :: "nat \<Rightarrow> nat \<Rightarrow> byte list" where
  "le_bytes 0 n = []"
| "le_bytes (Suc k) n = word_of_nat n # le_bytes k (n div 256)"

fun le_nat :: "byte list \<Rightarrow> nat" where
  "le_nat [] = 0"
| "le_nat (b # bs) = unat b + 256 * le_nat bs"

lemma length_le_bytes [simp]: "length (le_bytes k n) = k"
  by (induction k arbitrary: n) auto

lemma unat_byte_of_nat: "unat (word_of_nat n :: byte) = n mod 256"
  by (simp add: unat_of_nat)

lemma le_nat_le_bytes [byte_order]: "le_nat (le_bytes k n) = n mod 256 ^ k"
proof (induction k arbitrary: n)
  case 0
  then show ?case by simp
next
  case (Suc k)
  have "n mod (256 * 256 ^ k) = 256 * (n div 256 mod 256 ^ k) + n mod 256"
    by (rule mod_mult2_eq)
  then show ?case by (simp add: Suc.IH unat_byte_of_nat)
qed

lemma unat_byte_lt: "unat (b :: byte) < 256"
  using unsigned_less [where ?'b = 8 and ?'a = nat, of b] by simp

lemma le_nat_bound [byte_order]: "le_nat bs < 256 ^ length bs"
proof (induction bs)
  case Nil
  then show ?case by simp
next
  case (Cons b bs)
  have "unat b < 256" by (rule unat_byte_lt)
  moreover from Cons.IH have "256 * Suc (le_nat bs) \<le> 256 * 256 ^ length bs"
    by (intro mult_le_mono2) simp
  ultimately show ?case by simp
qed

lemma le_bytes_le_nat [byte_order]: "le_bytes (length bs) (le_nat bs) = bs"
proof (induction bs)
  case Nil
  then show ?case by simp
next
  case (Cons b bs)
  have "(unat b + 256 * le_nat bs) div 256 = le_nat bs"
    by (simp add: unat_byte_lt)
  moreover have "(word_of_nat (unat b + 256 * le_nat bs) :: byte) = b"
  proof (rule word_unat_eq_iff [THEN iffD2])
    have "unat (word_of_nat (unat b + 256 * le_nat bs) :: byte) = (unat b + 256 * le_nat bs) mod 256"
      by (rule unat_byte_of_nat)
    also have "\<dots> = unat b" using unat_byte_lt [of b] by simp
    finally show "unat (word_of_nat (unat b + 256 * le_nat bs) :: byte) = unat b" .
  qed
  ultimately show ?case using Cons.IH by (simp del: of_nat_add)
qed

lemma unat_ucast_byte_up: "unat (ucast (t :: byte) :: u64) = unat t"
  using unat_byte_lt [of t] by (simp add: unsigned_ucast_eq take_bit_eq_mod)

lemma unat_ucast_byte_down: "unat (ucast (w :: 'a::len word) :: byte) = unat w mod 256"
  by (simp add: unsigned_ucast_eq take_bit_eq_mod)

definition be_bytes :: "nat \<Rightarrow> nat \<Rightarrow> byte list" where
  "be_bytes k n = rev (le_bytes k n)"

definition be_nat :: "byte list \<Rightarrow> nat" where
  "be_nat bs = le_nat (rev bs)"

lemma length_be_bytes [simp]: "length (be_bytes k n) = k"
  by (simp add: be_bytes_def)

lemma be_nat_be_bytes [byte_order]: "be_nat (be_bytes k n) = n mod 256 ^ k"
  by (simp add: be_nat_def be_bytes_def le_nat_le_bytes)

lemma be_nat_bound [byte_order]: "be_nat bs < 256 ^ length bs"
  using le_nat_bound [of "rev bs"] by (simp add: be_nat_def)

lemma be_bytes_be_nat [byte_order]: "be_bytes (length bs) (be_nat bs) = bs"
  using le_bytes_le_nat [of "rev bs"] by (simp add: be_nat_def be_bytes_def)

text \<open>A 32-bit integer at an offset of an object, little-endian.\<close>

definition ld32 :: "byte list \<Rightarrow> nat \<Rightarrow> u32 option" where
  "ld32 m i = (if i + 4 \<le> length m then Some (word_of_nat (le_nat (slice i 4 m))) else None)"

definition st32 :: "byte list \<Rightarrow> nat \<Rightarrow> u32 \<Rightarrow> byte list option" where
  "st32 m i w = poke m i (le_bytes 4 (unat w))"

lemma ld32_Some:
  "i + 4 \<le> length m \<Longrightarrow> ld32 m i = Some (word_of_nat (le_nat (slice i 4 m)))"
  by (simp add: ld32_def)

lemma word_of_le_nat: "(word_of_nat (le_nat (le_bytes 4 n)) :: u32) = word_of_nat n"
proof -
  have "(word_of_nat (n mod 256 ^ 4) :: u32) = word_of_nat n"
    by (subst word_unat_eq_iff) (simp add: unat_of_nat mod_mod_cancel)
  then show ?thesis by (simp only: le_nat_le_bytes)
qed

lemma st32_Some [mem_simps]:
  "i + 4 \<le> length m \<Longrightarrow> st32 m i w = Some (overwrite m i (le_bytes 4 (unat w)))"
  by (simp add: st32_def poke_Some)

lemma ld32_overwrite_same [mem_simps]:
  "i + 4 \<le> length m \<Longrightarrow> ld32 (overwrite m i (le_bytes 4 n)) i = Some (word_of_nat n)"
  by (simp add: ld32_def length_overwrite slice_overwrite_same word_of_le_nat)

lemma ld32_overwrite_before [mem_simps]:
  "i + length bs \<le> length m \<Longrightarrow> j + 4 \<le> i \<Longrightarrow> ld32 (overwrite m i bs) j = ld32 m j"
  by (simp add: ld32_def length_overwrite slice_overwrite_before)

lemma ld32_overwrite_after [mem_simps]:
  "i + length bs \<le> length m \<Longrightarrow> i + length bs \<le> j \<Longrightarrow> ld32 (overwrite m i bs) j = ld32 m j"
  by (simp add: ld32_def length_overwrite slice_overwrite_after)

lemma ld32_defined: "i + 4 \<le> length m \<Longrightarrow> \<exists>w. ld32 m i = Some w"
  by (simp add: ld32_def)

end
