(* ===== verification/C_Strings.thy ===== *)
theory C_Strings
  imports Getd_Prelude
begin

text \<open>
  The functions of \<open><string.h>\<close> and the parts of \<open><stdio.h>\<close> that getd calls. A character
  pointer is the part of its object from the pointer on, so a function that runs off the end
  of the object is the value \<open>None\<close>.
\<close>

section \<open>Strings\<close>

type_synonym char_ptr = "byte list"

abbreviation nonzero_prefix :: "byte list \<Rightarrow> byte list" where
  "nonzero_prefix p \<equiv> takeWhile (\<lambda>b. b \<noteq> 0) p"

definition c_cstr :: "char_ptr \<Rightarrow> byte list option" where
  "c_cstr p = (if 0 \<in> set p then Some (nonzero_prefix p) else None)"

definition c_strlen :: "char_ptr \<Rightarrow> nat option" where
  "c_strlen p = map_option length (c_cstr p)"

definition c_strnlen :: "char_ptr \<Rightarrow> nat \<Rightarrow> nat option" where
  "c_strnlen p n =
     (if 0 \<in> set (take n p) \<or> n \<le> length p
      then Some (length (nonzero_prefix (take n p))) else None)"

fun c_strcmp :: "char_ptr \<Rightarrow> char_ptr \<Rightarrow> int option" where
  "c_strcmp (a # p) (b # q) =
     (if a \<noteq> b then Some (uint a - uint b)
      else if a = 0 then Some 0 else c_strcmp p q)"
| "c_strcmp _ _ = None"

fun c_strncmp :: "char_ptr \<Rightarrow> char_ptr \<Rightarrow> nat \<Rightarrow> int option" where
  "c_strncmp _ _ 0 = Some 0"
| "c_strncmp (a # p) (b # q) (Suc n) =
     (if a \<noteq> b then Some (uint a - uint b)
      else if a = 0 then Some 0 else c_strncmp p q n)"
| "c_strncmp _ _ (Suc n) = None"

text \<open>\<open>strcpy\<close> into an array, and into a larger object at an offset.\<close>

definition c_strcpy_at :: "byte list \<Rightarrow> nat \<Rightarrow> char_ptr \<Rightarrow> byte list option" where
  "c_strcpy_at m i src = do { s \<leftarrow> c_cstr src; poke m i (s @ [0]) }"

definition c_strcpy :: "byte list \<Rightarrow> char_ptr \<Rightarrow> byte list option" where
  "c_strcpy dst src = c_strcpy_at dst 0 src"

text \<open>\<open>strncpy\<close>: at most \<open>n\<close> bytes of the string, then zeros up to \<open>n\<close>.\<close>

definition c_strncpy_at :: "byte list \<Rightarrow> nat \<Rightarrow> char_ptr \<Rightarrow> nat \<Rightarrow> byte list option" where
  "c_strncpy_at m i src n =
     do { k \<leftarrow> c_strnlen src n; poke m i (take k src @ replicate (n - k) 0) }"

subsection \<open>Lemmas on strings\<close>

lemma nonzero_prefix_append0 [simp]:
  "0 \<notin> set s \<Longrightarrow> nonzero_prefix (s @ 0 # r) = s"
  by (subst takeWhile_append2) auto

lemma nonzero_prefix_all [simp]: "0 \<notin> set s \<Longrightarrow> nonzero_prefix s = s"
  by (subst takeWhile_eq_all_conv) auto

lemma c_cstr_append0 [simp]: "0 \<notin> set s \<Longrightarrow> c_cstr (s @ 0 # r) = Some s"
  by (simp add: c_cstr_def)

lemma c_cstr_SomeD:
  assumes "c_cstr p = Some s"
  shows "0 \<notin> set s \<and> (\<exists>r. p = s @ 0 # r)"
proof -
  from assms have z: "0 \<in> set p" and s: "s = nonzero_prefix p"
    by (auto simp: c_cstr_def split: if_splits)
  from z have "dropWhile (\<lambda>b. b \<noteq> 0) p \<noteq> []" by (auto simp: dropWhile_eq_Nil_conv)
  moreover from this have "hd (dropWhile (\<lambda>b. b \<noteq> 0) p) = 0" using hd_dropWhile by blast
  ultimately have "p = s @ 0 # tl (dropWhile (\<lambda>b. b \<noteq> 0) p)"
    by (metis s takeWhile_dropWhile_id list.collapse)
  moreover have "0 \<notin> set s" using s by (auto dest: set_takeWhileD)
  ultimately show ?thesis by blast
qed

lemma c_cstr_length: "c_cstr p = Some s \<Longrightarrow> length s < length p"
  by (drule c_cstr_SomeD) auto

lemma c_strlen_append0 [simp]: "0 \<notin> set s \<Longrightarrow> c_strlen (s @ 0 # r) = Some (length s)"
  by (simp add: c_strlen_def)

lemma c_strlen_lt: "c_strlen p = Some n \<Longrightarrow> n < length p"
  by (auto simp: c_strlen_def dest: c_cstr_length)

lemma c_strnlen_le: "c_strnlen p n = Some k \<Longrightarrow> k \<le> n \<and> k \<le> length p"
  using length_takeWhile_le [of "\<lambda>b. b \<noteq> 0" "take n p"]
  by (auto simp: c_strnlen_def split: if_splits)

lemma c_strnlen_defined: "n \<le> length p \<Longrightarrow> c_strnlen p n = Some (length (nonzero_prefix (take n p)))"
  by (simp add: c_strnlen_def)

lemma c_strnlen_full: "n \<le> length p \<Longrightarrow> 0 \<notin> set (take n p) \<Longrightarrow> c_strnlen p n = Some n"
  by (simp add: c_strnlen_def)

lemma c_strnlen_string:
  "0 \<notin> set s \<Longrightarrow> length s < n \<Longrightarrow> c_strnlen (s @ 0 # r) n = Some (length s)"
  by (simp add: c_strnlen_def take_Cons')

lemma c_strnlen_lt_cstr:
  assumes "c_strnlen p n = Some k" and "k < n"
  shows "c_cstr p = Some (take k p)"
proof -
  have k: "k = length (nonzero_prefix (take n p))" and d: "0 \<in> set (take n p) \<or> n \<le> length p"
    using assms(1) by (auto simp: c_strnlen_def split: if_splits)
  have z: "0 \<in> set (take n p)"
  proof (rule ccontr)
    assume "0 \<notin> set (take n p)"
    with d k have "k = n" by simp
    with assms(2) show False by simp
  qed
  have pre: "nonzero_prefix (take n p) = take k (take n p)"
    using k by (metis takeWhile_eq_take)
  have "nonzero_prefix p = nonzero_prefix (take n p @ drop n p)" by simp
  also have "\<dots> = nonzero_prefix (take n p)" using z by (subst takeWhile_append1) auto
  finally have "nonzero_prefix p = take k p" using pre assms(2) by (simp add: min_def)
  moreover have "0 \<in> set p" using z by (auto dest: in_set_takeD)
  ultimately show ?thesis by (simp add: c_cstr_def)
qed

lemma c_strcmp_refl: "0 \<in> set p \<Longrightarrow> c_strcmp p p = Some 0"
  by (induction p) auto

lemma c_strcmp_zero:
  "c_strcmp p q = Some 0 \<Longrightarrow> \<exists>s. c_cstr p = Some s \<and> c_cstr q = Some s"
proof (induction p q rule: c_strcmp.induct)
  case (1 a p b q)
  show ?case
  proof (cases "a = b \<and> a \<noteq> 0")
    case True
    with 1 obtain s where "c_cstr p = Some s" "c_cstr q = Some s" by auto
    with True show ?thesis by (auto simp: c_cstr_def split: if_splits)
  next
    case False
    with "1.prems" have "a = 0" and "b = 0" by (auto split: if_splits)
    then show ?thesis by (simp add: c_cstr_def)
  qed
qed auto

lemma c_strcmp_same: "0 \<notin> set s \<Longrightarrow> c_strcmp (s @ 0 # r) (s @ 0 # q) = Some 0"
  by (induction s) auto

lemma c_strcmp_strings:
  "0 \<notin> set s \<Longrightarrow> 0 \<notin> set t \<Longrightarrow>
     c_strcmp (s @ 0 # r) (t @ 0 # q) = Some 0 \<longleftrightarrow> s = t"
proof
  assume nz: "0 \<notin> set s" "0 \<notin> set t" and "c_strcmp (s @ 0 # r) (t @ 0 # q) = Some 0"
  then obtain u where "c_cstr (s @ 0 # r) = Some u" "c_cstr (t @ 0 # q) = Some u"
    by (auto dest: c_strcmp_zero)
  with nz show "s = t" by simp
next
  assume "0 \<notin> set s" "0 \<notin> set t" and "s = t"
  then show "c_strcmp (s @ 0 # r) (t @ 0 # q) = Some 0" by (simp add: c_strcmp_same)
qed

lemma c_strcmp_defined:
  "0 \<in> set p \<or> 0 \<in> set q \<Longrightarrow> 0 \<in> set (take (length q) p) \<or> 0 \<in> set (take (length p) q) \<Longrightarrow>
     \<exists>d. c_strcmp p q = Some d"
  by (induction p q rule: c_strcmp.induct) auto

lemma c_strncmp_defined:
  "n \<le> length p \<Longrightarrow> n \<le> length q \<Longrightarrow> \<exists>d. c_strncmp p q n = Some d"
  by (induction p q n rule: c_strncmp.induct) auto

text \<open>Equal by \<open>strncmp\<close>: the same string, as far as \<open>n\<close> characters of it.\<close>

lemma c_strncmp_zero:
  "c_strncmp p q n = Some 0 \<Longrightarrow> nonzero_prefix (take n p) = nonzero_prefix (take n q)"
proof (induction p q n rule: c_strncmp.induct)
  case (2 a p b q n)
  then show ?case by (auto split: if_splits)
qed auto

lemma c_strncmp_refl:
  "n \<le> length p \<Longrightarrow> n \<le> length q \<Longrightarrow> take n p = take n q \<Longrightarrow> c_strncmp p q n = Some 0"
  by (induction p q n rule: c_strncmp.induct) auto

lemma c_strcmp_zero_strncmp: "c_strcmp p q = Some 0 \<Longrightarrow> c_strncmp p q n = Some 0"
proof (induction p q arbitrary: n rule: c_strcmp.induct)
  case (1 a p b q)
  then show ?case by (cases n) (auto split: if_splits)
qed auto

lemma c_strcpy_at_Some:
  "c_strcpy_at m i src = Some m' \<longleftrightarrow>
     (\<exists>s. c_cstr src = Some s \<and> poke m i (s @ [0]) = Some m')"
  by (auto simp: c_strcpy_at_def Option.bind_eq_Some_conv)

section \<open>Streams\<close>

text \<open>
  A \<open>FILE\<close> open for reading: the bytes of the file, the position, and the end-of-file
  indicator, which \<open>fread\<close> and \<open>getc\<close> set when they meet the end.
\<close>

record FILE =
  f_data :: "byte list"
  f_pos :: nat
  f_eof :: bool

definition c_fread :: "FILE \<Rightarrow> nat \<Rightarrow> byte list \<times> FILE" where
  "c_fread f n =
     (let bs = slice (f_pos f) n (f_data f)
      in (bs, f\<lparr>f_pos := f_pos f + length bs, f_eof := f_eof f \<or> length bs < n\<rparr>))"

definition c_getc :: "FILE \<Rightarrow> byte option \<times> FILE" where
  "c_getc f =
     (if f_eof f then (None, f)
      else if f_pos f < length (f_data f)
      then (Some (f_data f ! f_pos f), f\<lparr>f_pos := f_pos f + 1\<rparr>)
      else (None, f\<lparr>f_eof := True\<rparr>))"

definition c_feof :: "FILE \<Rightarrow> bool" where
  "c_feof f = f_eof f"

end
