(* ===== verification/Requests.thy ===== *)
theory Requests
  imports C_Strings
begin

text \<open>
  \<open>requests.h\<close>: getd's state and the seven message structures, with the layout the C
  compiler gives them (4-byte \<open>unsigned int\<close> aligned to 4, \<open>char\<close> arrays unaligned).

  A message handler receives a pointer into the receive buffer cast to a structure. The view
  \<open>as_MessageTypeN\<close> is that cast: integer members are loaded at their offset, an array
  member is the character pointer the code passes to the string functions, that is the part
  of the buffer from the array on. So a string function that runs past an array sees what
  the buffer holds there, and one that runs past the buffer is undefined.
\<close>

section \<open>Structure layout\<close>

definition align_up :: "nat \<Rightarrow> nat \<Rightarrow> nat" where
  "align_up n a = (n + a - 1) div a * a"

text \<open>A member is its size and alignment; the offsets follow each other, aligned.\<close>

fun member_offsets :: "nat \<Rightarrow> (nat \<times> nat) list \<Rightarrow> nat list" where
  "member_offsets pos [] = []"
| "member_offsets pos ((sz, al) # ms) = align_up pos al # member_offsets (align_up pos al + sz) ms"

fun members_end :: "nat \<Rightarrow> (nat \<times> nat) list \<Rightarrow> nat" where
  "members_end pos [] = pos"
| "members_end pos ((sz, al) # ms) = members_end (align_up pos al + sz) ms"

definition struct_size :: "(nat \<times> nat) list \<Rightarrow> nat" where
  "struct_size ms = align_up (members_end 0 ms) (fold (\<lambda>(_, al). max al) ms 1)"

definition offset_of :: "(nat \<times> nat) list \<Rightarrow> nat \<Rightarrow> nat" where
  "offset_of ms i = member_offsets 0 ms ! i"

definition Header_members :: "(nat \<times> nat) list" where
  "Header_members = [(1, 1), (4, 4)]"

definition MessageType0_members :: "(nat \<times> nat) list" where
  "MessageType0_members = [(8, 4), (4, 4), (33, 1)]"

definition MessageType1_members :: "(nat \<times> nat) list" where
  "MessageType1_members = [(8, 4), (4, 4), (129, 1)]"

definition MessageType2_members :: "(nat \<times> nat) list" where
  "MessageType2_members = [(8, 4), (4, 4), (257, 1)]"

definition MessageType3_members :: "(nat \<times> nat) list" where
  "MessageType3_members = [(8, 4), (4, 4), (4, 4), (129, 1), (4097, 1)]"

definition MessageType4_members :: "(nat \<times> nat) list" where
  "MessageType4_members = [(8, 4), (4, 4), (4, 4), (129, 1), (4096, 1)]"

definition MessageType5_members :: "(nat \<times> nat) list" where
  "MessageType5_members = [(8, 4), (4, 4), (129, 1)]"

definition MessageType6_members :: "(nat \<times> nat) list" where
  "MessageType6_members = [(8, 4), (4, 4), (129, 1)]"

lemmas members_defs =
  Header_members_def MessageType0_members_def MessageType1_members_def
  MessageType2_members_def MessageType3_members_def MessageType4_members_def
  MessageType5_members_def MessageType6_members_def

lemma sizes [simp]:
  "struct_size Header_members = 8"
  "struct_size MessageType0_members = 48"
  "struct_size MessageType1_members = 144"
  "struct_size MessageType2_members = 272"
  "struct_size MessageType3_members = 4244"
  "struct_size MessageType4_members = 4244"
  "struct_size MessageType5_members = 144"
  "struct_size MessageType6_members = 144"
  by (simp_all add: struct_size_def members_defs align_up_def)

lemma offsets [simp]:
  "offset_of MessageType0_members 1 = 8" "offset_of MessageType0_members 2 = 12"
  "offset_of MessageType1_members 1 = 8" "offset_of MessageType1_members 2 = 12"
  "offset_of MessageType2_members 1 = 8" "offset_of MessageType2_members 2 = 12"
  "offset_of MessageType3_members 1 = 8" "offset_of MessageType3_members 2 = 12"
  "offset_of MessageType3_members 3 = 16" "offset_of MessageType3_members 4 = 145"
  "offset_of MessageType4_members 1 = 8" "offset_of MessageType4_members 2 = 12"
  "offset_of MessageType4_members 3 = 16" "offset_of MessageType4_members 4 = 145"
  "offset_of MessageType5_members 1 = 8" "offset_of MessageType5_members 2 = 12"
  "offset_of MessageType6_members 1 = 8" "offset_of MessageType6_members 2 = 12"
  "offset_of Header_members 0 = 0" "offset_of Header_members 1 = 4"
  by (simp_all add: offset_of_def members_defs align_up_def)

lemma offsets_Suc0 [simp]:
  "offset_of MessageType0_members (Suc 0) = 8" "offset_of MessageType1_members (Suc 0) = 8"
  "offset_of MessageType2_members (Suc 0) = 8" "offset_of MessageType3_members (Suc 0) = 8"
  "offset_of MessageType4_members (Suc 0) = 8" "offset_of MessageType5_members (Suc 0) = 8"
  "offset_of MessageType6_members (Suc 0) = 8" "offset_of Header_members (Suc 0) = 4"
  using offsets by (simp_all del: offsets add: offset_of_def members_defs align_up_def)

section \<open>State and messages\<close>

record State =
  sessionId :: "byte list"
  userName :: "byte list"
  lastSent :: byte
  lastRecieved :: byte

record Header =
  messageType :: byte
  messageLength :: u32

record MessageType0 =
  m0_header :: Header
  dnLength :: u32
  distinguishedName :: char_ptr

record MessageType1 =
  m1_header :: Header
  m1_sidLength :: u32
  m1_sessionId :: char_ptr

record MessageType2 =
  m2_header :: Header
  msgLength :: u32
  errorMessage :: char_ptr

record MessageType3 =
  m3_header :: Header
  m3_sidLength :: u32
  pathLength :: u32
  m3_sessionId :: char_ptr
  pathName :: char_ptr

record MessageType4 =
  m4_header :: Header
  m4_sidLength :: u32
  contentLength :: u32
  m4_sessionId :: char_ptr
  contentBuffer :: char_ptr

record MessageType5 =
  m5_header :: Header
  m5_sidLength :: u32
  m5_sessionId :: char_ptr

record MessageType6 =
  m6_header :: Header
  m6_sidLength :: u32
  m6_sessionId :: char_ptr

subsection \<open>The casts\<close>

abbreviation arr :: "byte list \<Rightarrow> (nat \<times> nat) list \<Rightarrow> nat \<Rightarrow> char_ptr" where
  "arr m ms i \<equiv> drop (offset_of ms i) m"

definition asHeader :: "byte list \<Rightarrow> Header option" where
  "asHeader x = do {
     t \<leftarrow> peek x (offset_of Header_members 0);
     l \<leftarrow> ld32 x (offset_of Header_members 1);
     Some \<lparr>messageType = t, messageLength = l\<rparr> }"

definition as_MessageType0 :: "byte list \<Rightarrow> MessageType0 option" where
  "as_MessageType0 x = do {
     h \<leftarrow> asHeader x;
     n \<leftarrow> ld32 x (offset_of MessageType0_members 1);
     Some \<lparr>m0_header = h, dnLength = n, distinguishedName = arr x MessageType0_members 2\<rparr> }"

definition as_MessageType1 :: "byte list \<Rightarrow> MessageType1 option" where
  "as_MessageType1 x = do {
     h \<leftarrow> asHeader x;
     n \<leftarrow> ld32 x (offset_of MessageType1_members 1);
     Some \<lparr>m1_header = h, m1_sidLength = n, m1_sessionId = arr x MessageType1_members 2\<rparr> }"

definition as_MessageType2 :: "byte list \<Rightarrow> MessageType2 option" where
  "as_MessageType2 x = do {
     h \<leftarrow> asHeader x;
     n \<leftarrow> ld32 x (offset_of MessageType2_members 1);
     Some \<lparr>m2_header = h, msgLength = n, errorMessage = arr x MessageType2_members 2\<rparr> }"

definition as_MessageType3 :: "byte list \<Rightarrow> MessageType3 option" where
  "as_MessageType3 x = do {
     h \<leftarrow> asHeader x;
     n \<leftarrow> ld32 x (offset_of MessageType3_members 1);
     p \<leftarrow> ld32 x (offset_of MessageType3_members 2);
     Some \<lparr>m3_header = h, m3_sidLength = n, pathLength = p,
       m3_sessionId = arr x MessageType3_members 3, pathName = arr x MessageType3_members 4\<rparr> }"

definition as_MessageType4 :: "byte list \<Rightarrow> MessageType4 option" where
  "as_MessageType4 x = do {
     h \<leftarrow> asHeader x;
     n \<leftarrow> ld32 x (offset_of MessageType4_members 1);
     c \<leftarrow> ld32 x (offset_of MessageType4_members 2);
     Some \<lparr>m4_header = h, m4_sidLength = n, contentLength = c,
       m4_sessionId = arr x MessageType4_members 3, contentBuffer = arr x MessageType4_members 4\<rparr> }"

definition as_MessageType5 :: "byte list \<Rightarrow> MessageType5 option" where
  "as_MessageType5 x = do {
     h \<leftarrow> asHeader x;
     n \<leftarrow> ld32 x (offset_of MessageType5_members 1);
     Some \<lparr>m5_header = h, m5_sidLength = n, m5_sessionId = arr x MessageType5_members 2\<rparr> }"

definition as_MessageType6 :: "byte list \<Rightarrow> MessageType6 option" where
  "as_MessageType6 x = do {
     h \<leftarrow> asHeader x;
     n \<leftarrow> ld32 x (offset_of MessageType6_members 1);
     Some \<lparr>m6_header = h, m6_sidLength = n, m6_sessionId = arr x MessageType6_members 2\<rparr> }"

lemmas cast_defs =
  asHeader_def as_MessageType0_def as_MessageType1_def as_MessageType2_def
  as_MessageType3_def as_MessageType4_def as_MessageType5_def as_MessageType6_def

section \<open>The environment and the process\<close>

text \<open>
  What the process sees of its surroundings: the values of successive calls of \<open>rand\<close>, and
  what \<open>fopen(path, "r")\<close> finds at a path: nothing it can open, a regular file with its
  bytes, or something else that opens (a directory, a device). What \<open>fopen\<close> finds may
  depend on the number of streams the process has open: it fails once there are too many.
\<close>

datatype node = Regular "byte list" | Special

record env =
  rand_at :: "nat \<Rightarrow> nat"
  fopen_at :: "nat \<Rightarrow> byte list \<Rightarrow> node option"

text \<open>
  The memory of the process: the statics of \<open>main.c\<close> and \<open>requestHandlers.c\<close> and the
  locals of \<open>main\<close>. \<open>sendFile\<close> is \<open>None\<close> while it is no open stream (null or
  closed); \<open>openFiles\<close> counts the streams \<open>fopen\<close> gave and \<open>fclose\<close> has not taken
  back, and \<open>randCalls\<close> the calls of \<open>rand\<close> so far.
\<close>

record getd =
  state :: State
  outMessage :: "byte list"
  sendFile :: "FILE option"
  openFiles :: nat
  randCalls :: nat

end
