(* ===== verification/RequestVerify.thy ===== *)
theory RequestVerify
  imports Requests
begin

text \<open>
  \<open>requestVerify.c\<close>: the checks of the three message types getd accepts. A result is
  \<open>None\<close> where the C function would read outside the receive buffer.
\<close>

section \<open>The three checks\<close>

definition TP0_LENMATCH :: u32 where "TP0_LENMATCH = 1"
definition TP0_DNLEN33P :: u32 where "TP0_DNLEN33P = 2"
definition TP0_NONULL :: u32 where "TP0_NONULL = 4"
definition TP0_MESSLEN :: u32 where "TP0_MESSLEN = 8"
definition SID_MISMATCH :: u32 where "SID_MISMATCH = 16"

lemmas ver_flags =
  TP0_LENMATCH_def TP0_DNLEN33P_def TP0_NONULL_def TP0_MESSLEN_def SID_MISMATCH_def

definition type0Ver :: "MessageType0 \<Rightarrow> u32 option" where
  "type0Ver message = do {
     let retval = 0;
     reallen \<leftarrow> c_strnlen (distinguishedName message) 32;
     let retval = (if reallen \<noteq> unat (dnLength message) then retval + TP0_LENMATCH else retval);
     let retval = (if unat (dnLength message) > 32 then retval + TP0_DNLEN33P else retval);
     let retval =
       (if unat (messageLength (m0_header message)) \<noteq> struct_size MessageType0_members
        then retval + TP0_MESSLEN else retval);
     Some retval }"

definition type3Ver :: "MessageType3 \<Rightarrow> u32 option" where
  "type3Ver message =
     (if unat (messageLength (m3_header message)) \<noteq> struct_size MessageType3_members then Some 1
      else do {
        sl \<leftarrow> c_strnlen (m3_sessionId message) 128;
        if sl \<noteq> unat (m3_sidLength message) then Some 1
        else do {
          pl \<leftarrow> c_strnlen (pathName message) 4096;
          if pl \<noteq> unat (pathLength message) then Some 1 else Some 0 } })"

text \<open>
  \<open>while (sessionId[endIndex] != '\0' && endIndex < 129) endIndex++;\<close>: the byte is read
  before the bound is tested.
\<close>

function endIndex_loop :: "char_ptr \<Rightarrow> byte \<Rightarrow> byte option" where
  "endIndex_loop p endIndex =
     (case peek p (unat endIndex) of
        None \<Rightarrow> None
      | Some b \<Rightarrow>
          if b \<noteq> 0 \<and> endIndex < 129 then endIndex_loop p (endIndex + 1) else Some endIndex)"
  by pat_completeness auto
termination
proof (relation "measure (\<lambda>(p, i). 256 - unat i)", goal_cases)
  case 1
  show ?case by simp
next
  case (2 p i b)
  then have "unat i < 129" by (simp add: word_less_nat_alt)
  then have "unat (i + 1) = unat i + 1" by (simp add: unat_word_ariths)
  with \<open>unat i < 129\<close> show ?case by simp
qed

declare endIndex_loop.simps [simp del]

definition type6Ver :: "MessageType6 \<Rightarrow> State \<Rightarrow> u32 option" where
  "type6Ver message st = do {
     let retval = 0;
     let endIndex = 0;
     sl \<leftarrow> c_strnlen (m6_sessionId message) 128;
     let retval = (if sl \<noteq> unat (m6_sidLength message) then retval + TP0_DNLEN33P else retval);
     d \<leftarrow> c_strncmp (sessionId st) (m6_sessionId message) (unat (m6_sidLength message));
     let retval = (if d \<noteq> 0 then retval + SID_MISMATCH else retval);
     endIndex \<leftarrow> endIndex_loop (m6_sessionId message) endIndex;
     let retval = (if unat (m6_sidLength message) \<noteq> unat endIndex then retval + TP0_LENMATCH else retval);
     let retval = (if unat (m6_sidLength message) > 128 then retval + TP0_DNLEN33P else retval);
     let retval = (if endIndex = 129 then retval + TP0_NONULL else retval);
     let retval =
       (if unat (messageLength (m6_header message)) \<noteq> struct_size MessageType6_members
        then retval + TP0_MESSLEN else retval);
     Some retval }"

section \<open>What passing a check means\<close>

lemma type0Ver_zero:
  "type0Ver m = Some 0 \<longleftrightarrow>
     c_strnlen (distinguishedName m) 32 = Some (unat (dnLength m)) \<and>
     unat (messageLength (m0_header m)) = 48"
  by (auto simp: type0Ver_def ver_flags Let_def Option.bind_eq_Some_conv
      dest: c_strnlen_le split: if_splits)

lemma type3Ver_zero:
  "type3Ver m = Some 0 \<longleftrightarrow>
     unat (messageLength (m3_header m)) = 4244 \<and>
     c_strnlen (m3_sessionId m) 128 = Some (unat (m3_sidLength m)) \<and>
     c_strnlen (pathName m) 4096 = Some (unat (pathLength m))"
  by (auto simp: type3Ver_def Option.bind_eq_Some_conv split: if_splits)

lemma nth_nonzero_prefix:
  "i < length (nonzero_prefix p) \<Longrightarrow> p ! i \<noteq> 0"
  by (metis (mono_tags, lifting) nth_mem set_takeWhileD takeWhile_nth)

lemma nth_length_nonzero_prefix:
  "length (nonzero_prefix p) < length p \<Longrightarrow> p ! length (nonzero_prefix p) = 0"
  using nth_length_takeWhile [of "\<lambda>b. b \<noteq> 0" p] by simp

lemma endIndex_loop_from:
  assumes "130 \<le> length p" and "e = length (nonzero_prefix (take 129 p))" and "i \<le> e"
  shows "endIndex_loop p (word_of_nat i) = Some (word_of_nat e)"
  using assms(3)
proof (induction i rule: inc_induct)
  case base
  have e: "e \<le> 129" using assms(2) length_takeWhile_le [of "\<lambda>b. b \<noteq> 0" "take 129 p"] by simp
  have u: "unat (word_of_nat e :: byte) = e" using e by (simp add: unat_of_nat)
  show ?case
  proof (cases "e < 129")
    case True
    with assms have "take 129 p ! e = 0"
      using nth_length_nonzero_prefix [of "take 129 p"] by simp
    with True have "p ! e = 0" by simp
    with True assms(1) show ?thesis
      by (subst endIndex_loop.simps) (simp add: u peek_def)
  next
    case False
    with e have "e = 129" by simp
    with assms(1) show ?thesis
      by (subst endIndex_loop.simps) (simp add: peek_def word_less_nat_alt unat_of_nat)
  qed
next
  case (step i)
  have e: "e \<le> 129" using assms(2) length_takeWhile_le [of "\<lambda>b. b \<noteq> 0" "take 129 p"] by simp
  with step have i: "i < 129" by simp
  have u: "unat (word_of_nat i :: byte) = i" using i by (simp add: unat_of_nat)
  have "take 129 p ! i \<noteq> 0"
    using nth_nonzero_prefix [of i "take 129 p"] step.hyps assms(2) by simp
  with i have nz: "p ! i \<noteq> 0" by simp
  have "(word_of_nat i :: byte) < 129" using i u by (simp add: word_less_nat_alt)
  then have "endIndex_loop p (word_of_nat i) = endIndex_loop p (word_of_nat i + 1)"
    using nz i assms(1) by (subst endIndex_loop.simps) (simp add: u peek_def)
  also have "(word_of_nat i + 1 :: byte) = word_of_nat (Suc i)" by simp
  finally show ?case using step.IH by simp
qed

lemma endIndex_loop_eq:
  "130 \<le> length p \<Longrightarrow>
     endIndex_loop p 0 = Some (word_of_nat (length (nonzero_prefix (take 129 p))))"
  using endIndex_loop_from [of p "length (nonzero_prefix (take 129 p))" 0] by simp

lemma unat_endIndex:
  "unat (word_of_nat (length (nonzero_prefix (take 129 p))) :: byte)
     = length (nonzero_prefix (take 129 p))"
  using length_takeWhile_le [of "\<lambda>b. b \<noteq> 0" "take 129 p"] by (simp add: unat_of_nat)

text \<open>The flags of a type 6 message as a function of what each test found.\<close>

definition type6_flags :: "bool \<Rightarrow> bool \<Rightarrow> bool \<Rightarrow> bool \<Rightarrow> bool \<Rightarrow> bool \<Rightarrow> u32" where
  "type6_flags short mismatch lenmatch large nonull messlen =
     (if short then TP0_DNLEN33P else 0) + (if mismatch then SID_MISMATCH else 0)
     + (if lenmatch then TP0_LENMATCH else 0) + (if large then TP0_DNLEN33P else 0)
     + (if nonull then TP0_NONULL else 0) + (if messlen then TP0_MESSLEN else 0)"

lemma type6_flags_zero:
  "type6_flags a b c d e f = 0 \<longleftrightarrow> \<not> a \<and> \<not> b \<and> \<not> c \<and> \<not> d \<and> \<not> e \<and> \<not> f"
  by (cases a; cases b; cases c; cases d; cases e; cases f; simp add: type6_flags_def ver_flags)

abbreviation sid_strnlen :: "char_ptr \<Rightarrow> nat \<Rightarrow> nat" where
  "sid_strnlen p n \<equiv> length (nonzero_prefix (take n p))"

lemma type6Ver_flags:
  assumes "130 \<le> length (m6_sessionId m)"
  shows "type6Ver m st =
    map_option (\<lambda>d. type6_flags
        (sid_strnlen (m6_sessionId m) 128 \<noteq> unat (m6_sidLength m)) (d \<noteq> 0)
        (unat (m6_sidLength m) \<noteq> sid_strnlen (m6_sessionId m) 129)
        (128 < unat (m6_sidLength m)) (sid_strnlen (m6_sessionId m) 129 = 129)
        (unat (messageLength (m6_header m)) \<noteq> 144))
      (c_strncmp (sessionId st) (m6_sessionId m) (unat (m6_sidLength m)))"
proof -
  have k: "c_strnlen (m6_sessionId m) 128 = Some (sid_strnlen (m6_sessionId m) 128)"
    using assms by (simp add: c_strnlen_defined)
  obtain w where e: "endIndex_loop (m6_sessionId m) 0 = Some w"
    and u: "unat w = sid_strnlen (m6_sessionId m) 129"
    using endIndex_loop_eq [OF assms] unat_endIndex by blast
  have is129: "w = 129 \<longleftrightarrow> sid_strnlen (m6_sessionId m) 129 = 129"
    by (subst word_unat_eq_iff) (simp add: u)
  show ?thesis
    by (cases "c_strncmp (sessionId st) (m6_sessionId m) (unat (m6_sidLength m))")
       (simp_all add: type6Ver_def Let_def k e is129 u type6_flags_def ac_simps)
qed

lemma type6Ver_zero:
  assumes "130 \<le> length (m6_sessionId m)"
  shows "type6Ver m st = Some 0 \<longleftrightarrow>
     sid_strnlen (m6_sessionId m) 128 = unat (m6_sidLength m) \<and>
     c_strncmp (sessionId st) (m6_sessionId m) (unat (m6_sidLength m)) = Some 0 \<and>
     sid_strnlen (m6_sessionId m) 129 = unat (m6_sidLength m) \<and>
     unat (messageLength (m6_header m)) = 144"
proof -
  have "sid_strnlen (m6_sessionId m) 128 \<le> 128"
    using length_takeWhile_le [of "\<lambda>b. b \<noteq> 0" "take 128 (m6_sessionId m)"] by simp
  then show ?thesis
    by (auto simp: type6Ver_flags [OF assms] type6_flags_zero)
qed

lemma type3Ver_values: "type3Ver m = Some r \<Longrightarrow> r = 0 \<or> r = 1"
  by (auto simp: type3Ver_def Option.bind_eq_Some_conv split: if_splits)

end
