(* ===== verification/RequestHandlers.thy ===== *)
theory RequestHandlers
  imports RequestVerify
begin

text \<open>
  \<open>requestHandlers.c\<close>: the builders of the messages getd sends, which write into the memory
  at \<open>outMessage\<close> in place, and the handlers of the messages it receives. A handler returns
  the size of the answer and the process after it; \<open>None\<close> is undefined behaviour.
\<close>

section \<open>Builders\<close>

definition bytes_of :: "string \<Rightarrow> byte list" where
  "bytes_of s = map of_char s"

text \<open>A string literal is its characters and a zero.\<close>

definition lit :: "string \<Rightarrow> char_ptr" where
  "lit s = bytes_of s @ [0]"

definition MessageType2Builder :: "byte list \<Rightarrow> char_ptr \<Rightarrow> (nat \<times> byte list) option" where
  "MessageType2Builder m errorMsg = do {
     errorMsgLen \<leftarrow> c_strlen errorMsg;
     m \<leftarrow> st32 m (offset_of Header_members 1) (word_of_nat (struct_size MessageType2_members));
     m \<leftarrow> poke m (offset_of Header_members 0) [2];
     m \<leftarrow> st32 m (offset_of MessageType2_members 1) (word_of_nat errorMsgLen);
     m \<leftarrow> c_strncpy_at m (offset_of MessageType2_members 2) errorMsg errorMsgLen;
     m \<leftarrow> poke m (offset_of MessageType2_members 2 + (errorMsgLen + 1)) [0];
     len \<leftarrow> ld32 m (offset_of Header_members 1);
     Some (unat len, m) }"

definition MessageType1Builder :: "byte list \<Rightarrow> State \<Rightarrow> (nat \<times> byte list \<times> State) option" where
  "MessageType1Builder out st = do {
     out \<leftarrow> poke out (offset_of Header_members 0) [1];
     out \<leftarrow> c_strcpy_at out (offset_of MessageType1_members 2) (sessionId st);
     n \<leftarrow> c_strlen (sessionId st);
     out \<leftarrow> st32 out (offset_of MessageType1_members 1) (word_of_nat n);
     out \<leftarrow> st32 out (offset_of Header_members 1) (word_of_nat (struct_size MessageType1_members));
     let st = st\<lparr>lastSent := 1\<rparr>;
     len \<leftarrow> ld32 out (offset_of Header_members 1);
     Some (unat len, out, st) }"

definition MessegeType4Builder :: "getd \<Rightarrow> (nat \<times> getd) option" where
  "MessegeType4Builder g = do {
     let st = (state g)\<lparr>lastSent := 4\<rparr>;
     out \<leftarrow> poke (outMessage g) (offset_of Header_members 0) [4];
     f \<leftarrow> sendFile g;
     let (bs, f) = c_fread f 4096;
     out \<leftarrow> poke out (offset_of MessageType4_members 4) bs;
     out \<leftarrow> st32 out (offset_of MessageType4_members 2) (word_of_nat (length bs));
     cl \<leftarrow> ld32 out (offset_of MessageType4_members 2);
     let f = (if cl \<noteq> 4096 then snd (c_getc f) else f);
     out \<leftarrow> c_strcpy_at out (offset_of MessageType4_members 3) (sessionId st);
     n \<leftarrow> c_strlen (drop (offset_of MessageType4_members 3) out);
     out \<leftarrow> st32 out (offset_of MessageType4_members 1) (word_of_nat n);
     out \<leftarrow> st32 out (offset_of Header_members 1) (word_of_nat (struct_size MessageType4_members));
     len \<leftarrow> ld32 out (offset_of Header_members 1);
     Some (unat len, g\<lparr>state := st, outMessage := out, sendFile := Some f\<rparr>) }"

definition MessegeType5Builder :: "getd \<Rightarrow> (nat \<times> getd) option" where
  "MessegeType5Builder g = do {
     _ \<leftarrow> sendFile g;
     let st = (state g)\<lparr>lastSent := 5\<rparr>;
     out \<leftarrow> poke (outMessage g) (offset_of Header_members 0) [5];
     out \<leftarrow> c_strcpy_at out (offset_of MessageType5_members 2) (sessionId st);
     n \<leftarrow> c_strlen (drop (offset_of MessageType5_members 2) out);
     out \<leftarrow> st32 out (offset_of MessageType5_members 1) (word_of_nat n);
     out \<leftarrow> st32 out (offset_of Header_members 1) (word_of_nat (struct_size MessageType5_members));
     len \<leftarrow> ld32 out (offset_of Header_members 1);
     Some (unat len, g\<lparr>state := st, outMessage := out, sendFile := None,
       openFiles := openFiles g - 1\<rparr>) }"

text \<open>The builders of types 1 and 2 on the whole process.\<close>

definition send2 :: "getd \<Rightarrow> char_ptr \<Rightarrow> (nat \<times> getd) option" where
  "send2 g errorMsg = do {
     (n, out) \<leftarrow> MessageType2Builder (outMessage g) errorMsg;
     Some (n, g\<lparr>outMessage := out\<rparr>) }"

definition send1 :: "getd \<Rightarrow> (nat \<times> getd) option" where
  "send1 g = do {
     (n, out, st) \<leftarrow> MessageType1Builder (outMessage g) (state g);
     Some (n, g\<lparr>outMessage := out, state := st\<rparr>) }"

definition set_lastSent :: "byte \<Rightarrow> getd \<Rightarrow> getd" where
  "set_lastSent b g = g\<lparr>state := (state g)\<lparr>lastSent := b\<rparr>\<rparr>"

section \<open>Session identifiers\<close>

definition possibleChars :: "byte list" where
  "possibleChars = lit ''0123456789abcdefghijklmnopqrstuvwxyzABCDEFGHIJKLMNOPQRSTUVWXYZ''"

definition RAND_MAX :: nat where "RAND_MAX = 2147483647"

text \<open>
  \<open>(size_t)(((double)rand()) / RAND_MAX * (sizeof possibleChars - 1))\<close>. The quotient is exact
  enough for the truncation to be that of the exact product: \<open>RAND_MAX\<close> is prime, so
  \<open>r * 62 / RAND_MAX\<close> is an integer only for \<open>r = 0\<close> and \<open>r = RAND_MAX\<close>, where the
  doubles are exact, and is otherwise at least \<open>1 / RAND_MAX\<close> away from one, far more than
  the rounding of a double.
\<close>

definition rand_index :: "nat \<Rightarrow> nat" where
  "rand_index r = r * (length possibleChars - 1) div RAND_MAX"

text \<open>The loop fills positions \<open>n - 1\<close> down to 0; \<open>k\<close> counts the calls of \<open>rand\<close>.\<close>

fun fill_sessionId :: "(nat \<Rightarrow> nat) \<Rightarrow> nat \<Rightarrow> nat \<Rightarrow> byte list \<Rightarrow> (byte list \<times> nat) option" where
  "fill_sessionId rnd k 0 sid = Some (sid, k)"
| "fill_sessionId rnd k (Suc n) sid = do {
     c \<leftarrow> peek possibleChars (rand_index (rnd k));
     sid \<leftarrow> poke sid n [c];
     fill_sessionId rnd (Suc k) n sid }"

section \<open>Handlers\<close>

definition MessageType0Handler :: "env \<Rightarrow> MessageType0 \<Rightarrow> getd \<Rightarrow> (nat \<times> getd) option" where
  "MessageType0Handler E messageType0 g = do {
     ver \<leftarrow> type0Ver messageType0;
     if lastSent (state g) \<noteq> 5 \<and> lastSent (state g) \<noteq> 2
     then send2 g (lit ''1 session at a time'')
     else if ver \<noteq> 0 then send2 (set_lastSent 2 g) (lit ''Corrupt Type 0 Message'')
     else do {
       name \<leftarrow> c_strcpy (userName (state g)) (distinguishedName messageType0);
       sid \<leftarrow> poke (sessionId (state g)) 0 [0];
       (sid, k) \<leftarrow> fill_sessionId (rand_at E) (randCalls g) 128 sid;
       sid \<leftarrow> poke sid 128 [0];
       send1 (g\<lparr>state := (state g)\<lparr>userName := name, sessionId := sid\<rparr>, randCalls := k\<rparr>) } }"

definition MessageType3Handler :: "env \<Rightarrow> MessageType3 \<Rightarrow> getd \<Rightarrow> (nat \<times> getd) option" where
  "MessageType3Handler E messageType3 g = do {
     ver \<leftarrow> type3Ver messageType3;
     if ver \<noteq> 0 then send2 (set_lastSent 2 g) (lit ''Corrupt Type 3 Message'')
     else do {
       d \<leftarrow> c_strncmp (m3_sessionId messageType3) (sessionId (state g)) 128;
       if d \<noteq> 0 then send2 (set_lastSent 2 g) (lit ''One session at a time'')
       else if lastSent (state g) \<noteq> 1 then send2 (set_lastSent 2 g) (lit ''Invalid State'')
       else do {
         path \<leftarrow> c_cstr (pathName messageType3);
         case fopen_at E (openFiles g) path of
           None \<Rightarrow> send2 (set_lastSent 2 (g\<lparr>sendFile := None\<rparr>)) (lit ''Error Opening File'')
         | Some Special \<Rightarrow>
             send2 (set_lastSent 2 (g\<lparr>sendFile := Some \<lparr>f_data = [], f_pos = 0, f_eof = False\<rparr>,
               openFiles := openFiles g + 1\<rparr>)) (lit ''Invalid File Type'')
         | Some (Regular bs) \<Rightarrow>
             MessegeType4Builder (g\<lparr>sendFile := Some \<lparr>f_data = bs, f_pos = 0, f_eof = False\<rparr>,
               openFiles := openFiles g + 1\<rparr>) } } }"

definition MessageType6Handler :: "MessageType6 \<Rightarrow> getd \<Rightarrow> (nat \<times> getd) option" where
  "MessageType6Handler messageType6 g = do {
     d \<leftarrow> c_strcmp (m6_sessionId messageType6) (sessionId (state g));
     if d \<noteq> 0 then send2 g (lit ''One session at a time'')
     else do {
       let g = g\<lparr>state := (state g)\<lparr>lastRecieved := 6\<rparr>\<rparr>;
       ver \<leftarrow> type6Ver messageType6 (state g);
       if ver \<noteq> 0 then send2 (set_lastSent 2 g) (lit ''Corrupt Type 6 Messege'')
       else if lastSent (state g) = 4
       then do {
         f \<leftarrow> sendFile g;
         if c_feof f then MessegeType5Builder g else MessegeType4Builder g }
       else if lastSent (state g) \<noteq> 5 then send2 (set_lastSent 2 g) (lit ''Invalid State'')
       else Some (0, g) } }"

text \<open>\<open>sprintf\<close> of an unsigned integer in decimal.\<close>

fun c_decimal :: "nat \<Rightarrow> byte list" where
  "c_decimal n =
     (if n < 10 then [48 + word_of_nat n] else c_decimal (n div 10) @ [48 + word_of_nat (n mod 10)])"

declare c_decimal.simps [simp del]

definition MessageOtherHandler :: "byte \<Rightarrow> getd \<Rightarrow> (nat \<times> getd) option" where
  "MessageOtherHandler ty g =
     send2 g (bytes_of ''Invalid Message Type: \"'' @ c_decimal (unat ty) @ bytes_of ''\"'' @ [0])"

end
