(* ===== verification/Getd_Main.thy ===== *)
theory Getd_Main
  imports RequestHandlers
begin

text \<open>
  \<open>main.c\<close>: the server loop. One turn receives into the 4000-byte buffer, dispatches on the
  message type and sends the answer. \<open>server_step\<close> is one turn or a signal, as a relation,
  and \<open>serve\<close> runs the loop over the messages that arrive.
\<close>

section \<open>One turn of the loop\<close>

record server =
  buffer :: "byte list"
  getd :: getd
  running :: bool

text \<open>
  \<open>nn_recv(socket, buffer, 4000, 0)\<close>: at most 4000 bytes of the message replace the start of
  the buffer, the rest of the buffer stays; a failed call (\<open>None\<close>) leaves it all. The
  result of the call is not looked at.
\<close>

definition nn_recv_into :: "byte list \<Rightarrow> byte list option \<Rightarrow> byte list" where
  "nn_recv_into buf r =
     (case r of None \<Rightarrow> buf
      | Some msg \<Rightarrow> take 4000 msg @ drop (length (take 4000 msg)) buf)"

definition nn_send_from :: "byte list \<Rightarrow> nat \<Rightarrow> byte list option" where
  "nn_send_from m n = (if n \<le> length m then Some (take n m) else None)"

text \<open>The \<open>switch\<close> on the message type.\<close>

definition dispatch :: "env \<Rightarrow> byte \<Rightarrow> byte list \<Rightarrow> getd \<Rightarrow> (nat \<times> getd) option" where
  "dispatch E mType buf g =
     (if mType = 0 then do { m \<leftarrow> as_MessageType0 buf; MessageType0Handler E m g }
      else if mType = 3 then do { m \<leftarrow> as_MessageType3 buf; MessageType3Handler E m g }
      else if mType = 6 then do { m \<leftarrow> as_MessageType6 buf; MessageType6Handler m g }
      else MessageOtherHandler mType g)"

definition main_turn :: "env \<Rightarrow> byte list option \<Rightarrow> server \<Rightarrow> (byte list option \<times> server) option" where
  "main_turn E r s = do {
     let buf = nn_recv_into (buffer s) r;
     h \<leftarrow> asHeader buf;
     let mType = messageType h;
     (outSize, g) \<leftarrow> dispatch E mType buf (getd s);
     let s = s\<lparr>buffer := buf, getd := g\<rparr>;
     if mType = 6 \<and> outSize = 0 then Some (None, s)
     else do { msg \<leftarrow> nn_send_from (outMessage g) outSize; Some (Some msg, s) } }"

text \<open>
  The start of \<open>main\<close>: the session id and user name on the stack and the 10000 bytes from
  \<open>malloc\<close> hold whatever they hold.
\<close>

definition main_start :: "byte list \<Rightarrow> byte list \<Rightarrow> byte list \<Rightarrow> byte list \<Rightarrow> server" where
  "main_start buf sid name out =
     \<lparr>buffer = buf,
      getd = \<lparr>state = \<lparr>sessionId = sid, userName = name, lastSent = 5, lastRecieved = 6\<rparr>,
              outMessage = out, sendFile = None, openFiles = 0, randCalls = 0\<rparr>,
      running = True\<rparr>"

definition started :: "server \<Rightarrow> bool" where
  "started s \<longleftrightarrow>
     (\<exists>buf sid name out. s = main_start buf sid name out \<and>
        length buf = 4000 \<and> length sid = 129 \<and> length name = 33 \<and> length out = 10000)"

text \<open>The loop over the results of successive receives, with what is sent for each.\<close>

fun serve :: "env \<Rightarrow> byte list option list \<Rightarrow> server \<Rightarrow> (byte list list \<times> server) option" where
  "serve E [] s = Some ([], s)"
| "serve E (r # rs) s = do {
     (ans, s) \<leftarrow> main_turn E r s;
     (out, s) \<leftarrow> serve E rs s;
     Some ((case ans of None \<Rightarrow> out | Some a \<Rightarrow> a # out), s) }"

text \<open>
  The steps of the process: a turn, or one of the signals \<open>handleQuit\<close> is installed for,
  which ends it.
\<close>

definition handleQuit :: "server \<Rightarrow> server" where
  "handleQuit s = s\<lparr>running := False, getd := (getd s)\<lparr>outMessage := []\<rparr>\<rparr>"

inductive server_step :: "env \<Rightarrow> server \<Rightarrow> server \<Rightarrow> bool" for E :: env where
  turn: "running s \<Longrightarrow> main_turn E r s = Some (ans, s') \<Longrightarrow> server_step E s s'"
| quit: "running s \<Longrightarrow> server_step E s (handleQuit s)"

inductive server_reach :: "env \<Rightarrow> server \<Rightarrow> bool" for E :: env where
  start: "started s \<Longrightarrow> server_reach E s"
| step: "server_reach E s \<Longrightarrow> server_step E s s' \<Longrightarrow> server_reach E s'"

inductive_cases server_stepE: "server_step E s s'"

section \<open>The process invariant\<close>

text \<open>
  Sizes of the objects; the last message sent was of type 1, 2, 4 or 5; a transfer has its
  stream; and once a session was opened the session id is a terminated string.
\<close>

definition getd_ok :: "getd \<Rightarrow> bool" where
  "getd_ok g \<longleftrightarrow>
     length (sessionId (state g)) = 129 \<and> length (userName (state g)) = 33 \<and>
     length (outMessage g) = 10000 \<and>
     lastSent (state g) \<in> {1, 2, 4, 5} \<and>
     (lastSent (state g) = 4 \<longrightarrow> sendFile g \<noteq> None) \<and>
     (sendFile g \<noteq> None \<longrightarrow> 0 < openFiles g) \<and>
     (lastSent (state g) \<in> {1, 4} \<longrightarrow> sessionId (state g) ! 128 = 0)"

definition server_ok :: "server \<Rightarrow> bool" where
  "server_ok s \<longleftrightarrow> length (buffer s) = 4000 \<and> getd_ok (getd s)"

end
