(* ===== verification/Handler_Specs.thy ===== *)
theory Handler_Specs
  imports Getd_Main
begin

text \<open>
  What each builder writes and each handler does, on every branch: the facts the properties
  of getd rest on.
\<close>

section \<open>Builders\<close>

text \<open>
  The memory after \<open>MessageType2Builder\<close>: header, length, text, and a zero one byte
  further than the end of the text; the byte in between keeps what it held.
\<close>

definition type2_image :: "byte list \<Rightarrow> byte list \<Rightarrow> byte list" where
  "type2_image m s =
     overwrite (overwrite (overwrite (overwrite (overwrite m
       4 (le_bytes 4 272)) 0 [2]) 8 (le_bytes 4 (length s))) 12 s) (13 + length s) [0]"

text \<open>Types 1 and 5 differ in the type byte only.\<close>

definition sid_image :: "byte \<Rightarrow> byte list \<Rightarrow> byte list \<Rightarrow> byte list" where
  "sid_image ty m s =
     overwrite (overwrite (overwrite (overwrite m
       0 [ty]) 12 (s @ [0])) 8 (le_bytes 4 (length s))) 4 (le_bytes 4 144)"

definition type4_image :: "byte list \<Rightarrow> byte list \<Rightarrow> byte list \<Rightarrow> byte list" where
  "type4_image m s bs =
     overwrite (overwrite (overwrite (overwrite (overwrite (overwrite m
       0 [4]) 145 bs) 12 (le_bytes 4 (length bs))) 16 (s @ [0])) 8 (le_bytes 4 (length s)))
       4 (le_bytes 4 4244)"

lemma length_images [simp]:
  "272 \<le> length m \<Longrightarrow> length s \<le> 255 \<Longrightarrow> length (type2_image m s) = length m"
  "144 \<le> length m \<Longrightarrow> length s \<le> 128 \<Longrightarrow> length (sid_image ty m s) = length m"
  "4244 \<le> length m \<Longrightarrow> length s \<le> 128 \<Longrightarrow> length bs \<le> 4096 \<Longrightarrow>
     length (type4_image m s bs) = length m"
  by (simp_all add: type2_image_def sid_image_def type4_image_def length_overwrite)

lemma MessageType2Builder_eq:
  assumes "272 \<le> length m" and "0 \<notin> set s" and "length s \<le> 255"
  shows "MessageType2Builder m (s @ [0]) = Some (272, type2_image m s)"
proof -
  have u: "unat (word_of_nat (length s) :: u32) = length s"
    using assms(3) by (simp add: unat_of_nat)
  have n: "c_strnlen (s @ [0]) (length s) = Some (length s)"
    using assms(2) by (simp add: c_strnlen_full)
  show ?thesis
    unfolding MessageType2Builder_def type2_image_def
    using assms by (simp add: mem_simps n u c_strncpy_at_def)
qed

lemma MessageType1Builder_eq:
  assumes "144 \<le> length m" and "c_cstr (sessionId st) = Some s" and "length s \<le> 128"
  shows "MessageType1Builder m st = Some (144, sid_image 1 m s, st\<lparr>lastSent := 1\<rparr>)"
proof -
  have u: "unat (word_of_nat (length s) :: u32) = length s"
    using assms(3) by (simp add: unat_of_nat)
  show ?thesis
    unfolding MessageType1Builder_def sid_image_def
    using assms by (simp add: mem_simps u c_strcpy_at_def c_strlen_def)
qed

lemma MessegeType5Builder_eq:
  assumes "144 \<le> length (outMessage g)" and "c_cstr (sessionId (state g)) = Some s"
    and "length s \<le> 128" and "sendFile g = Some f"
  shows "MessegeType5Builder g = Some (144, g\<lparr>state := (state g)\<lparr>lastSent := 5\<rparr>,
     outMessage := sid_image 5 (outMessage g) s, sendFile := None, openFiles := openFiles g - 1\<rparr>)"
proof -
  have u: "unat (word_of_nat (length s) :: u32) = length s"
    using assms(3) by (simp add: unat_of_nat)
  have "0 \<notin> set s" using assms(2) c_cstr_SomeD by blast
  then show ?thesis
    unfolding MessegeType5Builder_def sid_image_def
    using assms by (simp add: mem_simps u c_strcpy_at_def)
qed

text \<open>Reading on: what is left of a stream, one chunk at a time.\<close>

definition chunk_of :: "FILE \<Rightarrow> byte list" where
  "chunk_of f = slice (f_pos f) 4096 (f_data f)"

definition after_chunk :: "FILE \<Rightarrow> FILE" where
  "after_chunk f = f\<lparr>f_pos := f_pos f + length (chunk_of f),
     f_eof := f_eof f \<or> length (chunk_of f) < 4096\<rparr>"

lemma length_chunk_of: "length (chunk_of f) \<le> 4096"
  by (simp add: chunk_of_def)

lemma c_fread_chunk: "c_fread f 4096 = (chunk_of f, after_chunk f)"
  by (simp add: c_fread_def chunk_of_def after_chunk_def Let_def)

lemma getc_after_short_read:
  "length (chunk_of f) \<noteq> 4096 \<Longrightarrow> snd (c_getc (after_chunk f)) = after_chunk f"
  using length_chunk_of [of f] by (simp add: c_getc_def after_chunk_def)

lemma MessegeType4Builder_eq:
  assumes "4244 \<le> length (outMessage g)" and "c_cstr (sessionId (state g)) = Some s"
    and "length s \<le> 128" and "sendFile g = Some f"
  shows "MessegeType4Builder g = Some (4244, g\<lparr>state := (state g)\<lparr>lastSent := 4\<rparr>,
     outMessage := type4_image (outMessage g) s (chunk_of f), sendFile := Some (after_chunk f)\<rparr>)"
proof -
  have u: "unat (word_of_nat (length s) :: u32) = length s"
    using assms(3) by (simp add: unat_of_nat)
  have l: "length (chunk_of f) \<le> 4096" by (rule length_chunk_of)
  have v: "unat (word_of_nat (length (chunk_of f)) :: u32) = length (chunk_of f)"
    using l by (simp add: unat_of_nat)
  have full: "(word_of_nat (length (chunk_of f)) :: u32) = 4096 \<longleftrightarrow> length (chunk_of f) = 4096"
    by (subst word_unat_eq_iff) (simp add: v)
  have "0 \<notin> set s" using assms(2) c_cstr_SomeD by blast
  then show ?thesis
    unfolding MessegeType4Builder_def type4_image_def
    using assms l
    by (simp add: mem_simps u v full c_fread_chunk c_strcpy_at_def getc_after_short_read
        split: if_split)
qed

section \<open>Session identifiers\<close>

definition drawn :: "(nat \<Rightarrow> nat) \<Rightarrow> nat \<Rightarrow> nat \<Rightarrow> byte list" where
  "drawn rnd k n = rev (map (\<lambda>j. possibleChars ! rand_index (rnd (k + j))) [0..<n])"

lemma length_possibleChars [simp]: "length possibleChars = 63"
  by (simp add: possibleChars_def lit_def bytes_of_def)

lemma rand_index_le: "r \<le> RAND_MAX \<Longrightarrow> rand_index r \<le> 62"
proof -
  assume "r \<le> RAND_MAX"
  then have "r * 62 div RAND_MAX \<le> RAND_MAX * 62 div RAND_MAX"
    by (intro div_le_mono mult_le_mono1)
  then show ?thesis by (simp add: rand_index_def RAND_MAX_def)
qed

lemma rand_index_lt: "r < RAND_MAX \<Longrightarrow> rand_index r < 62"
  by (simp add: rand_index_def RAND_MAX_def less_mult_imp_div_less)

lemma rand_index_max: "rand_index RAND_MAX = 62"
  by (simp add: rand_index_def RAND_MAX_def)

lemma drawn_Suc: "drawn rnd k (Suc n) = drawn rnd (Suc k) n @ [possibleChars ! rand_index (rnd k)]"
proof -
  have "map (\<lambda>j. possibleChars ! rand_index (rnd (k + j))) [0..<Suc n] =
      possibleChars ! rand_index (rnd k) # map (\<lambda>j. possibleChars ! rand_index (rnd (Suc k + j))) [0..<n]"
    by (subst map_upt_Suc) simp
  then show ?thesis unfolding drawn_def by simp
qed

lemma length_drawn [simp]: "length (drawn rnd k n) = n"
  by (simp add: drawn_def)

lemma fill_sessionId_eq:
  "n \<le> length sid \<Longrightarrow> (\<And>j. rnd j \<le> RAND_MAX) \<Longrightarrow>
     fill_sessionId rnd k n sid = Some (drawn rnd k n @ drop n sid, k + n)"
proof (induction n arbitrary: k sid)
  case 0
  then show ?case by (simp add: drawn_def)
next
  case (Suc n)
  let ?c = "possibleChars ! rand_index (rnd k)"
  have c: "peek possibleChars (rand_index (rnd k)) = Some ?c"
    using rand_index_le [OF Suc.prems(2) [of k]] by (simp add: peek_Some)
  have p: "poke sid n [?c] = Some (overwrite sid n [?c])"
    using Suc.prems(1) by (simp add: poke_Some)
  have d: "drop n (overwrite sid n [?c]) = ?c # drop (Suc n) sid"
    using Suc.prems(1) by (simp add: drop_overwrite_same)
  have "fill_sessionId rnd (Suc k) n (overwrite sid n [?c])
      = Some (drawn rnd (Suc k) n @ drop n (overwrite sid n [?c]), Suc k + n)"
    using Suc.prems by (intro Suc.IH) (simp_all add: length_overwrite)
  then show ?case by (simp add: c p d drawn_Suc)
qed

text \<open>The session id in memory: 128 drawn characters and the final zero.\<close>

definition new_sessionId :: "env \<Rightarrow> nat \<Rightarrow> byte list" where
  "new_sessionId E k = drawn (rand_at E) k 128 @ [0]"

lemma cstr_drawn:
  "\<exists>s. c_cstr (new_sessionId E k) = Some s \<and> length s \<le> 128"
proof -
  have "c_cstr (new_sessionId E k) = Some (nonzero_prefix (new_sessionId E k))"
    by (simp add: c_cstr_def new_sessionId_def)
  moreover from this have "length (nonzero_prefix (new_sessionId E k)) < 129"
    by (auto dest!: c_cstr_length simp: new_sessionId_def)
  ultimately show ?thesis by auto
qed

section \<open>Handlers, branch by branch\<close>

lemma send2_lit:
  "272 \<le> length (outMessage g) \<Longrightarrow> 0 \<notin> set (bytes_of s) \<Longrightarrow> length s \<le> 255 \<Longrightarrow>
     send2 g (lit s) = Some (272, g\<lparr>outMessage := type2_image (outMessage g) (bytes_of s)\<rparr>)"
  by (simp add: send2_def lit_def MessageType2Builder_eq bytes_of_def)

lemma set_lastSent_simps [simp]:
  "outMessage (set_lastSent b g) = outMessage g"
  "state (set_lastSent b g) = (state g)\<lparr>lastSent := b\<rparr>"
  "sendFile (set_lastSent b g) = sendFile g"
  "openFiles (set_lastSent b g) = openFiles g"
  "randCalls (set_lastSent b g) = randCalls g"
  by (simp_all add: set_lastSent_def)

text \<open>The refusal of a message: an error answer, and perhaps the failed state.\<close>

definition refuse :: "string \<Rightarrow> getd \<Rightarrow> getd" where
  "refuse s g = g\<lparr>outMessage := type2_image (outMessage g) (bytes_of s)\<rparr>"

lemma refuse_simps [simp]:
  "state (refuse s g) = state g" "sendFile (refuse s g) = sendFile g"
  "openFiles (refuse s g) = openFiles g" "randCalls (refuse s g) = randCalls g"
  "outMessage (refuse s g) = type2_image (outMessage g) (bytes_of s)"
  by (simp_all add: refuse_def)

lemma send2_refuse:
  "length (outMessage g) = 10000 \<Longrightarrow> 0 \<notin> set (bytes_of s) \<Longrightarrow> length s \<le> 255 \<Longrightarrow>
     send2 g (lit s) = Some (272, refuse s g)"
  by (simp add: send2_lit refuse_def)

lemma literals_not_zero [simp]:
  "0 \<notin> set (bytes_of ''1 session at a time'')" "0 \<notin> set (bytes_of ''Corrupt Type 0 Message'')"
  "0 \<notin> set (bytes_of ''Corrupt Type 3 Message'')" "0 \<notin> set (bytes_of ''One session at a time'')"
  "0 \<notin> set (bytes_of ''Invalid State'')" "0 \<notin> set (bytes_of ''Error Opening File'')"
  "0 \<notin> set (bytes_of ''Invalid File Type'')" "0 \<notin> set (bytes_of ''Corrupt Type 6 Messege'')"
  by (simp_all add: bytes_of_def)

lemma T0_busy:
  assumes "getd_ok g" and "type0Ver m = Some v"
    and "lastSent (state g) \<noteq> 5" and "lastSent (state g) \<noteq> 2"
  shows "MessageType0Handler E m g = Some (272, refuse ''1 session at a time'' g)"
  using assms by (simp add: MessageType0Handler_def send2_refuse getd_ok_def)

lemma T0_corrupt:
  assumes "getd_ok g" and "type0Ver m = Some v" and "v \<noteq> 0"
    and "lastSent (state g) = 5 \<or> lastSent (state g) = 2"
  shows "MessageType0Handler E m g
     = Some (272, refuse ''Corrupt Type 0 Message'' (set_lastSent 2 g))"
  using assms by (auto simp add: MessageType0Handler_def send2_refuse getd_ok_def)

definition open_session :: "env \<Rightarrow> byte list \<Rightarrow> getd \<Rightarrow> getd" where
  "open_session E name g = g\<lparr>
     state := (state g)\<lparr>sessionId := new_sessionId E (randCalls g),
                        userName := overwrite (userName (state g)) 0 (name @ [0]), lastSent := 1\<rparr>,
     outMessage := sid_image 1 (outMessage g) (nonzero_prefix (new_sessionId E (randCalls g))),
     randCalls := randCalls g + 128\<rparr>"

lemma T0_open:
  assumes "getd_ok g" and "type0Ver m = Some 0"
    and "lastSent (state g) = 5 \<or> lastSent (state g) = 2"
    and "c_cstr (distinguishedName m) = Some name" and "length name \<le> 32"
    and "\<And>j. rand_at E j \<le> RAND_MAX"
  shows "MessageType0Handler E m g = Some (144, open_session E name g)"
proof -
  let ?k = "randCalls g" and ?sid = "sessionId (state g)"
  have len: "length ?sid = 129" "length (userName (state g)) = 33" "length (outMessage g) = 10000"
    using assms(1) by (auto simp: getd_ok_def)
  let ?s0 = "overwrite ?sid 0 [0]"
  have "drop 128 ?s0 = drop 128 ?sid" using len by (simp add: drop_overwrite_after)
  moreover have "fill_sessionId (rand_at E) ?k 128 ?s0
      = Some (drawn (rand_at E) ?k 128 @ drop 128 ?s0, ?k + 128)"
    by (rule fill_sessionId_eq) (use len assms(6) in \<open>simp_all add: length_overwrite\<close>)
  ultimately have f: "fill_sessionId (rand_at E) ?k 128 ?s0
      = Some (drawn (rand_at E) ?k 128 @ drop 128 ?sid, ?k + 128)" by simp
  have d: "overwrite (drawn (rand_at E) ?k 128 @ drop 128 ?sid) 128 [0] = new_sessionId E ?k"
    using len by (simp add: overwrite_def new_sessionId_def)
  obtain s where s: "c_cstr (new_sessionId E ?k) = Some s" "length s \<le> 128"
    using cstr_drawn by blast
  then have sp: "s = nonzero_prefix (new_sessionId E ?k)"
    by (simp add: c_cstr_def split: if_splits)
  have p: "poke (drawn (rand_at E) ?k 128 @ drop 128 ?sid) 128 [0] = Some (new_sessionId E ?k)"
    using len d by (simp add: poke_def)
  show ?thesis
    using assms(2-5) len s
    by (auto simp: MessageType0Handler_def poke_Some f p send1_def c_strcpy_def c_strcpy_at_def
        MessageType1Builder_eq open_session_def sp)
qed

text \<open>
  Type 3. The session check: both identifiers agree as strings, as far as 128 characters.
\<close>

lemma T3_corrupt:
  assumes "getd_ok g" and "type3Ver m = Some v" and "v \<noteq> 0"
  shows "MessageType3Handler E m g
     = Some (272, refuse ''Corrupt Type 3 Message'' (set_lastSent 2 g))"
  using assms by (simp add: MessageType3Handler_def send2_refuse getd_ok_def)

lemma T3_other_session:
  assumes "getd_ok g" and "type3Ver m = Some 0"
    and "c_strncmp (m3_sessionId m) (sessionId (state g)) 128 = Some d" and "d \<noteq> 0"
  shows "MessageType3Handler E m g
     = Some (272, refuse ''One session at a time'' (set_lastSent 2 g))"
  using assms by (simp add: MessageType3Handler_def send2_refuse getd_ok_def)

lemma T3_invalid_state:
  assumes "getd_ok g" and "type3Ver m = Some 0"
    and "c_strncmp (m3_sessionId m) (sessionId (state g)) 128 = Some 0"
    and "lastSent (state g) \<noteq> 1"
  shows "MessageType3Handler E m g = Some (272, refuse ''Invalid State'' (set_lastSent 2 g))"
  using assms by (simp add: MessageType3Handler_def send2_refuse getd_ok_def)

definition opened :: "byte list \<Rightarrow> getd \<Rightarrow> getd" where
  "opened bs g = g\<lparr>sendFile := Some \<lparr>f_data = bs, f_pos = 0, f_eof = False\<rparr>,
     openFiles := openFiles g + 1\<rparr>"

lemma opened_simps [simp]:
  "state (opened bs g) = state g" "outMessage (opened bs g) = outMessage g"
  "sendFile (opened bs g) = Some \<lparr>f_data = bs, f_pos = 0, f_eof = False\<rparr>"
  "openFiles (opened bs g) = openFiles g + 1" "randCalls (opened bs g) = randCalls g"
  by (simp_all add: opened_def)

lemma T3_no_file:
  assumes "getd_ok g" and "type3Ver m = Some 0"
    and "c_strncmp (m3_sessionId m) (sessionId (state g)) 128 = Some 0"
    and "lastSent (state g) = 1"
    and "c_cstr (pathName m) = Some path" and "fopen_at E (openFiles g) path = None"
  shows "MessageType3Handler E m g
     = Some (272, refuse ''Error Opening File'' (set_lastSent 2 (g\<lparr>sendFile := None\<rparr>)))"
  using assms by (simp add: MessageType3Handler_def send2_refuse getd_ok_def)

lemma T3_special_file:
  assumes "getd_ok g" and "type3Ver m = Some 0"
    and "c_strncmp (m3_sessionId m) (sessionId (state g)) 128 = Some 0"
    and "lastSent (state g) = 1"
    and "c_cstr (pathName m) = Some path" and "fopen_at E (openFiles g) path = Some Special"
  shows "MessageType3Handler E m g
     = Some (272, refuse ''Invalid File Type'' (set_lastSent 2 (opened [] g)))"
  using assms by (simp add: MessageType3Handler_def send2_refuse getd_ok_def opened_def)

text \<open>The process after a type 4 answer, and after the type 5 answer.\<close>

definition sent_chunk :: "byte list \<Rightarrow> FILE \<Rightarrow> getd \<Rightarrow> getd" where
  "sent_chunk s f g = g\<lparr>state := (state g)\<lparr>lastSent := 4\<rparr>,
     outMessage := type4_image (outMessage g) s (chunk_of f), sendFile := Some (after_chunk f)\<rparr>"

definition sent_end :: "byte list \<Rightarrow> getd \<Rightarrow> getd" where
  "sent_end s g = g\<lparr>state := (state g)\<lparr>lastSent := 5\<rparr>,
     outMessage := sid_image 5 (outMessage g) s, sendFile := None, openFiles := openFiles g - 1\<rparr>"

text \<open>The session id as a string, once a session was opened.\<close>

definition session_string :: "getd \<Rightarrow> byte list" where
  "session_string g = nonzero_prefix (sessionId (state g))"

lemma session_cstr:
  assumes "length (sessionId (state g)) = 129" and "sessionId (state g) ! 128 = 0"
  shows "c_cstr (sessionId (state g)) = Some (session_string g)" and "length (session_string g) \<le> 128"
proof -
  have "0 \<in> set (sessionId (state g))"
    using assms nth_mem [of 128 "sessionId (state g)"] by simp
  then show c: "c_cstr (sessionId (state g)) = Some (session_string g)"
    by (simp add: c_cstr_def session_string_def)
  then have "length (session_string g) < 129" using assms(1) by (auto dest: c_cstr_length)
  then show "length (session_string g) \<le> 128" by simp
qed

lemma T3_open:
  assumes "getd_ok g" and "type3Ver m = Some 0"
    and "c_strncmp (m3_sessionId m) (sessionId (state g)) 128 = Some 0"
    and "lastSent (state g) = 1"
    and "c_cstr (pathName m) = Some path" and "fopen_at E (openFiles g) path = Some (Regular bs)"
  shows "MessageType3Handler E m g
     = Some (4244, sent_chunk (session_string g) \<lparr>f_data = bs, f_pos = 0, f_eof = False\<rparr> (opened bs g))"
proof -
  have c: "c_cstr (sessionId (state g)) = Some (session_string g)" "length (session_string g) \<le> 128"
    using assms(1,4) by (auto simp: getd_ok_def intro: session_cstr)
  have "MessegeType4Builder (opened bs g) = Some (4244,
      sent_chunk (session_string g) \<lparr>f_data = bs, f_pos = 0, f_eof = False\<rparr> (opened bs g))"
    unfolding sent_chunk_def
    by (rule MessegeType4Builder_eq) (use c assms(1) in \<open>simp_all add: getd_ok_def\<close>)
  then show ?thesis
    using assms by (simp add: MessageType3Handler_def opened_def)
qed

text \<open>Type 6.\<close>

definition noted6 :: "getd \<Rightarrow> getd" where
  "noted6 g = g\<lparr>state := (state g)\<lparr>lastRecieved := 6\<rparr>\<rparr>"

lemma noted6_simps [simp]:
  "outMessage (noted6 g) = outMessage g" "sendFile (noted6 g) = sendFile g"
  "openFiles (noted6 g) = openFiles g" "randCalls (noted6 g) = randCalls g"
  "state (noted6 g) = (state g)\<lparr>lastRecieved := 6\<rparr>" "session_string (noted6 g) = session_string g"
  "getd_ok (noted6 g) = getd_ok g"
  by (simp_all add: noted6_def session_string_def getd_ok_def)

lemma T6_other_session:
  assumes "getd_ok g" and "c_strcmp (m6_sessionId m) (sessionId (state g)) = Some d" and "d \<noteq> 0"
  shows "MessageType6Handler m g = Some (272, refuse ''One session at a time'' g)"
  using assms by (simp add: MessageType6Handler_def send2_refuse getd_ok_def)

lemma T6_corrupt:
  assumes "getd_ok g" and "c_strcmp (m6_sessionId m) (sessionId (state g)) = Some 0"
    and "type6Ver m (state (noted6 g)) = Some v" and "v \<noteq> 0"
  shows "MessageType6Handler m g
     = Some (272, refuse ''Corrupt Type 6 Messege'' (set_lastSent 2 (noted6 g)))"
proof -
  have "length (outMessage (set_lastSent 2 (noted6 g))) = 10000"
    using assms(1) by (simp add: getd_ok_def)
  with assms show ?thesis
    by (simp add: MessageType6Handler_def Let_def noted6_def [symmetric] send2_refuse)
qed

lemma T6_invalid_state:
  assumes "getd_ok g" and "c_strcmp (m6_sessionId m) (sessionId (state g)) = Some 0"
    and "type6Ver m (state (noted6 g)) = Some 0"
    and "lastSent (state g) \<noteq> 4" and "lastSent (state g) \<noteq> 5"
  shows "MessageType6Handler m g
     = Some (272, refuse ''Invalid State'' (set_lastSent 2 (noted6 g)))"
proof -
  have "length (outMessage (set_lastSent 2 (noted6 g))) = 10000"
    using assms(1) by (simp add: getd_ok_def)
  with assms show ?thesis
    by (simp add: MessageType6Handler_def Let_def noted6_def [symmetric] send2_refuse)
qed

lemma T6_done:
  assumes "c_strcmp (m6_sessionId m) (sessionId (state g)) = Some 0"
    and "type6Ver m (state (noted6 g)) = Some 0" and "lastSent (state g) = 5"
  shows "MessageType6Handler m g = Some (0, noted6 g)"
  using assms by (simp add: MessageType6Handler_def Let_def noted6_def [symmetric])

lemma T6_transfer:
  assumes "getd_ok g" and "c_strcmp (m6_sessionId m) (sessionId (state g)) = Some 0"
    and "type6Ver m (state (noted6 g)) = Some 0"
    and "lastSent (state g) = 4" and "sendFile g = Some f"
  shows "MessageType6Handler m g
     = (if f_eof f then Some (144, sent_end (session_string g) (noted6 g))
        else Some (4244, sent_chunk (session_string g) f (noted6 g)))"
proof -
  have c: "c_cstr (sessionId (state g)) = Some (session_string g)" "length (session_string g) \<le> 128"
    using assms(1,4) by (auto simp: getd_ok_def intro: session_cstr)
  have "MessegeType4Builder (noted6 g) = Some (4244, sent_chunk (session_string g) f (noted6 g))"
    unfolding sent_chunk_def
    by (rule MessegeType4Builder_eq) (use c assms in \<open>simp_all add: getd_ok_def\<close>)
  moreover have "MessegeType5Builder (noted6 g) = Some (144, sent_end (session_string g) (noted6 g))"
    unfolding sent_end_def
    by (rule MessegeType5Builder_eq) (use c assms in \<open>simp_all add: getd_ok_def\<close>)
  ultimately show ?thesis
    using assms by (simp add: MessageType6Handler_def Let_def noted6_def [symmetric] c_feof_def)
qed

end
