(* ===== verification/Getd_Spec.thy ===== *)
theory Getd_Spec
  imports Handler_Specs
begin

text \<open>
  What getd promises a client that sends well-formed requests: an abstract machine over
  requests and replies, with the byte layout, the receive buffer and the stale memory gone,
  and the refinement of it by the server loop.
\<close>

section \<open>Requests, replies, and the abstract machine\<close>

datatype request = Hello "byte list" | Get "byte list" "byte list" | Ack "byte list"

datatype reply =
  Welcome "byte list" | Refused "byte list" | Data "byte list" "byte list"
| Finished "byte list" | Silence

text \<open>The messages a client of \<open>requests.h\<close> builds, unused bytes zero.\<close>

definition pad :: "nat \<Rightarrow> byte list \<Rightarrow> byte list" where
  "pad n s = s @ replicate (n - length s) 0"

fun encode :: "request \<Rightarrow> byte list" where
  "encode (Hello name) =
     [0, 0, 0, 0] @ le_bytes 4 48 @ le_bytes 4 (length name) @ pad 33 name @ [0, 0, 0]"
| "encode (Get sid path) =
     [3, 0, 0, 0] @ le_bytes 4 4244 @ le_bytes 4 (length sid) @ le_bytes 4 (length path)
     @ pad 129 sid @ pad 4097 path @ [0, 0]"
| "encode (Ack sid) =
     [6, 0, 0, 0] @ le_bytes 4 144 @ le_bytes 4 (length sid) @ pad 129 sid @ [0, 0, 0]"

text \<open>
  Names are at most 32 characters and session ids at most 128. A path and its zero must end
  within the 4000 bytes that are received: 3854 characters, although \<open>pathName\<close> has room
  for 4096.
\<close>

fun valid_request :: "request \<Rightarrow> bool" where
  "valid_request (Hello name) \<longleftrightarrow> 0 \<notin> set name \<and> length name \<le> 32"
| "valid_request (Get sid path) \<longleftrightarrow>
     0 \<notin> set sid \<and> length sid \<le> 128 \<and> 0 \<notin> set path \<and> length path \<le> 3854"
| "valid_request (Ack sid) \<longleftrightarrow> 0 \<notin> set sid \<and> length sid \<le> 128"

text \<open>What a client reads in an answer.\<close>

definition decode_reply :: "byte list option \<Rightarrow> reply option" where
  "decode_reply ans =
     (case ans of
        None \<Rightarrow> Some Silence
      | Some a \<Rightarrow> do {
          h \<leftarrow> asHeader a;
          if messageType h = 1 then do {
            m \<leftarrow> as_MessageType1 a; s \<leftarrow> c_cstr (m1_sessionId m); Some (Welcome s) }
          else if messageType h = 2 then do {
            m \<leftarrow> as_MessageType2 a; Some (Refused (take (unat (msgLength m)) (errorMessage m))) }
          else if messageType h = 4 then do {
            m \<leftarrow> as_MessageType4 a; s \<leftarrow> c_cstr (m4_sessionId m);
            Some (Data s (take (unat (contentLength m)) (contentBuffer m))) }
          else if messageType h = 5 then do {
            m \<leftarrow> as_MessageType5 a; s \<leftarrow> c_cstr (m5_sessionId m); Some (Finished s) }
          else None })"

datatype phase = Idle | Opened | Sending FILE | Failed

record spec =
  sp_phase :: phase
  sp_sid :: "byte list"
  sp_draws :: nat
  sp_open :: nat

definition spec_hello :: "env \<Rightarrow> spec \<Rightarrow> reply \<times> spec" where
  "spec_hello E a =
     (case sp_phase a of
        Idle \<Rightarrow> let sid = nonzero_prefix (new_sessionId E (sp_draws a))
                in (Welcome sid, a\<lparr>sp_phase := Opened, sp_sid := sid, sp_draws := sp_draws a + 128\<rparr>)
      | Failed \<Rightarrow> let sid = nonzero_prefix (new_sessionId E (sp_draws a))
                in (Welcome sid, a\<lparr>sp_phase := Opened, sp_sid := sid, sp_draws := sp_draws a + 128\<rparr>)
      | _ \<Rightarrow> (Refused (bytes_of ''1 session at a time''), a))"

definition spec_send :: "FILE \<Rightarrow> spec \<Rightarrow> reply \<times> spec" where
  "spec_send f a = (Data (sp_sid a) (chunk_of f), a\<lparr>sp_phase := Sending (after_chunk f)\<rparr>)"

definition spec_fail :: "string \<Rightarrow> spec \<Rightarrow> reply \<times> spec" where
  "spec_fail msg a = (Refused (bytes_of msg), a\<lparr>sp_phase := Failed\<rparr>)"

fun spec_step :: "env \<Rightarrow> request \<Rightarrow> spec \<Rightarrow> reply \<times> spec" where
  "spec_step E (Hello name) a = spec_hello E a"
| "spec_step E (Get sid path) a =
     (if sid \<noteq> take 128 (sp_sid a) then spec_fail ''One session at a time'' a
      else if sp_phase a \<noteq> Opened then spec_fail ''Invalid State'' a
      else case fopen_at E (sp_open a) path of
        None \<Rightarrow> spec_fail ''Error Opening File'' a
      | Some Special \<Rightarrow> spec_fail ''Invalid File Type'' (a\<lparr>sp_open := sp_open a + 1\<rparr>)
      | Some (Regular bs) \<Rightarrow>
          spec_send \<lparr>f_data = bs, f_pos = 0, f_eof = False\<rparr> (a\<lparr>sp_open := sp_open a + 1\<rparr>))"
| "spec_step E (Ack sid) a =
     (if sid \<noteq> sp_sid a then (Refused (bytes_of ''One session at a time''), a)
      else case sp_phase a of
        Sending f \<Rightarrow>
          if f_eof f
          then (Finished (sp_sid a), a\<lparr>sp_phase := Idle, sp_open := sp_open a - 1\<rparr>)
          else spec_send f a
      | Idle \<Rightarrow> (Silence, a)
      | _ \<Rightarrow> spec_fail ''Invalid State'' a)"

definition phase_of :: "getd \<Rightarrow> phase" where
  "phase_of g =
     (if lastSent (state g) = 4 then Sending (the (sendFile g))
      else if lastSent (state g) = 1 then Opened
      else if lastSent (state g) = 5 then Idle else Failed)"

definition abs_getd :: "getd \<Rightarrow> spec" where
  "abs_getd g = \<lparr>sp_phase = phase_of g, sp_sid = session_string g, sp_draws = randCalls g,
     sp_open = openFiles g\<rparr>"

definition env_ok :: "env \<Rightarrow> bool" where
  "env_ok E \<longleftrightarrow> (\<forall>j. rand_at E j \<le> RAND_MAX)"

section \<open>Reading a well-formed request from the buffer\<close>

lemma length_pad [simp]: "length s \<le> n \<Longrightarrow> length (pad n s) = n"
  by (simp add: pad_def)

lemma pad_split: "length s < n \<Longrightarrow> pad n s @ r = s @ 0 # (replicate (n - length s - 1) 0 @ r)"
  by (cases "n - length s") (auto simp: pad_def)

lemma parse_words:
  assumes "buf = [t, x, y, z] @ le_bytes 4 a @ le_bytes 4 b @ rest"
  shows "asHeader buf = Some \<lparr>messageType = t, messageLength = word_of_nat a\<rparr>"
    and "ld32 buf 8 = Some (word_of_nat b)" and "drop 12 buf = rest"
proof -
  have s4: "slice 4 4 buf = le_bytes 4 a" and s8: "slice 8 4 buf = le_bytes 4 b"
    using assms by (simp_all add: slice_def)
  then show "asHeader buf = Some \<lparr>messageType = t, messageLength = word_of_nat a\<rparr>"
    and "ld32 buf 8 = Some (word_of_nat b)"
    using assms by (simp_all add: asHeader_def ld32_def peek_def word_of_le_nat)
  show "drop 12 buf = rest" using assms by simp
qed

lemma length_encode:
  "valid_request (Hello name) \<Longrightarrow> length (encode (Hello name)) = 48"
  "valid_request (Ack sid) \<Longrightarrow> length (encode (Ack sid)) = 144"
  "valid_request (Get sid path) \<Longrightarrow> length (encode (Get sid path)) = 4244"
  by simp_all

lemma nn_recv_short:
  "length msg \<le> 4000 \<Longrightarrow> nn_recv_into buf (Some msg) = msg @ drop (length msg) buf"
  by (simp add: nn_recv_into_def)

lemma replicate_zeros: "0 < n \<Longrightarrow> replicate n x = x # replicate (n - 1) x"
  by (cases n) auto

lemma pad_zero: "length s < n \<Longrightarrow> pad n s = s @ 0 # replicate (n - 1 - length s) 0"
  by (simp add: pad_def replicate_zeros)

lemma recv_hello:
  assumes "valid_request (Hello name)"
  shows "\<exists>m r. as_MessageType0 (nn_recv_into buf (Some (encode (Hello name)))) = Some m \<and>
     asHeader (nn_recv_into buf (Some (encode (Hello name))))
       = Some \<lparr>messageType = 0, messageLength = 48\<rparr> \<and>
     m0_header m = \<lparr>messageType = 0, messageLength = 48\<rparr> \<and>
     dnLength m = word_of_nat (length name) \<and> distinguishedName m = name @ 0 # r"
proof -
  let ?b = "nn_recv_into buf (Some (encode (Hello name)))"
  let ?r = "replicate (32 - length name) 0 @ [0, 0, 0] @ drop 48 buf"
  have "?b = encode (Hello name) @ drop 48 buf"
    using length_encode(1) [OF assms] by (simp only: nn_recv_short)
  also have "\<dots> = [0, 0, 0, 0] @ le_bytes 4 48 @ le_bytes 4 (length name) @ (name @ 0 # ?r)"
    using assms by (simp add: pad_zero)
  finally have b: "?b = \<dots>" .
  show ?thesis
    using parse_words [OF b] by (simp add: as_MessageType0_def)
qed

lemma recv_ack:
  assumes "valid_request (Ack sid)" and "length buf = 4000"
  shows "\<exists>m r. as_MessageType6 (nn_recv_into buf (Some (encode (Ack sid)))) = Some m \<and>
     asHeader (nn_recv_into buf (Some (encode (Ack sid))))
       = Some \<lparr>messageType = 6, messageLength = 144\<rparr> \<and>
     m6_header m = \<lparr>messageType = 6, messageLength = 144\<rparr> \<and>
     m6_sidLength m = word_of_nat (length sid) \<and> m6_sessionId m = sid @ 0 # r \<and>
     length (m6_sessionId m) = 3988"
proof -
  let ?b = "nn_recv_into buf (Some (encode (Ack sid)))"
  let ?r = "replicate (128 - length sid) 0 @ [0, 0, 0] @ drop 144 buf"
  have "?b = encode (Ack sid) @ drop 144 buf"
    using length_encode(2) [OF assms(1)] by (simp only: nn_recv_short)
  also have "\<dots> = [6, 0, 0, 0] @ le_bytes 4 144 @ le_bytes 4 (length sid) @ (sid @ 0 # ?r)"
    using assms by (simp add: pad_zero)
  finally have b: "?b = \<dots>" .
  have "length (sid @ 0 # ?r) = 3988" using assms by simp
  with parse_words [OF b] show ?thesis
    by (simp add: as_MessageType6_def)
qed

lemma recv_get:
  assumes "valid_request (Get sid path)"
  shows "\<exists>m r q. as_MessageType3 (nn_recv_into buf (Some (encode (Get sid path)))) = Some m \<and>
     asHeader (nn_recv_into buf (Some (encode (Get sid path))))
       = Some \<lparr>messageType = 3, messageLength = 4244\<rparr> \<and>
     m3_header m = \<lparr>messageType = 3, messageLength = 4244\<rparr> \<and>
     m3_sidLength m = word_of_nat (length sid) \<and> pathLength m = word_of_nat (length path) \<and>
     m3_sessionId m = sid @ 0 # r \<and> 128 \<le> length (m3_sessionId m) \<and>
     pathName m = path @ 0 # q"
proof -
  let ?b = "nn_recv_into buf (Some (encode (Get sid path)))"
  let ?h = "[3, 0, 0, 0] @ le_bytes 4 4244 @ le_bytes 4 (length sid)"
  let ?q = "replicate (3854 - length path) 0 @ drop 4000 buf"
  let ?r = "replicate (128 - length sid) 0 @ path @ 0 # ?q"
  have lens: "length sid \<le> 128" "length path \<le> 3854" using assms by auto
  have "take 3855 (pad 4097 path @ [0, 0]) = path @ replicate (3855 - length path) 0"
    using lens by (simp add: pad_def min_def)
  then have tp: "take 3855 (pad 4097 path @ [0, 0]) = path @ 0 # replicate (3854 - length path) 0"
    using lens by (simp add: replicate_zeros)
  have hs: "length (?h @ le_bytes 4 (length path) @ pad 129 sid) = 145" using lens by simp
  have "encode (Get sid path)
      = (?h @ le_bytes 4 (length path) @ pad 129 sid) @ pad 4097 path @ [0, 0]" by simp
  then have "take 4000 (encode (Get sid path)) = (?h @ le_bytes 4 (length path) @ pad 129 sid)
      @ take 3855 (pad 4097 path @ [0, 0])"
    using hs by (simp only: take_append) simp
  also have "\<dots> @ drop 4000 buf = ?h @ le_bytes 4 (length path) @ sid @ 0 # ?r"
    using lens by (simp only: tp) (simp add: pad_zero)
  finally have "take 4000 (encode (Get sid path)) @ drop 4000 buf
      = ?h @ le_bytes 4 (length path) @ sid @ 0 # ?r" .
  moreover have "?b = take 4000 (encode (Get sid path)) @ drop 4000 buf"
    using length_encode(3) [OF assms] by (simp add: nn_recv_into_def del: encode.simps)
  ultimately have b: "?b = ?h @ le_bytes 4 (length path) @ sid @ 0 # ?r" by simp
  then have b': "?b = [3, 0, 0, 0] @ le_bytes 4 4244 @ le_bytes 4 (length sid)
      @ (le_bytes 4 (length path) @ sid @ 0 # ?r)" by (simp only: append_assoc)
  have "slice 12 4 ?b = le_bytes 4 (length path)"
    by (simp only: b slice_def) simp
  moreover have "16 \<le> length ?b" by (simp only: b) simp
  ultimately have p: "ld32 ?b 12 = Some (word_of_nat (length path))"
    by (simp add: ld32_def word_of_le_nat)
  have d16: "drop 16 ?b = sid @ 0 # ?r" by (simp only: b) simp
  moreover have "drop 145 ?b = path @ 0 # ?q"
  proof -
    have "drop 145 ?b = drop 129 (drop 16 ?b)" by (simp del: encode.simps)
    also have "drop 16 ?b = (sid @ replicate (129 - length sid) 0) @ path @ 0 # ?q"
      using lens by (simp only: d16) (simp add: replicate_zeros)
    also have "drop 129 \<dots> = path @ 0 # ?q" using lens by simp
    finally show ?thesis .
  qed
  moreover have "128 \<le> length (sid @ 0 # ?r)" using lens by simp
  ultimately show ?thesis
    using parse_words(1,2) [OF b'] p by (simp add: as_MessageType3_def)
qed

section \<open>Reading an answer\<close>

lemma asHeader_take:
  "8 \<le> n \<Longrightarrow> n \<le> length m \<Longrightarrow> asHeader (take n m) = asHeader m"
  by (cases m) (simp_all add: asHeader_def peek_def ld32_def slice_def drop_take min_def)

lemma ld32_take: "i + 4 \<le> n \<Longrightarrow> n \<le> length m \<Longrightarrow> ld32 (take n m) i = ld32 m i"
  by (simp add: ld32_def slice_def drop_take min_def)

lemma drop_take_string:
  assumes "drop i m = s @ 0 # r" and "i + length s < n"
  shows "drop i (take n m) = s @ 0 # take (n - i - length s - 1) r"
  using assms by (simp add: drop_take take_Cons' )

lemma decode_type2:
  assumes "272 \<le> length m" and "length s \<le> 255"
  shows "decode_reply (Some (take 272 (type2_image m s))) = Some (Refused s)"
proof -
  let ?i = "type2_image m s"
  have len: "length ?i = length m" using assms by simp
  have u: "unat (word_of_nat (length s) :: u32) = length s"
    using assms(2) by (simp add: unat_of_nat)
  have h: "asHeader ?i = Some \<lparr>messageType = 2, messageLength = 272\<rparr>"
    unfolding asHeader_def type2_image_def using assms by (simp add: mem_simps)
  have l: "ld32 ?i 8 = Some (word_of_nat (length s))"
    unfolding type2_image_def using assms by (simp add: mem_simps)
  have "slice 12 (length s) ?i = s"
    unfolding type2_image_def using assms by (simp add: mem_simps)
  then have t: "take (length s) (drop 12 (take 272 ?i)) = s"
    using assms(2) by (simp add: slice_def drop_take min_def)
  show ?thesis
    using h l t assms len
    by (simp add: decode_reply_def as_MessageType2_def asHeader_take ld32_take u)
qed

lemma sid_image_parts:
  assumes "144 \<le> length m" and "length s \<le> 128" and "0 \<notin> set s"
  shows "asHeader (sid_image ty m s) = Some \<lparr>messageType = ty, messageLength = 144\<rparr>"
    and "ld32 (sid_image ty m s) 8 = Some (word_of_nat (length s))"
    and "\<exists>r. drop 12 (take 144 (sid_image ty m s)) = s @ 0 # r"
proof -
  show "asHeader (sid_image ty m s) = Some \<lparr>messageType = ty, messageLength = 144\<rparr>"
    unfolding asHeader_def sid_image_def using assms by (simp add: mem_simps)
  show "ld32 (sid_image ty m s) 8 = Some (word_of_nat (length s))"
    unfolding sid_image_def using assms by (simp add: mem_simps)
  have "drop 12 (sid_image ty m s) = s @ 0 # drop (12 + (length s + 1)) m"
    unfolding sid_image_def using assms by (simp add: mem_simps)
  from drop_take_string [OF this, of 144] assms(2)
  show "\<exists>r. drop 12 (take 144 (sid_image ty m s)) = s @ 0 # r" by auto
qed

lemma decode_sid_image:
  assumes "144 \<le> length m" and "length s \<le> 128" and "0 \<notin> set s"
  shows "decode_reply (Some (take 144 (sid_image 1 m s))) = Some (Welcome s)"
    and "decode_reply (Some (take 144 (sid_image 5 m s))) = Some (Finished s)"
proof -
  note parts = sid_image_parts [OF assms]
  have len: "length (sid_image ty m s) = length m" for ty using assms by simp
  obtain r r' where r: "drop 12 (take 144 (sid_image 1 m s)) = s @ 0 # r"
    and r': "drop 12 (take 144 (sid_image 5 m s)) = s @ 0 # r'"
    using parts(3) by blast
  show "decode_reply (Some (take 144 (sid_image 1 m s))) = Some (Welcome s)"
    using parts(1,2) r assms len
    by (simp add: decode_reply_def as_MessageType1_def asHeader_take ld32_take)
  show "decode_reply (Some (take 144 (sid_image 5 m s))) = Some (Finished s)"
    using parts(1,2) r' assms len
    by (simp add: decode_reply_def as_MessageType5_def asHeader_take ld32_take)
qed

lemma decode_type4:
  assumes "4244 \<le> length m" and "length s \<le> 128" and "0 \<notin> set s" and "length bs \<le> 4096"
  shows "decode_reply (Some (take 4244 (type4_image m s bs))) = Some (Data s bs)"
proof -
  let ?i = "type4_image m s bs"
  have len: "length ?i = length m" using assms by simp
  have u: "unat (word_of_nat (length bs) :: u32) = length bs"
    using assms(4) by (simp add: unat_of_nat)
  have h: "asHeader ?i = Some \<lparr>messageType = 4, messageLength = 4244\<rparr>"
    unfolding asHeader_def type4_image_def using assms by (simp add: mem_simps)
  have l8: "ld32 ?i 8 = Some (word_of_nat (length s))"
    unfolding type4_image_def using assms by (simp add: mem_simps)
  have l12: "ld32 ?i 12 = Some (word_of_nat (length bs))"
    unfolding type4_image_def using assms by (simp add: mem_simps)
  have "slice 145 (length bs) ?i = bs"
    unfolding type4_image_def using assms by (simp add: mem_simps)
  then have t: "take (length bs) (drop 145 (take 4244 ?i)) = bs"
    using assms(4) by (simp add: slice_def drop_take min_def)
  have "\<exists>r. drop 16 ?i = s @ 0 # r"
    unfolding type4_image_def using assms by (simp add: mem_simps)
  then obtain r where "drop 16 ?i = s @ 0 # r" by blast
  from drop_take_string [OF this, of 4244] assms(2)
  obtain r' where r': "drop 16 (take 4244 ?i) = s @ 0 # r'" by auto
  show ?thesis
    using h l8 l12 t r' assms len
    by (simp add: decode_reply_def as_MessageType4_def asHeader_take ld32_take u)
qed

section \<open>Refinement\<close>

lemma session_string_zero_free: "0 \<notin> set (session_string g)"
  by (auto simp: session_string_def dest: set_takeWhileD)

lemma abs_refuse [simp]: "abs_getd (refuse t g) = abs_getd g"
  by (simp add: abs_getd_def phase_of_def session_string_def)

lemma abs_failed [simp]: "abs_getd (set_lastSent 2 g) = (abs_getd g)\<lparr>sp_phase := Failed\<rparr>"
  by (simp add: abs_getd_def phase_of_def session_string_def)

lemma abs_noted6 [simp]: "abs_getd (noted6 g) = abs_getd g"
  by (simp add: abs_getd_def phase_of_def)

lemma abs_sid [simp]: "sp_sid (abs_getd g) = session_string g"
  by (simp add: abs_getd_def)

lemma abs_phase [simp]: "sp_phase (abs_getd g) = phase_of g"
  by (simp add: abs_getd_def)

lemma abs_draws [simp]: "sp_draws (abs_getd g) = randCalls g"
  by (simp add: abs_getd_def)

lemma abs_open [simp]: "sp_open (abs_getd g) = openFiles g"
  by (simp add: abs_getd_def)

lemma abs_files [simp]:
  "abs_getd (g\<lparr>sendFile := f, state := st\<lparr>lastSent := 2\<rparr>\<rparr>)
     = abs_getd (g\<lparr>state := st\<lparr>lastSent := 2\<rparr>\<rparr>)"
  by (simp add: abs_getd_def phase_of_def session_string_def)

text \<open>\<open>strcmp\<close> and \<open>strncmp\<close> against the session id decide equality of strings.\<close>

lemma strcmp_session:
  assumes "length q = 129" and "0 \<notin> set s" and "length s \<le> 128"
  shows "\<exists>d. c_strcmp (s @ 0 # r) q = Some d \<and> (d = 0 \<longleftrightarrow> s = nonzero_prefix q)"
proof -
  have "0 \<in> set (take (length q) (s @ 0 # r))" using assms by (simp add: take_Cons')
  then obtain d where d: "c_strcmp (s @ 0 # r) q = Some d"
    using c_strcmp_defined [of "s @ 0 # r" q] by auto
  have "d = 0 \<longleftrightarrow> s = nonzero_prefix q"
  proof
    assume "d = 0"
    with d obtain u where "c_cstr (s @ 0 # r) = Some u" "c_cstr q = Some u"
      using c_strcmp_zero by blast
    with assms(2) show "s = nonzero_prefix q" by (auto simp: c_cstr_def split: if_splits)
  next
    assume s: "s = nonzero_prefix q"
    have "0 \<in> set q"
    proof (rule ccontr)
      assume "0 \<notin> set q"
      then have "nonzero_prefix q = q" by simp
      with s assms(1,3) show False by simp
    qed
    with s have "c_cstr q = Some s" by (simp add: c_cstr_def)
    then obtain t where "q = s @ 0 # t" using c_cstr_SomeD by blast
    with d assms(2) show "d = 0" using c_strcmp_same [of s r t] by simp
  qed
  with d show ?thesis by blast
qed

lemma nonzero_prefix_take: "nonzero_prefix (take n p) = take n (nonzero_prefix p)"
  by (induction p arbitrary: n) (auto simp: take_Cons' )

lemma c_strncmp_eqI:
  "n \<le> length p \<Longrightarrow> n \<le> length q \<Longrightarrow>
     nonzero_prefix (take n p) = nonzero_prefix (take n q) \<Longrightarrow> c_strncmp p q n = Some 0"
  by (induction p q n rule: c_strncmp.induct) (auto split: if_splits)

lemma strncmp_session:
  assumes "length q = 129" and "0 \<notin> set s" and "length s \<le> 128"
    and "128 \<le> length (s @ 0 # r)"
  shows "\<exists>d. c_strncmp (s @ 0 # r) q 128 = Some d \<and> (d = 0 \<longleftrightarrow> s = take 128 (nonzero_prefix q))"
proof -
  obtain d where d: "c_strncmp (s @ 0 # r) q 128 = Some d"
    using c_strncmp_defined [of 128 "s @ 0 # r" q] assms(1,4) by auto
  have s: "nonzero_prefix (take 128 (s @ 0 # r)) = s"
    using assms(2,3) by (simp only: nonzero_prefix_take nonzero_prefix_append0) simp
  have "d = 0 \<longleftrightarrow> s = take 128 (nonzero_prefix q)"
    using d s c_strncmp_zero [of "s @ 0 # r" q 128] c_strncmp_eqI [of 128 "s @ 0 # r" q] assms(1,4)
    by (auto simp: nonzero_prefix_take)
  with d show ?thesis by blast
qed

text \<open>Well-formed requests pass the checks.\<close>

lemma u32_small: "n < 4294967296 \<Longrightarrow> unat (word_of_nat n :: u32) = n"
  by (simp add: unat_of_nat)

lemma hello_verified:
  assumes "valid_request (Hello name)" and "m0_header m = \<lparr>messageType = 0, messageLength = 48\<rparr>"
    and "dnLength m = word_of_nat (length name)" and "distinguishedName m = name @ 0 # r"
  shows "type0Ver m = Some 0"
proof -
  have n: "0 \<notin> set name" "length name \<le> 32" using assms(1) by auto
  have "c_strnlen (name @ 0 # r) 32 = Some (length name)"
  proof (cases "length name = 32")
    case True
    with n show ?thesis by (simp add: c_strnlen_full)
  next
    case False
    with n show ?thesis by (simp add: c_strnlen_string)
  qed
  with assms n show ?thesis by (simp add: type0Ver_zero u32_small)
qed

lemma get_verified:
  assumes "valid_request (Get sid path)" and "m3_header m = \<lparr>messageType = 3, messageLength = 4244\<rparr>"
    and "m3_sidLength m = word_of_nat (length sid)" and "pathLength m = word_of_nat (length path)"
    and "m3_sessionId m = sid @ 0 # r" and "128 \<le> length (m3_sessionId m)"
    and "pathName m = path @ 0 # q"
  shows "type3Ver m = Some 0"
proof -
  have n: "0 \<notin> set sid" "length sid \<le> 128" "0 \<notin> set path" "length path \<le> 3854"
    using assms(1) by auto
  have "c_strnlen (m3_sessionId m) 128 = Some (length sid)"
  proof (cases "length sid = 128")
    case True
    with n assms(5) show ?thesis by (simp add: c_strnlen_full)
  next
    case False
    with n assms(5) show ?thesis by (simp add: c_strnlen_string)
  qed
  moreover have "c_strnlen (pathName m) 4096 = Some (length path)"
    using n assms(7) by (simp add: c_strnlen_string)
  ultimately show ?thesis using assms n by (simp add: type3Ver_zero u32_small)
qed

lemma ack_verified:
  assumes "valid_request (Ack sid)" and "m6_header m = \<lparr>messageType = 6, messageLength = 144\<rparr>"
    and "m6_sidLength m = word_of_nat (length sid)" and "m6_sessionId m = sid @ 0 # r"
    and "130 \<le> length (m6_sessionId m)"
    and "length (sessionId st) = 129" and "c_cstr (sessionId st) = Some sid"
  shows "type6Ver m st = Some 0"
proof -
  have n: "0 \<notin> set sid" "length sid \<le> 128" using assms(1) by auto
  obtain t where t: "sessionId st = sid @ 0 # t" using assms(7) c_cstr_SomeD by blast
  have sn: "sid_strnlen (m6_sessionId m) k = length sid" if "128 \<le> k" for k
    using n assms(4) that by (simp only: nonzero_prefix_take nonzero_prefix_append0) simp
  have "c_strncmp (sessionId st) (m6_sessionId m) (length sid) = Some 0"
    unfolding t assms(4) by (rule c_strncmp_refl) simp_all
  then show ?thesis
    using assms(2,3) n sn by (simp add: type6Ver_zero [OF assms(5)] u32_small)
qed

text \<open>
  One request against one turn: the turn ends without undefined behaviour, keeps the
  invariant, and its answer and new state are those of the abstract machine.
\<close>

definition refines :: "env \<Rightarrow> request \<Rightarrow> server \<Rightarrow> bool" where
  "refines E q s \<longleftrightarrow>
     (\<exists>ans s'. main_turn E (Some (encode q)) s = Some (ans, s') \<and> server_ok s' \<and>
        running s' = running s \<and>
        decode_reply ans = Some (fst (spec_step E q (abs_getd (getd s)))) \<and>
        abs_getd (getd s') = snd (spec_step E q (abs_getd (getd s))))"

lemma length_recv: "length buf = 4000 \<Longrightarrow> length (nn_recv_into buf r) = 4000"
  by (auto simp: nn_recv_into_def split: option.splits)

text \<open>From what the handler returns to the turn.\<close>

lemma refinesI:
  assumes ok: "server_ok s" and g': "getd_ok g'"
    and h: "asHeader (nn_recv_into (buffer s) (Some (encode q))) = Some \<lparr>messageType = t, messageLength = l\<rparr>"
    and run: "dispatch E t (nn_recv_into (buffer s) (Some (encode q))) (getd s) = Some (n, g')"
    and n: "n \<le> 10000"
    and reply: "decode_reply (if t = 6 \<and> n = 0 then None else Some (take n (outMessage g')))
        = Some (fst (spec_step E q (abs_getd (getd s))))"
    and abs: "abs_getd g' = snd (spec_step E q (abs_getd (getd s)))"
  shows "refines E q s"
proof -
  let ?b = "nn_recv_into (buffer s) (Some (encode q))"
  have lo: "length (outMessage g') = 10000" using g' by (simp add: getd_ok_def)
  have "main_turn E (Some (encode q)) s
      = Some (if t = 6 \<and> n = 0 then None else Some (take n (outMessage g')), s\<lparr>buffer := ?b, getd := g'\<rparr>)"
    using h run n lo by (simp add: main_turn_def Let_def nn_send_from_def)
  moreover have "server_ok (s\<lparr>buffer := ?b, getd := g'\<rparr>)"
    using ok g' by (simp add: server_ok_def length_recv)
  ultimately show ?thesis
    using reply abs unfolding refines_def
    by (intro exI [of _ "if t = 6 \<and> n = 0 then None else Some (take n (outMessage g'))"]
        exI [of _ "s\<lparr>buffer := ?b, getd := g'\<rparr>"]) simp
qed

lemma refines_hello:
  assumes ok: "server_ok s" and E: "env_ok E" and q: "valid_request (Hello name)"
  shows "refines E (Hello name) s"
proof -
  let ?g = "getd s"
  have g: "getd_ok ?g" using ok by (simp add: server_ok_def)
  have m: "length (outMessage ?g) = 10000" using g by (simp add: getd_ok_def)
  obtain msg r where c: "as_MessageType0 (nn_recv_into (buffer s) (Some (encode (Hello name)))) = Some msg"
    and h: "asHeader (nn_recv_into (buffer s) (Some (encode (Hello name))))
       = Some \<lparr>messageType = 0, messageLength = 48\<rparr>"
    and v: "m0_header msg = \<lparr>messageType = 0, messageLength = 48\<rparr>"
      "dnLength msg = word_of_nat (length name)" "distinguishedName msg = name @ 0 # r"
    using recv_hello [OF q] by blast
  have ver: "type0Ver msg = Some 0" by (rule hello_verified [OF q v])
  show ?thesis
  proof (cases "lastSent (state ?g) = 5 \<or> lastSent (state ?g) = 2")
    case True
    have name: "c_cstr (distinguishedName msg) = Some name" "length name \<le> 32"
      using q v(3) by auto
    have run: "MessageType0Handler E msg ?g = Some (144, open_session E name ?g)"
      by (rule T0_open) (use g ver True name E in \<open>auto simp: env_ok_def\<close>)
    let ?sid = "nonzero_prefix (new_sessionId E (randCalls ?g))"
    have sid: "length ?sid \<le> 128" "0 \<notin> set ?sid"
      using cstr_drawn [of E "randCalls ?g"] by (auto simp: c_cstr_def dest: set_takeWhileD split: if_splits)
    show ?thesis
    proof (rule refinesI [OF ok _ h])
      show "dispatch E 0 (nn_recv_into (buffer s) (Some (encode (Hello name)))) ?g
          = Some (144, open_session E name ?g)"
        by (simp add: dispatch_def c run del: encode.simps)
      show "getd_ok (open_session E name ?g)"
        using g sid(1) name(2)
        by (auto simp: getd_ok_def open_session_def new_sessionId_def length_overwrite nth_append)
      show "decode_reply (if (0::byte) = 6 \<and> (144::nat) = 0 then None
          else Some (take 144 (outMessage (open_session E name ?g))))
          = Some (fst (spec_step E (Hello name) (abs_getd ?g)))"
        using True m sid
        by (auto simp: open_session_def decode_sid_image spec_hello_def phase_of_def Let_def)
      show "abs_getd (open_session E name ?g) = snd (spec_step E (Hello name) (abs_getd ?g))"
        using True by (auto simp: open_session_def spec_hello_def phase_of_def abs_getd_def
            session_string_def Let_def)
    qed simp
  next
    case False
    have run: "MessageType0Handler E msg ?g = Some (272, refuse ''1 session at a time'' ?g)"
      by (rule T0_busy [OF g ver]) (use False in auto)
    have ph: "phase_of ?g = Opened \<or> (\<exists>f. phase_of ?g = Sending f)"
      using False g by (auto simp: phase_of_def getd_ok_def)
    show ?thesis
    proof (rule refinesI [OF ok _ h])
      show "dispatch E 0 (nn_recv_into (buffer s) (Some (encode (Hello name)))) ?g
          = Some (272, refuse ''1 session at a time'' ?g)"
        by (simp add: dispatch_def c run del: encode.simps)
      show "getd_ok (refuse ''1 session at a time'' ?g)"
        using g by (simp add: getd_ok_def bytes_of_def)
    qed (use ph m in \<open>auto simp: spec_hello_def decode_type2 bytes_of_def\<close>)
  qed
qed

text \<open>The refusals and the data replies, once for all requests.\<close>

lemma getd_ok_failed: "getd_ok g \<Longrightarrow> getd_ok (set_lastSent 2 g)"
  by (simp add: getd_ok_def)

lemma getd_ok_refuse: "getd_ok g \<Longrightarrow> length t \<le> 255 \<Longrightarrow> getd_ok (refuse t g)"
  by (simp add: getd_ok_def bytes_of_def)

lemma refines_refusal:
  assumes "server_ok s" and "getd_ok g" and "length t \<le> 255"
    and "asHeader (nn_recv_into (buffer s) (Some (encode q))) = Some \<lparr>messageType = ty, messageLength = l\<rparr>"
    and "dispatch E ty (nn_recv_into (buffer s) (Some (encode q))) (getd s) = Some (272, refuse t g)"
    and "spec_step E q (abs_getd (getd s)) = (Refused (bytes_of t), abs_getd g)"
  shows "refines E q s"
proof (rule refinesI [OF assms(1) _ assms(4,5)])
  show "getd_ok (refuse t g)" using assms(2,3) by (rule getd_ok_refuse)
  have "length (outMessage g) = 10000" using assms(2) by (simp add: getd_ok_def)
  then show "decode_reply (if ty = 6 \<and> (272::nat) = 0 then None else Some (take 272 (outMessage (refuse t g))))
      = Some (fst (spec_step E q (abs_getd (getd s))))"
    using assms(3,6) by (simp add: decode_type2 bytes_of_def)
  show "abs_getd (refuse t g) = snd (spec_step E q (abs_getd (getd s)))"
    using assms(6) by simp
qed simp

lemma getd_ok_sent_chunk:
  "getd_ok g \<Longrightarrow> sendFile g \<noteq> None \<Longrightarrow> sessionId (state g) ! 128 = 0 \<Longrightarrow>
     getd_ok (sent_chunk (session_string g) f g)"
  using session_cstr(2) [of g]
  by (auto simp: getd_ok_def sent_chunk_def length_chunk_of)

lemma refines_data:
  assumes "server_ok s" and "getd_ok g" and "sendFile g \<noteq> None" and "sessionId (state g) ! 128 = 0"
    and "asHeader (nn_recv_into (buffer s) (Some (encode q))) = Some \<lparr>messageType = ty, messageLength = l\<rparr>"
    and "dispatch E ty (nn_recv_into (buffer s) (Some (encode q))) (getd s)
       = Some (4244, sent_chunk (session_string g) f g)"
    and "spec_step E q (abs_getd (getd s)) = spec_send f (abs_getd g)"
  shows "refines E q s"
proof (rule refinesI [OF assms(1) _ assms(5,6)])
  show "getd_ok (sent_chunk (session_string g) f g)"
    using assms(2-4) by (rule getd_ok_sent_chunk)
  have "length (outMessage g) = 10000" "length (session_string g) \<le> 128"
    using assms(2,4) by (auto simp: getd_ok_def intro: session_cstr(2))
  then show "decode_reply (if ty = 6 \<and> (4244::nat) = 0 then None
        else Some (take 4244 (outMessage (sent_chunk (session_string g) f g))))
      = Some (fst (spec_step E q (abs_getd (getd s))))"
    using assms(7)
    by (simp add: sent_chunk_def spec_send_def decode_type4 session_string_zero_free length_chunk_of)
  show "abs_getd (sent_chunk (session_string g) f g) = snd (spec_step E q (abs_getd (getd s)))"
    using assms(7)
    by (simp add: sent_chunk_def spec_send_def abs_getd_def phase_of_def session_string_def)
qed simp

lemma refines_get:
  assumes ok: "server_ok s" and q: "valid_request (Get sid path)"
  shows "refines E (Get sid path) s"
proof -
  let ?g = "getd s" and ?b = "nn_recv_into (buffer s) (Some (encode (Get sid path)))"
  have g: "getd_ok ?g" using ok by (simp add: server_ok_def)
  then have lens: "length (outMessage ?g) = 10000" "length (sessionId (state ?g)) = 129"
    by (auto simp: getd_ok_def)
  obtain msg r t where c: "as_MessageType3 ?b = Some msg"
    and h: "asHeader ?b = Some \<lparr>messageType = 3, messageLength = 4244\<rparr>"
    and v: "m3_header msg = \<lparr>messageType = 3, messageLength = 4244\<rparr>"
      "m3_sidLength msg = word_of_nat (length sid)" "pathLength msg = word_of_nat (length path)"
      "m3_sessionId msg = sid @ 0 # r" "128 \<le> length (m3_sessionId msg)"
      "pathName msg = path @ 0 # t"
    using recv_get [OF q] by blast
  have ver: "type3Ver msg = Some 0" by (rule get_verified [OF q v])
  have n: "0 \<notin> set sid" "length sid \<le> 128" "0 \<notin> set path" using q by auto
  have path: "c_cstr (pathName msg) = Some path" using n v(6) by simp
  have disp: "dispatch E 3 ?b ?g = MessageType3Handler E msg ?g"
    by (simp add: dispatch_def c del: encode.simps)
  obtain d where d: "c_strncmp (m3_sessionId msg) (sessionId (state ?g)) 128 = Some d"
    and d0: "d = 0 \<longleftrightarrow> sid = take 128 (session_string ?g)"
    using strncmp_session [OF lens(2) n(1,2) v(5) [unfolded v(4)]]
    unfolding v(4) session_string_def by blast
  show ?thesis
  proof (cases "d = 0")
    case False
    show ?thesis
      by (rule refines_refusal [OF ok getd_ok_failed [OF g] _ h])
         (use T3_other_session [OF g ver d False] disp False d0 in \<open>simp_all add: spec_fail_def\<close>)
  next
    case True
    note same = d [unfolded True]
    have sid: "sid = take 128 (session_string ?g)" using True d0 by simp
    show ?thesis
    proof (cases "lastSent (state ?g) = 1")
      case False
      then have "phase_of ?g \<noteq> Opened" by (simp add: phase_of_def)
      then show ?thesis
        by (intro refines_refusal [OF ok getd_ok_failed [OF g] _ h])
           (use T3_invalid_state [OF g ver same False] disp sid in \<open>simp_all add: spec_fail_def\<close>)
    next
      case open_: True
      then have ph: "phase_of ?g = Opened" by (simp add: phase_of_def)
      have z: "sessionId (state ?g) ! 128 = 0" using g open_ by (simp add: getd_ok_def)
      show ?thesis
      proof (cases "fopen_at E (openFiles (getd s)) path")
        case None
        have "getd_ok (set_lastSent 2 (?g\<lparr>sendFile := None\<rparr>))"
          using g by (simp add: getd_ok_def)
        then show ?thesis
          by (rule refines_refusal [OF ok _ _ h])
             (use T3_no_file [OF g ver same open_ path None] disp sid open_ None
              in \<open>simp_all add: spec_fail_def abs_getd_def session_string_def phase_of_def del: encode.simps\<close>)
      next
        case (Some nd)
        show ?thesis
        proof (cases nd)
          case Special
          have "getd_ok (set_lastSent 2 (opened [] ?g))"
            using g by (simp add: getd_ok_def)
          then show ?thesis
            by (rule refines_refusal [OF ok _ _ h])
               (use T3_special_file [OF g ver same open_ path] disp sid open_ Some Special
                in \<open>simp_all add: spec_fail_def abs_getd_def session_string_def phase_of_def del: encode.simps\<close>)
        next
          case (Regular bs)
          have "getd_ok (opened bs ?g)" using g by (simp add: getd_ok_def)
          moreover have "session_string (opened bs ?g) = session_string ?g"
            by (simp add: session_string_def)
          ultimately show ?thesis
            by (intro refines_data [OF ok, where g = "opened bs ?g", OF _ _ _ h])
               (use T3_open [OF g ver same open_ path] disp sid ph Some Regular z
                in \<open>simp_all add: spec_send_def abs_getd_def phase_of_def\<close>)
        qed
      qed
    qed
  qed
qed

lemma refines_ack:
  assumes ok: "server_ok s" and q: "valid_request (Ack sid)"
  shows "refines E (Ack sid) s"
proof -
  let ?g = "getd s" and ?b = "nn_recv_into (buffer s) (Some (encode (Ack sid)))"
  have g: "getd_ok ?g" and buf: "length (buffer s) = 4000" using ok by (auto simp: server_ok_def)
  then have lens: "length (outMessage ?g) = 10000" "length (sessionId (state ?g)) = 129"
    by (auto simp: getd_ok_def)
  obtain msg r where c: "as_MessageType6 ?b = Some msg"
    and h: "asHeader ?b = Some \<lparr>messageType = 6, messageLength = 144\<rparr>"
    and v: "m6_header msg = \<lparr>messageType = 6, messageLength = 144\<rparr>"
      "m6_sidLength msg = word_of_nat (length sid)" "m6_sessionId msg = sid @ 0 # r"
      "length (m6_sessionId msg) = 3988"
    using recv_ack [OF q buf] by blast
  have n: "0 \<notin> set sid" "length sid \<le> 128" using q by auto
  have disp: "dispatch E 6 ?b ?g = MessageType6Handler msg ?g"
    by (simp add: dispatch_def c del: encode.simps)
  obtain d where d: "c_strcmp (m6_sessionId msg) (sessionId (state ?g)) = Some d"
    and d0: "d = 0 \<longleftrightarrow> sid = session_string ?g"
    using strcmp_session [OF lens(2) n] unfolding v(3) session_string_def by blast
  show ?thesis
  proof (cases "d = 0")
    case False
    show ?thesis
      by (rule refines_refusal [OF ok g _ h])
         (use T6_other_session [OF g d False] disp False d0 in simp_all)
  next
    case True
    note same = d [unfolded True]
    have sid: "sid = session_string ?g" using True d0 by simp
    obtain u where "c_cstr (sessionId (state ?g)) = Some u" using c_strcmp_zero [OF same] by blast
    then have cs: "c_cstr (sessionId (state ?g)) = Some sid"
      by (auto simp: c_cstr_def sid session_string_def split: if_splits)
    have ver: "type6Ver msg (state (noted6 ?g)) = Some 0"
      by (rule ack_verified [OF q v(1-3)]) (use v(4) lens cs in simp_all)
    show ?thesis
    proof (cases "lastSent (state ?g) = 4")
      case False
      show ?thesis
      proof (cases "lastSent (state ?g) = 5")
        case idle: True
        show ?thesis
          by (rule refinesI [where g' = "noted6 ?g" and n = 0, OF ok _ h])
             (use g disp T6_done [OF same ver idle] idle sid
              in \<open>simp_all add: decode_reply_def phase_of_def del: encode.simps\<close>)
      next
        case notidle: False
        have ph: "phase_of ?g = Opened \<or> phase_of ?g = Failed"
          using False notidle by (simp add: phase_of_def)
        have "getd_ok (noted6 ?g)" using g by simp
        then show ?thesis
          by (intro refines_refusal [OF ok getd_ok_failed _ h])
             (use T6_invalid_state [OF g same ver False notidle] disp sid ph
              in \<open>auto simp: spec_fail_def\<close>)
      qed
    next
      case sending: True
      then obtain f where f: "sendFile ?g = Some f" using g by (auto simp: getd_ok_def)
      have z: "sessionId (state ?g) ! 128 = 0" using g sending by (simp add: getd_ok_def)
      have ph: "phase_of ?g = Sending f" using sending f by (simp add: phase_of_def)
      note run = T6_transfer [OF g same ver sending f]
      show ?thesis
      proof (cases "f_eof f")
        case True
        show ?thesis
        proof (rule refinesI [OF ok _ h])
          show "dispatch E 6 ?b ?g = Some (144, sent_end (session_string ?g) (noted6 ?g))"
            using disp run True by simp
          show "getd_ok (sent_end (session_string ?g) (noted6 ?g))"
            using g n by (auto simp: getd_ok_def sent_end_def sid [symmetric])
        qed (use sid ph True n lens in \<open>auto simp: sent_end_def decode_sid_image abs_getd_def
             phase_of_def session_string_def\<close>)
      next
        case False
        have "getd_ok (noted6 ?g)" using g by simp
        then show ?thesis
          by (intro refines_data [OF ok, where g = "noted6 ?g", OF _ _ _ h])
             (use run disp sid ph False z f in simp_all)
      qed
    qed
  qed
qed

text \<open>Every well-formed request, on every good state.\<close>

lemma refines_request:
  assumes "server_ok s" and "env_ok E" and "valid_request q"
  shows "refines E q s"
  using assms by (cases q) (auto intro: refines_hello refines_get refines_ack simp del: encode.simps)

section \<open>Conversations\<close>

fun spec_run :: "env \<Rightarrow> request list \<Rightarrow> spec \<Rightarrow> reply list \<times> spec" where
  "spec_run E [] a = ([], a)"
| "spec_run E (q # qs) a =
     (let (r, a1) = spec_step E q a; (rs, a2) = spec_run E qs a1 in (r # rs, a2))"

lemma decode_not_Silence: "decode_reply (Some x) = Some r \<Longrightarrow> r \<noteq> Silence"
  by (auto simp: decode_reply_def Option.bind_eq_Some_conv split: if_splits)

lemma decode_Silence: "decode_reply ans = Some r \<Longrightarrow> ans = None \<longleftrightarrow> r = Silence"
  by (cases ans) (auto simp: decode_not_Silence decode_reply_def [of None])

lemma serve_refines:
  assumes "\<forall>q \<in> set qs. valid_request q" and "server_ok s" and "env_ok E"
  shows "\<exists>out s'. serve E (map (\<lambda>q. Some (encode q)) qs) s = Some (out, s') \<and> server_ok s' \<and>
     map (\<lambda>a. decode_reply (Some a)) out
       = map Some (filter (\<lambda>r. r \<noteq> Silence) (fst (spec_run E qs (abs_getd (getd s))))) \<and>
     abs_getd (getd s') = snd (spec_run E qs (abs_getd (getd s)))"
  using assms(1,2)
proof (induction qs arbitrary: s)
  case Nil
  then show ?case by simp
next
  case (Cons q qs)
  then have "refines E q s" using assms(3) by (simp add: refines_request)
  then obtain ans s1 where t: "main_turn E (Some (encode q)) s = Some (ans, s1)" and ok1: "server_ok s1"
    and r: "decode_reply ans = Some (fst (spec_step E q (abs_getd (getd s))))"
    and a1: "abs_getd (getd s1) = snd (spec_step E q (abs_getd (getd s)))"
    unfolding refines_def by blast
  obtain r1 a where st: "spec_step E q (abs_getd (getd s)) = (r1, a)" by (cases "spec_step E q (abs_getd (getd s))")
  obtain out s' where IH: "serve E (map (\<lambda>q. Some (encode q)) qs) s1 = Some (out, s')" "server_ok s'"
     "map (\<lambda>a. decode_reply (Some a)) out = map Some (filter (\<lambda>r. r \<noteq> Silence) (fst (spec_run E qs a)))"
     "abs_getd (getd s') = snd (spec_run E qs a)"
    using Cons.IH [OF _ ok1] Cons.prems(1) a1 st by auto
  show ?case
  proof (cases ans)
    case None
    with r st decode_Silence [of ans r1] have "r1 = Silence" by simp
    with None t IH st show ?thesis by (simp add: case_prod_beta)
  next
    case (Some x)
    with r st decode_Silence [of ans r1] have "r1 \<noteq> Silence" by simp
    with Some t IH st r show ?thesis by (simp add: case_prod_beta)
  qed
qed

text \<open>A file cut into the pieces of its transfer; the last piece is shorter than 4096.\<close>

fun chunks :: "byte list \<Rightarrow> byte list list" where
  "chunks bs = (if length bs < 4096 then [bs] else take 4096 bs # chunks (drop 4096 bs))"

declare chunks.simps [simp del]

lemma concat_chunks: "concat (chunks bs) = bs"
  by (induction bs rule: chunks.induct) (subst chunks.simps, auto)

lemma length_chunks: "length (chunks bs) = length bs div 4096 + 1"
proof (induction bs rule: chunks.induct)
  case (1 bs)
  then show ?case
    by (subst chunks.simps) (auto simp: div_if [of "length bs"])
qed

definition rest_of :: "FILE \<Rightarrow> byte list" where
  "rest_of f = drop (f_pos f) (f_data f)"

lemma chunk_rest: "chunk_of f = take 4096 (rest_of f)"
  by (simp add: chunk_of_def rest_of_def slice_def)

lemma rest_after_chunk: "rest_of (after_chunk f) = drop 4096 (rest_of f)"
  by (simp add: rest_of_def after_chunk_def chunk_of_def slice_def min_def add.commute)

lemma after_chunk_eof: "f_eof (after_chunk f) \<longleftrightarrow> f_eof f \<or> length (rest_of f) < 4096"
  by (simp add: after_chunk_def chunk_rest min_def)

lemma spec_transfer:
  assumes "\<not> f_eof f" and "sp_sid a = sid" and "r0 = rest_of f"
  shows "\<exists>a'. spec_run E (replicate (length (chunks r0)) (Ack sid)) (snd (spec_send f a))
      = (map (Data sid) (tl (chunks r0)) @ [Finished sid], a') \<and>
     sp_phase a' = Idle \<and> sp_sid a' = sid \<and> sp_draws a' = sp_draws a \<and> sp_open a' = sp_open a - 1"
  using assms
proof (induction r0 arbitrary: f a rule: chunks.induct)
  case (1 r0)
  let ?f = "after_chunk f"
  have ph: "sp_phase (snd (spec_send f a)) = Sending ?f" "sp_sid (snd (spec_send f a)) = sid"
    "sp_draws (snd (spec_send f a)) = sp_draws a" "sp_open (snd (spec_send f a)) = sp_open a"
    using "1.prems" by (simp_all add: spec_send_def)
  show ?case
  proof (cases "length r0 < 4096")
    case True
    then have "chunks r0 = [r0]" by (simp add: chunks.simps)
    moreover have "f_eof ?f" using True "1.prems" by (simp add: after_chunk_eof)
    ultimately show ?thesis using ph by simp
  next
    case False
    then have c: "chunks r0 = take 4096 r0 # chunks (drop 4096 r0)" by (subst chunks.simps) simp
    have eof: "\<not> f_eof ?f" and r: "drop 4096 r0 = rest_of ?f"
      using False "1.prems" by (simp_all add: after_chunk_eof rest_after_chunk)
    obtain a' where a': "spec_run E (replicate (length (chunks (drop 4096 r0))) (Ack sid))
        (snd (spec_send ?f (snd (spec_send f a))))
        = (map (Data sid) (tl (chunks (drop 4096 r0))) @ [Finished sid], a')"
      and p: "sp_phase a' = Idle" "sp_sid a' = sid" "sp_draws a' = sp_draws a"
        "sp_open a' = sp_open a - 1"
      using "1.IH" [OF False eof ph(2) r] ph(3,4) by auto
    have hd: "fst (spec_send ?f (snd (spec_send f a))) = Data sid (hd (chunks (drop 4096 r0)))"
      using ph(2) by (subst chunks.simps) (simp add: spec_send_def chunk_rest r)
    have st: "spec_step E (Ack sid) (snd (spec_send f a)) = spec_send ?f (snd (spec_send f a))"
      using ph eof by simp
    have "chunks (drop 4096 r0) \<noteq> []" by (subst chunks.simps) simp
    then obtain c1 cs where R: "chunks (drop 4096 r0) = c1 # cs" by (meson neq_Nil_conv)
    have "spec_run E (Ack sid # replicate (length (c1 # cs)) (Ack sid)) (snd (spec_send f a))
        = (Data sid c1 # map (Data sid) cs @ [Finished sid], a')"
      using a' hd unfolding R
      by (simp only: spec_run.simps st split_beta Let_def prod.case fst_conv snd_conv list.sel)
    then show ?thesis using p by (simp add: c R del: spec_run.simps)
  qed
qed

end
