(* ===== verification/Getd_Props.thy ===== *)
theory Getd_Props
  imports Getd_Spec
begin

text \<open>
  The properties of getd: the invariant of every reachable state, whole conversations, who
  gets file contents, and what the code does on the inputs it does not reject.
\<close>

section \<open>The invariant is kept by every turn\<close>

text \<open>Whatever arrives, a turn that ends leaves the process in a good state.\<close>

lemma length_strncpy_at: "c_strncpy_at m i p n = Some m' \<Longrightarrow> length m' = length m"
  by (auto simp: c_strncpy_at_def Option.bind_eq_Some_conv dest: length_poke)

lemma length_strcpy_at: "c_strcpy_at m i p = Some m' \<Longrightarrow> length m' = length m"
  by (auto simp: c_strcpy_at_def Option.bind_eq_Some_conv dest: length_poke)

lemma length_st32: "st32 m i w = Some m' \<Longrightarrow> length m' = length m"
  by (auto simp: st32_def dest: length_poke)

lemmas length_writes = length_poke length_st32 length_strcpy_at length_strncpy_at

lemma length_MessageType2Builder:
  "MessageType2Builder m e = Some (n, m') \<Longrightarrow> length m' = length m"
  by (auto simp: MessageType2Builder_def Option.bind_eq_Some_conv dest!: length_writes)

lemma send2_frame:
  assumes "send2 g e = Some (n, g')"
  shows "state g' = state g \<and> sendFile g' = sendFile g \<and> openFiles g' = openFiles g \<and>
     randCalls g' = randCalls g \<and> length (outMessage g') = length (outMessage g)"
  using assms by (auto simp: send2_def Option.bind_eq_Some_conv dest!: length_MessageType2Builder)

lemma send2_ok: "send2 g e = Some (n, g') \<Longrightarrow> getd_ok g \<Longrightarrow> getd_ok g'"
  by (drule send2_frame) (auto simp: getd_ok_def)

lemma length_fill_sessionId:
  "fill_sessionId rnd k n sid = Some (sid', k') \<Longrightarrow> length sid' = length sid"
  by (induction rnd k n sid arbitrary: sid' k' rule: fill_sessionId.induct)
     (auto simp: Option.bind_eq_Some_conv dest: length_poke)

lemma poke_last:
  "poke m i [x] = Some m' \<Longrightarrow> m' ! i = x"
  by (auto simp: poke_eq_Some overwrite_def nth_append)

lemma send1_ok:
  assumes "send1 g = Some (n, g')" and "getd_ok g" and "sessionId (state g) ! 128 = 0"
  shows "getd_ok g'"
proof -
  from assms(1) obtain out st where b: "MessageType1Builder (outMessage g) (state g) = Some (n, out, st)"
    and g': "g' = g\<lparr>outMessage := out, state := st\<rparr>"
    by (auto simp: send1_def Option.bind_eq_Some_conv)
  from b have "length out = length (outMessage g)" and "st = (state g)\<lparr>lastSent := 1\<rparr>"
    by (auto simp: MessageType1Builder_def Option.bind_eq_Some_conv Let_def dest!: length_writes)
  with g' assms(2,3) show ?thesis by (auto simp: getd_ok_def)
qed

lemma MessageType0Handler_ok:
  assumes "MessageType0Handler E m g = Some (n, g')" and g: "getd_ok g"
  shows "getd_ok g'"
proof -
  from assms obtain ver where ver: "type0Ver m = Some ver"
    by (auto simp: MessageType0Handler_def Option.bind_eq_Some_conv)
  consider (busy) "lastSent (state g) \<noteq> 5 \<and> lastSent (state g) \<noteq> 2"
    | (corrupt) "\<not> (lastSent (state g) \<noteq> 5 \<and> lastSent (state g) \<noteq> 2)" "ver \<noteq> 0"
    | (begins) "\<not> (lastSent (state g) \<noteq> 5 \<and> lastSent (state g) \<noteq> 2)" "ver = 0" by blast
  then show ?thesis
  proof cases
    case busy
    with assms ver show ?thesis by (auto simp: MessageType0Handler_def dest: send2_ok)
  next
    case corrupt
    with assms(1) ver have "send2 (set_lastSent 2 g) (lit ''Corrupt Type 0 Message'') = Some (n, g')"
      by (auto simp: MessageType0Handler_def)
    then show ?thesis using getd_ok_failed [OF g] by (rule send2_ok)
  next
    case begins
    with assms(1) ver obtain name sid sid1 k sid2 where
      c: "c_strcpy (userName (state g)) (distinguishedName m) = Some name"
        "poke (sessionId (state g)) 0 [0] = Some sid"
        "fill_sessionId (rand_at E) (randCalls g) 128 sid = Some (sid1, k)"
        "poke sid1 128 [0] = Some sid2"
      and s: "send1 (g\<lparr>state := (state g)\<lparr>userName := name, sessionId := sid2\<rparr>, randCalls := k\<rparr>)
        = Some (n, g')"
      by (auto simp: MessageType0Handler_def Option.bind_eq_Some_conv)
    have "length name = length (userName (state g))" using c(1) by (simp add: c_strcpy_def length_strcpy_at)
    moreover have "length sid2 = length (sessionId (state g))"
      using c(2-4) by (simp add: length_poke length_fill_sessionId)
    moreover have "sid2 ! 128 = 0" using c(4) by (rule poke_last)
    ultimately show ?thesis
      using g by (intro send1_ok [OF s]) (auto simp: getd_ok_def)
  qed
qed

text \<open>
  What the handlers of types 3 and 6 can come to, on a good state: a refusal, or, only for
  the holder of the session id in the right phase, data or the end message.
\<close>

definition refusal_of :: "nat \<Rightarrow> getd \<Rightarrow> bool" where
  "refusal_of n g' \<longleftrightarrow> n = 272 \<and> (\<exists>t g2. g' = refuse t g2 \<and> getd_ok g2 \<and> length t \<le> 255)"

lemma refusal_ofI: "getd_ok g \<Longrightarrow> length t \<le> 255 \<Longrightarrow> refusal_of 272 (refuse t g)"
  unfolding refusal_of_def by blast

lemma T3_result:
  assumes run: "MessageType3Handler E m g = Some (n, g')" and g: "getd_ok g"
  shows "refusal_of n g' \<or>
    (\<exists>bs. lastSent (state g) = 1 \<and> c_strncmp (m3_sessionId m) (sessionId (state g)) 128 = Some 0 \<and>
       n = 4244 \<and> g' = sent_chunk (session_string g) \<lparr>f_data = bs, f_pos = 0, f_eof = False\<rparr> (opened bs g))"
proof -
  note failed = refusal_ofI [OF getd_ok_failed [OF g]]
  from run obtain v where v: "type3Ver m = Some v"
    by (auto simp: MessageType3Handler_def Option.bind_eq_Some_conv)
  show ?thesis
  proof (cases "v = 0")
    case False
    with run T3_corrupt [OF g v, of E] failed show ?thesis by auto
  next
    case True
    note v0 = v [unfolded True]
    with run obtain d where d: "c_strncmp (m3_sessionId m) (sessionId (state g)) 128 = Some d"
      by (auto simp: MessageType3Handler_def Option.bind_eq_Some_conv)
    show ?thesis
    proof (cases "d = 0 \<and> lastSent (state g) = 1")
      case False
      with run T3_other_session [OF g v0 d, of E] T3_invalid_state [OF g v0, of E] d failed show ?thesis
        by (cases "d = 0") auto
    next
      case True
      then have d0: "c_strncmp (m3_sessionId m) (sessionId (state g)) 128 = Some 0"
        and l: "lastSent (state g) = 1" using d by auto
      with run v0 obtain path where p: "c_cstr (pathName m) = Some path"
        by (auto simp: MessageType3Handler_def Option.bind_eq_Some_conv)
      consider "fopen_at E (openFiles g) path = None" | "fopen_at E (openFiles g) path = Some Special"
        | bs where "fopen_at E (openFiles g) path = Some (Regular bs)" by (metis node.exhaust option.exhaust)
      then show ?thesis
      proof cases
        case 1
        have "getd_ok (set_lastSent 2 (g\<lparr>sendFile := None\<rparr>))" using g by (simp add: getd_ok_def)
        with T3_no_file [OF g v0 d0 l p 1] run show ?thesis by (auto intro!: refusal_ofI)
      next
        case 2
        have "getd_ok (set_lastSent 2 (opened [] g))" using g by (simp add: getd_ok_def)
        with T3_special_file [OF g v0 d0 l p 2] run show ?thesis by (auto intro!: refusal_ofI)
      next
        case 3
        with T3_open [OF g v0 d0 l p 3] run d0 l show ?thesis by auto
      qed
    qed
  qed
qed

lemma T6_result:
  assumes run: "MessageType6Handler m g = Some (n, g')" and g: "getd_ok g"
  shows "refusal_of n g' \<or>
    c_strcmp (m6_sessionId m) (sessionId (state g)) = Some 0 \<and>
     (lastSent (state g) = 5 \<and> n = 0 \<and> g' = noted6 g \<or>
      (\<exists>f. lastSent (state g) = 4 \<and> sendFile g = Some f \<and>
         (n = 144 \<and> g' = sent_end (session_string g) (noted6 g) \<or>
          n = 4244 \<and> g' = sent_chunk (session_string g) f (noted6 g))))"
proof -
  from run obtain d where d: "c_strcmp (m6_sessionId m) (sessionId (state g)) = Some d"
    by (auto simp: MessageType6Handler_def Option.bind_eq_Some_conv)
  show ?thesis
  proof (cases "d = 0")
    case False
    with run T6_other_session [OF g d] g show ?thesis by (auto intro!: refusal_ofI)
  next
    case True
    note d0 = d [unfolded True]
    with run obtain v where v: "type6Ver m (state (noted6 g)) = Some v"
      by (auto simp: MessageType6Handler_def Let_def Option.bind_eq_Some_conv noted6_def [symmetric])
    show ?thesis
    proof (cases "v = 0")
      case False
      with run T6_corrupt [OF g d0 v] g show ?thesis
        by (auto intro!: refusal_ofI getd_ok_failed)
    next
      case True
      note v0 = v [unfolded True]
      consider (sending) "lastSent (state g) = 4" | (idle) "lastSent (state g) = 5"
        | (other) "lastSent (state g) \<noteq> 4" "lastSent (state g) \<noteq> 5" by blast
      then show ?thesis
      proof cases
        case sending
        then obtain f where f: "sendFile g = Some f" using g by (auto simp: getd_ok_def)
        from run T6_transfer [OF g d0 v0 sending f] f sending d0 show ?thesis by (auto split: if_splits)
      next
        case idle
        with run T6_done [OF d0 v0] d0 show ?thesis by auto
      next
        case other
        with run T6_invalid_state [OF g d0 v0] g show ?thesis
          by (auto intro!: refusal_ofI getd_ok_failed)
      qed
    qed
  qed
qed

lemma refusal_ok: "refusal_of n g' \<Longrightarrow> getd_ok g'"
  by (auto simp: refusal_of_def getd_ok_refuse)

lemma MessageType3Handler_ok:
  assumes "MessageType3Handler E m g = Some (n, g')" and g: "getd_ok g"
  shows "getd_ok g'"
proof -
  have "getd_ok (sent_chunk (session_string g) f (opened bs g))" if "lastSent (state g) = 1" for bs f
    using getd_ok_sent_chunk [of "opened bs g" f] g that
    by (simp add: getd_ok_def session_string_def)
  with T3_result [OF assms] show ?thesis by (auto intro: refusal_ok)
qed

lemma MessageType6Handler_ok:
  assumes "MessageType6Handler m g = Some (n, g')" and g: "getd_ok g"
  shows "getd_ok g'"
proof -
  have *: "getd_ok (sent_end (session_string g) (noted6 g)) \<and>
      getd_ok (sent_chunk (session_string g) f (noted6 g))"
    if "lastSent (state g) = 4" and f: "sendFile g = Some f" for f
  proof -
    have z: "sessionId (state g) ! 128 = 0" using g that by (simp add: getd_ok_def)
    then have "length (session_string g) \<le> 128" using g by (auto simp: getd_ok_def intro: session_cstr(2))
    then show ?thesis
      using g getd_ok_sent_chunk [of "noted6 g" f] f z by (simp add: getd_ok_def sent_end_def)
  qed
  from T6_result [OF assms] g * show ?thesis by (auto intro: refusal_ok)
qed

lemma dispatch_ok:
  "dispatch E t buf g = Some (n, g') \<Longrightarrow> getd_ok g \<Longrightarrow> getd_ok g'"
  by (auto simp: dispatch_def MessageOtherHandler_def Option.bind_eq_Some_conv split: if_splits
      intro: MessageType0Handler_ok MessageType3Handler_ok MessageType6Handler_ok send2_ok)

lemma main_turn_cases:
  assumes "main_turn E r s = Some (ans, s')"
  obtains h n g' where "asHeader (nn_recv_into (buffer s) r) = Some h"
    and "dispatch E (messageType h) (nn_recv_into (buffer s) r) (getd s) = Some (n, g')"
    and "s' = s\<lparr>buffer := nn_recv_into (buffer s) r, getd := g'\<rparr>"
    and "ans = (if messageType h = 6 \<and> n = 0 then None else Some (take n (outMessage g')))"
  using assms
  by (auto simp: main_turn_def Let_def nn_send_from_def Option.bind_eq_Some_conv split: if_splits)

lemma main_turn_ok:
  assumes "main_turn E r s = Some (ans, s')" and "server_ok s"
  shows "server_ok s'"
  using assms by (auto elim!: main_turn_cases simp: server_ok_def length_recv dest: dispatch_ok)

lemma started_ok: "started s \<Longrightarrow> server_ok s"
  by (auto simp: started_def main_start_def server_ok_def getd_ok_def)

text \<open>
  C3. In every state the process reaches, through any messages, failed receives and signals,
  and whatever the uninitialised memory held: as long as it runs, its buffers have their
  sizes, the last message sent is of type 1, 2, 4 or 5, a transfer in progress has an open
  stream, and the id of an open session is terminated.
\<close>

theorem getd_reachable_invariant:
  assumes "server_reach E s" and "running s"
  shows "server_ok s"
  using assms
proof (induction rule: server_reach.induct)
  case (start s)
  then show ?case by (simp add: started_ok)
next
  case (step s s')
  then show ?case
    by (auto elim!: server_stepE dest: main_turn_ok simp: handleQuit_def)
qed

text \<open>A process just started with zeroed memory: the state the witnesses run from.\<close>

definition zero_server :: server where
  "zero_server = main_start (replicate 4000 0) (replicate 129 0) (replicate 33 0) (replicate 10000 0)"

definition demo_env :: env where
  "demo_env = \<lparr>rand_at = (\<lambda>_. 0), fopen_at = (\<lambda>n p.
     if 1000 \<le> n then None else if p = [47] then Some Special else Some (Regular p))\<rparr>"

lemma zero_server_started: "started zero_server"
  by (auto simp: started_def zero_server_def intro!: exI)

lemma zero_server_ok: "server_ok zero_server"
  using zero_server_started by (rule started_ok)

lemma demo_env_ok: "env_ok demo_env"
  by (simp add: env_ok_def demo_env_def)

theorem getd_reachable_invariant_witness:
  "server_reach demo_env zero_server \<and> running zero_server \<and> server_ok zero_server"
proof -
  have "server_reach demo_env zero_server" by (rule server_reach.start [OF zero_server_started])
  moreover have "running zero_server" by (simp add: zero_server_def main_start_def)
  ultimately show ?thesis using getd_reachable_invariant by blast
qed

lemma getd_spec_turn:
  assumes "server_ok s" and "env_ok E" and "valid_request q"
  shows "\<exists>ans s'. main_turn E (Some (encode q)) s = Some (ans, s') \<and> server_ok s' \<and>
     decode_reply ans = Some (fst (spec_step E q (abs_getd (getd s)))) \<and>
     abs_getd (getd s') = snd (spec_step E q (abs_getd (getd s)))"
  using refines_request [OF assms] unfolding refines_def by blast

section \<open>Refinement\<close>

text \<open>
  C1. Refinement: on a good state, one turn of the server on a well-formed request ends
  without undefined behaviour, keeps the invariant, and what the client reads in the answer
  (or its absence) and the new state are exactly those of the abstract session machine.
\<close>

theorem getd_refines_session_machine:
  assumes "server_ok s" and "env_ok E" and "valid_request q"
  shows "\<exists>ans s'. main_turn E (Some (encode q)) s = Some (ans, s') \<and> server_ok s' \<and>
     decode_reply ans = Some (fst (spec_step E q (abs_getd (getd s)))) \<and>
     abs_getd (getd s') = snd (spec_step E q (abs_getd (getd s)))"
  using assms by (rule getd_spec_turn)

theorem getd_refines_session_machine_witness:
  "\<exists>ans s'. main_turn demo_env (Some (encode (Hello [97]))) zero_server = Some (ans, s') \<and>
     server_ok s' \<and> decode_reply ans = Some (fst (spec_step demo_env (Hello [97]) (abs_getd (getd zero_server)))) \<and>
     abs_getd (getd s') = snd (spec_step demo_env (Hello [97]) (abs_getd (getd zero_server)))"
  by (rule getd_refines_session_machine [OF zero_server_ok demo_env_ok]) simp

section \<open>A whole transfer\<close>

lemma transfer_run:
  assumes "sp_phase a = Idle \<or> sp_phase a = Failed" and "sid = nonzero_prefix (new_sessionId E (sp_draws a))"
    and "fopen_at E (sp_open a) path = Some (Regular bs)"
  shows "fst (spec_run E (Hello name # Get sid path # replicate (length (chunks bs)) (Ack sid)) a)
    = Welcome sid # map (Data sid) (chunks bs) @ [Finished sid]"
    and "sp_phase (snd (spec_run E (Hello name # Get sid path # replicate (length (chunks bs)) (Ack sid)) a)) = Idle"
    and "sp_open (snd (spec_run E (Hello name # Get sid path # replicate (length (chunks bs)) (Ack sid)) a)) = sp_open a"
proof -
  let ?f = "\<lparr>f_data = bs, f_pos = 0, f_eof = False\<rparr>"
  let ?a = "a\<lparr>sp_phase := Opened, sp_sid := sid, sp_draws := sp_draws a + 128\<rparr>"
  let ?b = "?a\<lparr>sp_open := sp_open a + 1\<rparr>"
  have sid: "take 128 sid = sid"
    using cstr_drawn [of E "sp_draws a"] assms(2) by (auto simp: c_cstr_def split: if_splits)
  have h: "spec_step E (Hello name) a = (Welcome sid, ?a)"
    using assms(1,2) by (auto simp: spec_hello_def Let_def)
  have g: "spec_step E (Get sid path) ?a = spec_send ?f ?b"
    using sid assms(3) by simp
  have d: "fst (spec_send ?f ?b) = Data sid (hd (chunks bs))"
    by (subst chunks.simps) (simp add: spec_send_def chunk_of_def slice_def)
  have "chunks bs \<noteq> []" by (subst chunks.simps) simp
  then have c: "map (Data sid) (chunks bs) = Data sid (hd (chunks bs)) # map (Data sid) (tl (chunks bs))"
    by (metis list.exhaust_sel list.simps(9))
  have "bs = rest_of ?f" by (simp add: rest_of_def)
  then obtain a' where r: "spec_run E (replicate (length (chunks bs)) (Ack sid)) (snd (spec_send ?f ?b))
      = (map (Data sid) (tl (chunks bs)) @ [Finished sid], a')" and p: "sp_phase a' = Idle" "sp_open a' = sp_open a"
    using spec_transfer [of ?f ?b sid bs E] by auto
  have run: "spec_run E (Hello name # Get sid path # replicate (length (chunks bs)) (Ack sid)) a
    = (Welcome sid # fst (spec_send ?f ?b) # map (Data sid) (tl (chunks bs)) @ [Finished sid], a')"
    by (simp only: spec_run.simps h g r split_beta Let_def prod.case fst_conv snd_conv)
  show "fst (spec_run E (Hello name # Get sid path # replicate (length (chunks bs)) (Ack sid)) a)
    = Welcome sid # map (Data sid) (chunks bs) @ [Finished sid]"
    by (simp only: run d c fst_conv append_Cons)
  show "sp_phase (snd (spec_run E (Hello name # Get sid path # replicate (length (chunks bs)) (Ack sid)) a)) = Idle"
    using p by (simp only: run snd_conv)
  show "sp_open (snd (spec_run E (Hello name # Get sid path # replicate (length (chunks bs)) (Ack sid)) a)) = sp_open a"
    using p by (simp only: run snd_conv)
qed

lemma filter_Silence_transfer:
  "filter (\<lambda>r. r \<noteq> Silence) (Welcome sid # map (Data sid) cs @ [Finished sid])
     = Welcome sid # map (Data sid) cs @ [Finished sid]"
  by (auto simp: filter_id_conv)

lemma phase_idle: "getd_ok g \<Longrightarrow> phase_of g = Idle \<Longrightarrow> lastSent (state g) = 5"
  by (auto simp: phase_of_def split: if_splits)

text \<open>
  C2. A whole transfer: from any good state with no session, a client that sends its name,
  asks for a regular file of any length under the id it is given, and acknowledges every
  message, is sent the id, then the file in order in pieces of at most 4096 bytes
  (\<open>length div 4096 + 1\<close> of them, concatenating to the file), then the end message, after
  which getd is idle again and has as many open streams as before.
\<close>

theorem getd_transfers_whole_file:
  assumes ok: "server_ok s" and E: "env_ok E" and ph: "lastSent (state (getd s)) \<in> {5, 2}"
    and sid: "sid = nonzero_prefix (new_sessionId E (randCalls (getd s)))"
    and found: "fopen_at E (openFiles (getd s)) path = Some (Regular bs)"
    and name: "valid_request (Hello name)" and path: "valid_request (Get sid path)"
  shows "\<exists>out s'. serve E (map (\<lambda>q. Some (encode q))
        (Hello name # Get sid path # replicate (length bs div 4096 + 1) (Ack sid))) s = Some (out, s') \<and>
     map (\<lambda>a. decode_reply (Some a)) out
       = map Some (Welcome sid # map (Data sid) (chunks bs) @ [Finished sid]) \<and>
     concat (chunks bs) = bs \<and> length (chunks bs) = length bs div 4096 + 1 \<and>
     server_ok s' \<and> lastSent (state (getd s')) = 5 \<and> openFiles (getd s') = openFiles (getd s)"
proof -
  let ?qs = "Hello name # Get sid path # replicate (length (chunks bs)) (Ack sid)"
  have "\<forall>q \<in> set ?qs. valid_request q" using name path by auto
  then obtain out s' where run: "serve E (map (\<lambda>q. Some (encode q)) ?qs) s = Some (out, s')"
    and ok': "server_ok s'"
    and r: "map (\<lambda>a. decode_reply (Some a)) out
       = map Some (filter (\<lambda>r. r \<noteq> Silence) (fst (spec_run E ?qs (abs_getd (getd s)))))"
    and a: "abs_getd (getd s') = snd (spec_run E ?qs (abs_getd (getd s)))"
    using serve_refines [OF _ ok E] by blast
  have idle: "sp_phase (abs_getd (getd s)) = Idle \<or> sp_phase (abs_getd (getd s)) = Failed"
    using ph by (auto simp: phase_of_def)
  have sid': "sid = nonzero_prefix (new_sessionId E (sp_draws (abs_getd (getd s))))" using sid by simp
  have found': "fopen_at E (sp_open (abs_getd (getd s))) path = Some (Regular bs)" using found by simp
  note t = transfer_run [OF idle sid' found', of name]
  from r have rep: "map (\<lambda>a. decode_reply (Some a)) out
      = map Some (Welcome sid # map (Data sid) (chunks bs) @ [Finished sid])"
    by (simp only: t(1) filter_Silence_transfer)
  have l: "lastSent (state (getd s')) = 5"
    using phase_idle [of "getd s'"] ok' a t(2) by (metis abs_phase server_ok_def)
  have o: "openFiles (getd s') = openFiles (getd s)"
    using a t(3) by (metis abs_open)
  show ?thesis
    using run [unfolded length_chunks] rep ok' l o concat_chunks length_chunks by blast
qed

text \<open>The witness: a file of one byte, \<open>a\<close>, at the path \<open>a\<close>.\<close>

theorem getd_transfers_whole_file_witness:
  "\<exists>out s'. serve demo_env (map (\<lambda>q. Some (encode q))
        (Hello [97] # Get (replicate 128 48) [97] # replicate (length [97::byte] div 4096 + 1) (Ack (replicate 128 48))))
        zero_server = Some (out, s') \<and>
     map (\<lambda>a. decode_reply (Some a)) out
       = map Some (Welcome (replicate 128 48) # map (Data (replicate 128 48)) (chunks [97]) @ [Finished (replicate 128 48)]) \<and>
     concat (chunks [97::byte]) = [97] \<and> length (chunks [97::byte]) = length [97::byte] div 4096 + 1 \<and>
     server_ok s' \<and> lastSent (state (getd s')) = 5 \<and> openFiles (getd s') = openFiles (getd zero_server)"
proof (rule getd_transfers_whole_file [OF zero_server_ok demo_env_ok])
  show "lastSent (state (getd zero_server)) \<in> {5, 2}" by (simp add: zero_server_def main_start_def)
  have z: "possibleChars ! 0 = 48" by (simp add: possibleChars_def lit_def bytes_of_def)
  have "map (\<lambda>j. possibleChars ! rand_index (rand_at demo_env (k + j))) [0..<n] = replicate n 48" for k n
    by (rule replicate_eqI) (auto simp: demo_env_def rand_index_def z)
  then have "drawn (rand_at demo_env) k 128 = replicate 128 48" for k
    by (simp only: drawn_def rev_replicate)
  then have "new_sessionId demo_env k = replicate 128 48 @ 0 # []" for k
    by (simp only: new_sessionId_def)
  then show "replicate 128 48 = nonzero_prefix (new_sessionId demo_env (randCalls (getd zero_server)))"
    by (simp only:) (rule nonzero_prefix_append0 [symmetric], simp)
  show "fopen_at demo_env (openFiles (getd zero_server)) [97] = Some (Regular [97])"
    by (simp add: demo_env_def zero_server_def main_start_def)
qed simp_all

section \<open>Who is sent file contents\<close>

lemma MessageType2Builder_type:
  assumes "MessageType2Builder m e = Some (n, m')" and "272 \<le> length m"
  shows "n = 272 \<and> peek m' 0 = Some 2"
  using assms
  by (auto simp: MessageType2Builder_def Option.bind_eq_Some_conv c_strncpy_at_def st32_def
      poke_eq_Some mem_simps)

lemma send2_type:
  "send2 g e = Some (n, g') \<Longrightarrow> length (outMessage g) = 10000 \<Longrightarrow> n = 272 \<and> peek (outMessage g') 0 = Some 2"
  by (auto simp: send2_def Option.bind_eq_Some_conv dest: MessageType2Builder_type)

lemma send1_type:
  "send1 g = Some (n, g') \<Longrightarrow> length (outMessage g) = 10000 \<Longrightarrow> n = 144 \<and> peek (outMessage g') 0 = Some 1"
  by (auto simp: send1_def MessageType1Builder_def c_strcpy_at_def st32_def Let_def
      Option.bind_eq_Some_conv poke_eq_Some mem_simps)

lemma T0_type:
  assumes "MessageType0Handler E m g = Some (n, g')" and "length (outMessage g) = 10000"
  shows "n \<le> 272 \<and> (peek (outMessage g') 0 = Some 1 \<or> peek (outMessage g') 0 = Some 2)"
  using assms
  by (auto simp: MessageType0Handler_def Option.bind_eq_Some_conv split: if_splits
      dest!: send2_type send1_type)

lemma refusal_type: "refusal_of n g' \<Longrightarrow> peek (outMessage g') 0 = Some 2"
  by (auto simp: refusal_of_def getd_ok_def type2_image_def mem_simps bytes_of_def)

lemma end_type:
  "length (outMessage g) = 10000 \<Longrightarrow> length s \<le> 128 \<Longrightarrow> peek (outMessage (sent_end s g)) 0 = Some 5"
  by (simp add: sent_end_def sid_image_def mem_simps)

lemma peek_take_Some: "peek (take n m) i = Some x \<Longrightarrow> peek m i = Some x"
  by (auto simp: peek_def split: if_splits)

text \<open>
  C4. File contents go only to the holder of the session: if a turn on a good state answers
  with a message of type 4, then what is in the buffer is either a type 3 message while the
  last message sent was the session id, or a type 6 message during a transfer, and in both
  cases the session id in it compares equal to the one of the session.
\<close>

theorem getd_data_only_in_session:
  assumes turn: "main_turn E r s = Some (Some a, s')" and ok: "server_ok s" and ty: "peek a 0 = Some 4"
  shows "(\<exists>m. as_MessageType3 (nn_recv_into (buffer s) r) = Some m \<and>
       messageType (m3_header m) = 3 \<and> lastSent (state (getd s)) = 1 \<and>
       nonzero_prefix (take 128 (m3_sessionId m)) = take 128 (session_string (getd s))) \<or>
     (\<exists>m. as_MessageType6 (nn_recv_into (buffer s) r) = Some m \<and>
       messageType (m6_header m) = 6 \<and> lastSent (state (getd s)) = 4 \<and>
       c_cstr (m6_sessionId m) = Some (session_string (getd s)))"
proof -
  let ?b = "nn_recv_into (buffer s) r" and ?g = "getd s"
  have g: "getd_ok ?g" and out: "length (outMessage ?g) = 10000"
    using ok by (auto simp: server_ok_def getd_ok_def)
  from turn obtain h n g' where h: "asHeader ?b = Some h"
    and d: "dispatch E (messageType h) ?b ?g = Some (n, g')" and a: "a = take n (outMessage g')"
    by (auto elim!: main_turn_cases split: if_splits)
  have p4: "peek (outMessage g') 0 = Some 4" using ty a by (auto dest: peek_take_Some)
  have n0: "n \<noteq> 0" using ty a by (cases n) (auto simp: peek_def)
  from d consider
      (t0) m where "MessageType0Handler E m ?g = Some (n, g')"
    | (t3) m where "messageType h = 3" "as_MessageType3 ?b = Some m" "MessageType3Handler E m ?g = Some (n, g')"
    | (t6) m where "messageType h = 6" "as_MessageType6 ?b = Some m" "MessageType6Handler m ?g = Some (n, g')"
    | (other) "MessageOtherHandler (messageType h) ?g = Some (n, g')"
    by (auto simp: dispatch_def Option.bind_eq_Some_conv split: if_splits)
  then show ?thesis
  proof cases
    case t0
    from T0_type [OF this out] p4 show ?thesis by auto
  next
    case t3
    have "messageType (m3_header m) = 3" using t3(1,2) h
      by (auto simp: as_MessageType3_def Option.bind_eq_Some_conv)
    with T3_result [OF t3(3) g] p4 t3(2) show ?thesis
      by (auto dest!: refusal_type c_strncmp_zero simp: session_string_def nonzero_prefix_take)
  next
    case t6
    have hd: "messageType (m6_header m) = 6" using t6(1,2) h
      by (auto simp: as_MessageType6_def Option.bind_eq_Some_conv)
    from T6_result [OF t6(3) g] p4 n0 t6(2) hd out show ?thesis
    proof (elim disjE conjE exE, goal_cases)
      case (3 f)
      then have "length (session_string ?g) \<le> 128" using g by (auto simp: getd_ok_def intro: session_cstr(2))
      with 3 end_type [of "noted6 ?g" "session_string ?g"] show ?case by simp
    next
      case (4 f)
      then have "c_strcmp (m6_sessionId m) (sessionId (state ?g)) = Some 0" by simp
      then obtain u where "c_cstr (m6_sessionId m) = Some u" "c_cstr (sessionId (state ?g)) = Some u"
        using c_strcmp_zero by blast
      with 4 show ?case by (auto simp: session_string_def c_cstr_def split: if_splits)
    qed (auto dest: refusal_type)
  next
    case other
    then show ?thesis using p4 out by (auto simp: MessageOtherHandler_def dest: send2_type)
  qed
qed

text \<open>The witness: an open session with an empty id, and a request for the file \<open>a\<close>.\<close>

definition open_server :: server where
  "open_server = zero_server\<lparr>getd := set_lastSent 1 (getd zero_server)\<rparr>"

lemma open_server_ok: "server_ok open_server"
  using zero_server_ok by (simp add: open_server_def server_ok_def getd_ok_def zero_server_def main_start_def)

lemma decode_Data_type: "decode_reply (Some a) = Some (Data s bs) \<Longrightarrow> peek a 0 = Some 4"
  by (auto simp: decode_reply_def asHeader_def Option.bind_eq_Some_conv split: if_splits)

theorem getd_data_only_in_session_witness:
  "\<exists>a s'. main_turn demo_env (Some (encode (Get [] [97]))) open_server = Some (Some a, s') \<and>
     peek a 0 = Some 4 \<and>
    ((\<exists>m. as_MessageType3 (nn_recv_into (buffer open_server) (Some (encode (Get [] [97])))) = Some m \<and>
       messageType (m3_header m) = 3 \<and> lastSent (state (getd open_server)) = 1 \<and>
       nonzero_prefix (take 128 (m3_sessionId m)) = take 128 (session_string (getd open_server))) \<or>
     (\<exists>m. as_MessageType6 (nn_recv_into (buffer open_server) (Some (encode (Get [] [97])))) = Some m \<and>
       messageType (m6_header m) = 6 \<and> lastSent (state (getd open_server)) = 4 \<and>
       c_cstr (m6_sessionId m) = Some (session_string (getd open_server))))"
proof -
  have "fst (spec_step demo_env (Get [] [97]) (abs_getd (getd open_server))) = Data [] (chunk_of \<lparr>f_data = [97], f_pos = 0, f_eof = False\<rparr>)"
    by (simp add: open_server_def zero_server_def main_start_def abs_getd_def phase_of_def
        session_string_def spec_send_def demo_env_def)
  moreover obtain ans s' where t: "main_turn demo_env (Some (encode (Get [] [97]))) open_server = Some (ans, s')"
    and "decode_reply ans = Some (fst (spec_step demo_env (Get [] [97]) (abs_getd (getd open_server))))"
    using getd_spec_turn [OF open_server_ok demo_env_ok, of "Get [] [97]"] by auto
  ultimately obtain a where a: "ans = Some a" and p: "peek a 0 = Some 4"
    by (cases ans) (auto simp: decode_Silence dest: decode_Data_type simp: decode_reply_def [of None])
  show ?thesis
    using t p getd_data_only_in_session [OF t [unfolded a] open_server_ok p] unfolding a by blast
qed

end
