(* ===== verification/Getd_Flaws.thy ===== *)
theory Getd_Flaws
  imports Getd_Props
begin

text \<open>
  What getd does on the inputs its checks let through although they are not well-formed, and
  what its answers and its state carry over from earlier messages.
\<close>

section \<open>Names and paths without a terminator\<close>

text \<open>
  C6. A 48-byte type 0 message whose name has no zero in its 33 bytes, with the length field
  32, passes \<open>type0Ver\<close> with no error; \<open>strcpy\<close> into the 33 bytes of \<open>userName\<close> then
  writes past the array: the turn is undefined behaviour.
\<close>

definition long_name_message :: "byte list \<Rightarrow> byte list" where
  "long_name_message name = [0, 0, 0, 0] @ le_bytes 4 48 @ le_bytes 4 32 @ name @ [0, 0, 0]"

theorem getd_unterminated_name_overflows:
  assumes ok: "server_ok s" and idle: "lastSent (state (getd s)) \<in> {5, 2}"
    and name: "length name = 33" "0 \<notin> set name"
  shows "\<exists>m. as_MessageType0 (nn_recv_into (buffer s) (Some (long_name_message name))) = Some m \<and>
     type0Ver m = Some 0 \<and> main_turn E (Some (long_name_message name)) s = None"
proof -
  let ?b = "nn_recv_into (buffer s) (Some (long_name_message name))"
  have "length (long_name_message name) = 48" using name by (simp add: long_name_message_def)
  then have "?b = long_name_message name @ drop 48 (buffer s)" by (simp add: nn_recv_into_def)
  then have b: "?b = [0, 0, 0, 0] @ le_bytes 4 48 @ le_bytes 4 32 @ (name @ 0 # [0, 0] @ drop 48 (buffer s))"
    by (simp add: long_name_message_def)
  note w = parse_words [OF b]
  let ?m = "\<lparr>m0_header = \<lparr>messageType = 0, messageLength = 48\<rparr>, dnLength = 32,
     distinguishedName = name @ 0 # [0, 0] @ drop 48 (buffer s)\<rparr>"
  have c: "as_MessageType0 ?b = Some ?m" using w by (simp add: as_MessageType0_def)
  have t32: "0 \<notin> set (take 32 name)" using name(2) by (auto dest: in_set_takeD)
  have "c_strnlen (name @ 0 # [0, 0] @ drop 48 (buffer s)) 32 = Some 32"
    using t32 name by (simp add: c_strnlen_full)
  then have v: "type0Ver ?m = Some 0" by (simp add: type0Ver_zero)
  have u: "length (userName (state (getd s))) = 33" using ok by (simp add: server_ok_def getd_ok_def)
  have "c_strcpy (userName (state (getd s))) (distinguishedName ?m) = None"
    using name u by (simp add: c_strcpy_def c_strcpy_at_def poke_def)
  then have "MessageType0Handler E ?m (getd s) = None"
    using idle v by (auto simp: MessageType0Handler_def)
  then have "main_turn E (Some (long_name_message name)) s = None"
    using w(1) c by (simp add: main_turn_def dispatch_def Let_def)
  with c v show ?thesis by blast
qed

theorem getd_unterminated_name_overflows_witness:
  "\<exists>m. as_MessageType0 (nn_recv_into (buffer zero_server) (Some (long_name_message (replicate 33 97)))) = Some m \<and>
     type0Ver m = Some 0 \<and> main_turn demo_env (Some (long_name_message (replicate 33 97))) zero_server = None"
  by (rule getd_unterminated_name_overflows [OF zero_server_ok])
     (simp_all add: zero_server_def main_start_def)

text \<open>
  C7. \<open>MessageType3\<close> is 4244 bytes, the receive buffer 4000: a type 3 request for a path of
  3855 to 4096 characters, which the structure has room for, makes \<open>type3Ver\<close> read past the
  end of the buffer.
\<close>

theorem getd_long_path_overreads:
  assumes sid: "0 \<notin> set sid" "length sid \<le> 128" and buf: "length (buffer s) = 4000"
    and path: "0 \<notin> set path" "3855 \<le> length path" "length path \<le> 4096"
  shows "length (encode (Get sid path)) = struct_size MessageType3_members \<and>
     main_turn E (Some (encode (Get sid path))) s = None"
proof -
  let ?b = "nn_recv_into (buffer s) (Some (encode (Get sid path)))"
  let ?h = "[3, 0, 0, 0] @ le_bytes 4 4244 @ le_bytes 4 (length sid)"
  have len: "length (encode (Get sid path)) = 4244" using sid path by simp
  have "take 3855 (pad 4097 path @ [0, 0]) = take 3855 path" using path by (simp add: pad_def)
  moreover have "encode (Get sid path) = (?h @ le_bytes 4 (length path) @ pad 129 sid) @ pad 4097 path @ [0, 0]"
    by simp
  moreover have "length (?h @ le_bytes 4 (length path) @ pad 129 sid) = 145" using sid by simp
  ultimately have tk: "take 4000 (encode (Get sid path)) = (?h @ le_bytes 4 (length path) @ pad 129 sid) @ take 3855 path"
    by (simp only: take_append) simp
  have "drop 4000 (buffer s) = []" using buf by simp
  with len tk have b: "?b = [3, 0, 0, 0] @ le_bytes 4 4244 @ le_bytes 4 (length sid)
      @ (le_bytes 4 (length path) @ pad 129 sid @ take 3855 path)"
    using sid path by (simp add: nn_recv_into_def del: encode.simps)
  note w = parse_words(1,2) [OF b]
  have "ld32 ?b 12 = Some (word_of_nat (length path))"
    unfolding b by (simp add: ld32_def slice_def word_of_le_nat)
  moreover have "drop 16 ?b = pad 129 sid @ take 3855 path" unfolding b by simp
  moreover have "drop 145 ?b = take 3855 path" unfolding b using sid by simp
  ultimately have c: "as_MessageType3 ?b = Some \<lparr>m3_header = \<lparr>messageType = 3, messageLength = 4244\<rparr>,
      m3_sidLength = word_of_nat (length sid), pathLength = word_of_nat (length path),
      m3_sessionId = pad 129 sid @ take 3855 path, pathName = take 3855 path\<rparr>" (is "_ = Some ?m")
    using w by (simp add: as_MessageType3_def)
  have "0 \<notin> set (take 3855 path)" using path(1) by (auto dest: in_set_takeD)
  then have p: "c_strnlen (take 3855 path) 4096 = None" using path by (simp add: c_strnlen_def)
  have "c_strnlen (pad 129 sid @ take 3855 path) 128 = Some (length sid)"
  proof (cases "length sid = 128")
    case True
    with sid show ?thesis by (simp add: c_strnlen_full pad_def)
  next
    case False
    with sid show ?thesis by (simp add: c_strnlen_string pad_zero)
  qed
  then have "type3Ver ?m = None" using p sid by (simp add: type3Ver_def u32_small)
  then have "main_turn E (Some (encode (Get sid path))) s = None"
    using w(1) c by (simp add: main_turn_def dispatch_def Let_def MessageType3Handler_def)
  with len show ?thesis by simp
qed

theorem getd_long_path_overreads_witness:
  "length (encode (Get [] (replicate 3855 97))) = struct_size MessageType3_members \<and>
     main_turn demo_env (Some (encode (Get [] (replicate 3855 97)))) zero_server = None"
  by (rule getd_long_path_overreads) (simp_all add: zero_server_def main_start_def)

section \<open>Short messages\<close>

text \<open>
  C8. The number of bytes received is not looked at, and the buffer keeps what earlier
  messages left: after a message of at most 4000 bytes, any prefix of it (one byte, or none)
  and any failed receive is handled as the whole message again, session id included.
\<close>

theorem getd_replays_stale_buffer:
  assumes turn: "main_turn E (Some m) s = Some (ans, s1)" and len: "length m \<le> 4000"
    and buf: "length (buffer s) = 4000"
  shows "main_turn E' (Some (take k m)) s1 = main_turn E' (Some m) s1 \<and>
     main_turn E' None s1 = main_turn E' (Some m) s1"
proof -
  from turn have b: "buffer s1 = m @ drop (length m) (buffer s)"
    using len by (auto elim!: main_turn_cases simp: nn_recv_into_def)
  have m: "nn_recv_into (buffer s1) (Some m) = buffer s1" using b len by (simp add: nn_recv_into_def)
  have "length (take k m) \<le> 4000" using len by simp
  then have "nn_recv_into (buffer s1) (Some (take k m)) = take k m @ drop (length (take k m)) (buffer s1)"
    by (rule nn_recv_short)
  also have "\<dots> = buffer s1" using b by (cases "k \<le> length m") (simp_all flip: append_assoc)
  finally have "nn_recv_into (buffer s1) (Some (take k m)) = buffer s1" .
  moreover have "nn_recv_into (buffer s1) None = buffer s1" by (simp add: nn_recv_into_def)
  ultimately show ?thesis using m by (simp add: main_turn_def)
qed

theorem getd_replays_stale_buffer_witness:
  "\<exists>ans s1. main_turn demo_env (Some (encode (Hello [97]))) zero_server = Some (ans, s1) \<and>
     main_turn demo_env (Some (take 1 (encode (Hello [97])))) s1 = main_turn demo_env (Some (encode (Hello [97]))) s1 \<and>
     main_turn demo_env None s1 = main_turn demo_env (Some (encode (Hello [97]))) s1"
proof -
  obtain ans s1 where t: "main_turn demo_env (Some (encode (Hello [97]))) zero_server = Some (ans, s1)"
    using getd_spec_turn [OF zero_server_ok demo_env_ok, of "Hello [97]"] by auto
  have "length (buffer zero_server) = 4000" by (simp add: zero_server_def main_start_def)
  with getd_replays_stale_buffer [OF t, of demo_env 1] t show ?thesis by auto
qed

section \<open>The error answer\<close>

text \<open>
  C9. The error answer: its text is in place, but its terminator is written one byte too far.
  The byte after the text and all bytes from the second after it to the end of the message
  are what the output memory held before, and a client that reads the text as a string gets
  it right only if the byte after it happened to be zero.
\<close>

theorem type2_answer_keeps_old_bytes:
  assumes m: "272 \<le> length m" and t: "0 \<notin> set t" "length t \<le> 243"
  shows "\<exists>m'. MessageType2Builder m (t @ [0]) = Some (272, m') \<and>
     slice 12 (length t) m' = t \<and> m' ! (12 + length t) = m ! (12 + length t) \<and>
     slice (14 + length t) (258 - length t) m' = slice (14 + length t) (258 - length t) m \<and>
     (c_cstr (drop 12 m') = Some t \<longleftrightarrow> m ! (12 + length t) = 0)"
proof -
  let ?m' = "type2_image m t"
  have b: "MessageType2Builder m (t @ [0]) = Some (272, ?m')"
    using m t by (intro MessageType2Builder_eq) auto
  have s: "slice 12 (length t) ?m' = t"
    unfolding type2_image_def using m t by (simp add: mem_simps)
  have n: "?m' ! (12 + length t) = m ! (12 + length t)"
    unfolding type2_image_def using m t by (simp add: mem_simps)
  have e: "slice (14 + length t) (258 - length t) ?m' = slice (14 + length t) (258 - length t) m"
    unfolding type2_image_def using m t by (simp add: mem_simps)
  have len: "12 + length t < length ?m'" using m t by simp
  have "drop 12 ?m' = take (length t) (drop 12 ?m') @ drop (length t) (drop 12 ?m')"
    by (rule append_take_drop_id [symmetric])
  also have "\<dots> = t @ ?m' ! (12 + length t) # drop (13 + length t) ?m'"
    using s len Cons_nth_drop_Suc [of "12 + length t" ?m'] by (simp add: slice_def add.commute)
  finally have d: "drop 12 ?m' = t @ m ! (12 + length t) # drop (13 + length t) ?m'" using n by simp
  have "c_cstr (drop 12 ?m') = Some t \<longleftrightarrow> m ! (12 + length t) = 0"
  proof
    assume "c_cstr (drop 12 ?m') = Some t"
    then obtain r where "drop 12 ?m' = t @ 0 # r" using c_cstr_SomeD by blast
    with d show "m ! (12 + length t) = 0" by simp
  next
    assume "m ! (12 + length t) = 0"
    with d t show "c_cstr (drop 12 ?m') = Some t" by simp
  qed
  with b s n e show ?thesis by blast
qed

theorem type2_answer_keeps_old_bytes_witness:
  "\<exists>m'. MessageType2Builder (replicate 10000 65) (bytes_of ''Invalid State'' @ [0]) = Some (272, m') \<and>
     slice 12 (length (bytes_of ''Invalid State'')) m' = bytes_of ''Invalid State'' \<and>
     m' ! (12 + length (bytes_of ''Invalid State'')) = replicate 10000 65 ! (12 + length (bytes_of ''Invalid State'')) \<and>
     slice (14 + length (bytes_of ''Invalid State'')) (258 - length (bytes_of ''Invalid State'')) m'
       = slice (14 + length (bytes_of ''Invalid State'')) (258 - length (bytes_of ''Invalid State'')) (replicate 10000 65) \<and>
     (c_cstr (drop 12 m') = Some (bytes_of ''Invalid State'')
       \<longleftrightarrow> replicate 10000 (65::byte) ! (12 + length (bytes_of ''Invalid State'')) = 0)"
  by (rule type2_answer_keeps_old_bytes) (simp_all add: bytes_of_def)

section \<open>The user name\<close>

text \<open>
  The user name is stored \<open>so we can later check if the requested file belongs to the user\<close>,
  but nothing reads it: \<open>rename_user\<close> changes it and no answer changes.
\<close>

definition rename_user :: "byte list \<Rightarrow> getd \<Rightarrow> getd" where
  "rename_user u g = g\<lparr>state := (state g)\<lparr>userName := u\<rparr>\<rparr>"

lemma rename_user_simps [simp]:
  "sessionId (state (rename_user u g)) = sessionId (state g)"
  "lastSent (state (rename_user u g)) = lastSent (state g)"
  "outMessage (rename_user u g) = outMessage g" "sendFile (rename_user u g) = sendFile g"
  "openFiles (rename_user u g) = openFiles g" "randCalls (rename_user u g) = randCalls g"
  "userName (state (rename_user u g)) = u"
  "set_lastSent b (rename_user u g) = rename_user u (set_lastSent b g)"
  by (simp_all add: rename_user_def set_lastSent_def)

lemma rename_user_updates [simp]:
  "(rename_user u g)\<lparr>outMessage := x\<rparr> = rename_user u (g\<lparr>outMessage := x\<rparr>)"
  "(rename_user u g)\<lparr>openFiles := n\<rparr> = rename_user u (g\<lparr>openFiles := n\<rparr>)"
  "(rename_user u g)\<lparr>sendFile := f\<rparr> = rename_user u (g\<lparr>sendFile := f\<rparr>)"
  "(rename_user u g)\<lparr>state := (state (rename_user u g))\<lparr>lastRecieved := y\<rparr>\<rparr>
     = rename_user u (g\<lparr>state := (state g)\<lparr>lastRecieved := y\<rparr>\<rparr>)"
  by (simp_all add: rename_user_def)

abbreviation renamed :: "byte list \<Rightarrow> (nat \<times> getd) option \<Rightarrow> (nat \<times> getd) option" where
  "renamed u \<equiv> map_option (\<lambda>(n, g). (n, rename_user u g))"

lemma send2_rename: "send2 (rename_user u g) e = renamed u (send2 g e)"
  by (cases "MessageType2Builder (outMessage g) e") (auto simp: send2_def)

lemma map_option_of_bind:
  "map_option h (Option.bind x f) = Option.bind x (\<lambda>a. map_option h (f a))"
  by (cases x) auto

lemma field_orders:
  "st\<lparr>userName := u, lastSent := b\<rparr> = st\<lparr>lastSent := b, userName := u\<rparr>"
  "g\<lparr>outMessage := m, state := s\<rparr> = g\<lparr>state := s, outMessage := m\<rparr>"
  "g\<lparr>sendFile := f, state := s\<rparr> = g\<lparr>state := s, sendFile := f\<rparr>"
  "g\<lparr>openFiles := n, state := s\<rparr> = g\<lparr>state := s, openFiles := n\<rparr>"
  by simp_all

lemma Type4_rename: "MessegeType4Builder (rename_user u g) = renamed u (MessegeType4Builder g)"
  by (simp add: MessegeType4Builder_def Let_def split_beta map_option_of_bind)
     (simp add: rename_user_def field_orders)

lemma Type5_rename: "MessegeType5Builder (rename_user u g) = renamed u (MessegeType5Builder g)"
  by (simp add: MessegeType5Builder_def Let_def split_beta map_option_of_bind)
     (simp add: rename_user_def field_orders)

lemma T3_rename: "MessageType3Handler E m (rename_user u g) = renamed u (MessageType3Handler E m g)"
  unfolding MessageType3Handler_def map_option_of_bind
  by (intro foldr_bind_cong refl)
     (auto simp: send2_rename Type4_rename map_option_of_bind
       intro!: foldr_bind_cong split: option.splits node.splits)

lemma type6Ver_rename [simp]: "type6Ver m (state (rename_user u g)) = type6Ver m (state g)"
  by (simp add: type6Ver_def)

lemma T6_rename: "MessageType6Handler m (rename_user u g) = renamed u (MessageType6Handler m g)"
  unfolding MessageType6Handler_def map_option_of_bind Let_def
  by (intro foldr_bind_cong)
     (auto simp: send2_rename Type4_rename Type5_rename map_option_of_bind intro!: foldr_bind_cong)

lemma send1_rename:
  "send1 (g\<lparr>state := st\<lparr>userName := u\<rparr>, randCalls := k\<rparr>)
     = renamed u (send1 (g\<lparr>state := st\<lparr>userName := u0\<rparr>, randCalls := k\<rparr>))"
proof -
  have b: "MessageType1Builder m (st\<lparr>userName := u\<rparr>)
      = map_option (\<lambda>(n, out, st'). (n, out, st'\<lparr>userName := u\<rparr>)) (MessageType1Builder m (st\<lparr>userName := u0\<rparr>))" for m
    by (simp add: MessageType1Builder_def Let_def map_option_of_bind) (simp add: field_orders)
  show ?thesis
    by (cases "MessageType1Builder (outMessage g) (st\<lparr>userName := u0\<rparr>)")
       (auto simp: send1_def b rename_user_def split: prod.splits)
qed

lemma T0_rename:
  assumes "length u = length (userName (state g))"
  shows "\<exists>u'. length u' = length u \<and>
     MessageType0Handler E m (rename_user u g) = renamed u' (MessageType0Handler E m g)"
proof (cases "type0Ver m = Some 0 \<and> (lastSent (state g) = 5 \<or> lastSent (state g) = 2)")
  case False
  then have "MessageType0Handler E m (rename_user u g) = renamed u (MessageType0Handler E m g)"
    by (cases "type0Ver m") (auto simp: MessageType0Handler_def send2_rename)
  then show ?thesis by blast
next
  case True
  show ?thesis
  proof (cases "c_strcpy (userName (state g)) (distinguishedName m)")
    case None
    then have "c_strcpy u (distinguishedName m) = None"
      using assms by (auto simp: c_strcpy_def c_strcpy_at_def poke_def split: bind_splits if_splits)
    with None True have "MessageType0Handler E m (rename_user u g) = renamed u (MessageType0Handler E m g)"
      by (auto simp: MessageType0Handler_def)
    then show ?thesis by blast
  next
    case (Some v)
    then obtain v' where v': "c_strcpy u (distinguishedName m) = Some v'" "length v' = length u"
      using assms
      by (auto simp: c_strcpy_def c_strcpy_at_def poke_def length_overwrite split: bind_splits if_splits)
    have st: "(rename_user u g)\<lparr>state := (state (rename_user u g))\<lparr>userName := x, sessionId := y\<rparr>, randCalls := k\<rparr>
        = g\<lparr>state := (state g)\<lparr>sessionId := y, userName := x\<rparr>, randCalls := k\<rparr>" for x y k
      by (simp add: rename_user_def)
    have st': "g\<lparr>state := (state g)\<lparr>userName := x, sessionId := y\<rparr>, randCalls := k\<rparr>
        = g\<lparr>state := (state g)\<lparr>sessionId := y, userName := x\<rparr>, randCalls := k\<rparr>" for x y k
      by simp
    have "MessageType0Handler E m (rename_user u g) = renamed v' (MessageType0Handler E m g)"
      using True Some v'(1)
      by (auto simp: MessageType0Handler_def map_option_of_bind st st'
          send1_rename [where u = v' and u0 = v] intro!: foldr_bind_cong)
    with v'(2) show ?thesis by blast
  qed
qed

abbreviation rename_server :: "byte list \<Rightarrow> server \<Rightarrow> server" where
  "rename_server u s \<equiv> s\<lparr>getd := rename_user u (getd s)\<rparr>"

lemma dispatch_rename:
  assumes "length u = length (userName (state g))"
  shows "\<exists>u'. length u' = length u \<and>
     dispatch E t buf (rename_user u g) = renamed u' (dispatch E t buf g)"
proof (cases "t = 0 \<and> as_MessageType0 buf \<noteq> None")
  case True
  with T0_rename [OF assms] show ?thesis by (auto simp: dispatch_def)
next
  case False
  then have "dispatch E t buf (rename_user u g) = renamed u (dispatch E t buf g)"
    by (auto simp: dispatch_def T3_rename T6_rename MessageOtherHandler_def send2_rename map_option_of_bind)
  then show ?thesis by blast
qed

lemma main_turn_rename:
  assumes "length u = length (userName (state (getd s)))"
  shows "\<exists>u'. length u' = length u \<and>
     main_turn E r (rename_server u s)
       = map_option (\<lambda>(a, s'). (a, rename_server u' s')) (main_turn E r s)"
proof (cases "asHeader (nn_recv_into (buffer s) r)")
  case None
  then show ?thesis by (intro exI [of _ u]) (simp add: main_turn_def Let_def)
next
  case (Some h)
  obtain u' where u': "length u' = length u"
    and d: "dispatch E (messageType h) (nn_recv_into (buffer s) r) (rename_user u (getd s))
      = renamed u' (dispatch E (messageType h) (nn_recv_into (buffer s) r) (getd s))"
    using dispatch_rename [OF assms] by blast
  have "main_turn E r (rename_server u s)
       = map_option (\<lambda>(a, s'). (a, rename_server u' s')) (main_turn E r s)"
    using Some d
    by (cases "dispatch E (messageType h) (nn_recv_into (buffer s) r) (getd s)")
       (auto simp: main_turn_def Let_def map_option_of_bind)
  with u' show ?thesis by blast
qed

lemma serve_answers:
  "main_turn E r s = Some (a, s') \<Longrightarrow>
     map_option fst (serve E (r # rs) s)
       = map_option (\<lambda>out. case a of None \<Rightarrow> out | Some x \<Rightarrow> x # out) (map_option fst (serve E rs s'))"
  by (cases "serve E rs s'") (auto simp: split_beta)

text \<open>
  C10. The user name never matters: on any sequence of received messages, the answers of a
  process whose stored user name is replaced by any other of the same size are the same, so
  no answer, and no file that is sent, depends on who the user is.
\<close>

theorem getd_ignores_user_name:
  assumes "server_ok s" and "length u = 33"
  shows "map_option fst (serve E rs (s\<lparr>getd := rename_user u (getd s)\<rparr>)) = map_option fst (serve E rs s)"
  using assms
proof (induction rs arbitrary: s u)
  case Nil
  then show ?case by simp
next
  case (Cons r rs)
  have "length u = length (userName (state (getd s)))"
    using Cons.prems by (simp add: server_ok_def getd_ok_def)
  then obtain u' where u': "length u' = 33"
    and t: "main_turn E r (rename_server u s)
       = map_option (\<lambda>(a, s'). (a, rename_server u' s')) (main_turn E r s)"
    using main_turn_rename [of u s E r] Cons.prems(2) by auto
  show ?case
  proof (cases "main_turn E r s")
    case None
    with t show ?thesis by simp
  next
    case (Some p)
    obtain a s' where p: "main_turn E r s = Some (a, s')" using Some by (cases p) auto
    from p Cons.prems(1) have "server_ok s'" by (rule main_turn_ok)
    with Cons.IH [of s' u'] u' have "map_option fst (serve E rs (rename_server u' s'))
        = map_option fst (serve E rs s')" by simp
    moreover have "main_turn E r (rename_server u s) = Some (a, rename_server u' s')"
      using p t by simp
    ultimately show ?thesis using p by (simp only: serve_answers)
  qed
qed

theorem getd_ignores_user_name_witness:
  "map_option fst (serve demo_env [Some (encode (Hello [97]))] (zero_server\<lparr>getd := rename_user (replicate 33 98) (getd zero_server)\<rparr>))
    = map_option fst (serve demo_env [Some (encode (Hello [97]))] zero_server)"
  by (rule getd_ignores_user_name [OF zero_server_ok]) simp

section \<open>Streams that are never closed\<close>

text \<open>
  One round: a new session and a request for something that is no regular file, under the id
  the session gets. After each round getd is where it was, but for one stream more.
\<close>

definition special_round :: "env \<Rightarrow> byte list \<Rightarrow> nat \<Rightarrow> request list" where
  "special_round E path k = [Hello [], Get (nonzero_prefix (new_sessionId E k)) path]"

fun special_rounds :: "env \<Rightarrow> byte list \<Rightarrow> nat \<Rightarrow> nat \<Rightarrow> request list" where
  "special_rounds E path k 0 = []"
| "special_rounds E path k (Suc n) = special_round E path k @ special_rounds E path (k + 128) n"

lemma new_sid_valid:
  "length (nonzero_prefix (new_sessionId E k)) \<le> 128 \<and> 0 \<notin> set (nonzero_prefix (new_sessionId E k))"
  using cstr_drawn [of E k] by (auto simp: c_cstr_def dest: set_takeWhileD split: if_splits)

lemma special_rounds_valid:
  "0 \<notin> set path \<Longrightarrow> length path \<le> 3854 \<Longrightarrow> \<forall>q \<in> set (special_rounds E path k n). valid_request q"
  by (induction n arbitrary: k) (auto simp: special_round_def new_sid_valid)

lemma special_rounds_open:
  assumes "\<forall>j < L. fopen_at E j path = Some Special"
  shows "sp_phase a = Idle \<or> sp_phase a = Failed \<Longrightarrow> sp_open a + n \<le> L \<Longrightarrow>
     sp_open (snd (spec_run E (special_rounds E path (sp_draws a) n) a)) = sp_open a + n \<and>
     (sp_phase (snd (spec_run E (special_rounds E path (sp_draws a) n) a)) = Idle \<or>
      sp_phase (snd (spec_run E (special_rounds E path (sp_draws a) n) a)) = Failed)"
proof (induction n arbitrary: a)
  case 0
  then show ?case by simp
next
  case (Suc n)
  let ?sid = "nonzero_prefix (new_sessionId E (sp_draws a))"
  let ?a = "a\<lparr>sp_phase := Failed, sp_sid := ?sid, sp_draws := sp_draws a + 128, sp_open := sp_open a + 1\<rparr>"
  have h: "spec_step E (Hello []) a = (Welcome ?sid, a\<lparr>sp_phase := Opened, sp_sid := ?sid, sp_draws := sp_draws a + 128\<rparr>)"
    using Suc.prems by (auto simp: spec_hello_def Let_def)
  have "take 128 ?sid = ?sid" using new_sid_valid by simp
  moreover have "fopen_at E (sp_open a) path = Some Special" using assms Suc.prems by simp
  ultimately have g: "snd (spec_step E (Get ?sid path) (a\<lparr>sp_phase := Opened, sp_sid := ?sid, sp_draws := sp_draws a + 128\<rparr>)) = ?a"
    by (simp add: spec_fail_def)
  have "snd (spec_run E (special_rounds E path (sp_draws a) (Suc n)) a)
      = snd (spec_run E (special_rounds E path (sp_draws ?a) n) ?a)"
    by (simp add: special_round_def h g split_beta Let_def del: spec_step.simps)
  then show ?case using Suc.IH [of ?a] Suc.prems by simp
qed

text \<open>Once \<open>fopen\<close> has nothing left to give, no answer carries file contents and no stream is closed.\<close>

definition is_Data :: "reply \<Rightarrow> bool" where
  "is_Data r = (case r of Data sid bs \<Rightarrow> True | _ \<Rightarrow> False)"

definition starved :: "nat \<Rightarrow> spec \<Rightarrow> bool" where
  "starved L a \<longleftrightarrow> sp_open a = L \<and> (\<forall>f. sp_phase a \<noteq> Sending f)"

lemma starved_step:
  assumes "\<forall>p. fopen_at E L p = None" and "starved L a"
  shows "starved L (snd (spec_step E q a)) \<and> \<not> is_Data (fst (spec_step E q a))"
  using assms
  by (cases q) (auto simp: starved_def is_Data_def spec_hello_def spec_fail_def Let_def split: phase.splits)

lemma starved_run:
  assumes "\<forall>p. fopen_at E L p = None"
  shows "starved L a \<Longrightarrow> starved L (snd (spec_run E qs a)) \<and> (\<forall>r \<in> set (fst (spec_run E qs a)). \<not> is_Data r)"
proof (induction qs arbitrary: a)
  case (Cons q qs)
  then show ?case
    using starved_step [OF assms Cons.prems, of q] Cons.IH [of "snd (spec_step E q a)"]
    by (simp add: split_beta Let_def del: spec_step.simps)
qed simp

lemma starved_serve:
  assumes "\<forall>p. fopen_at E L p = None" and "starved L (abs_getd (getd s))"
    and "server_ok s" and "env_ok E" and "\<forall>q \<in> set qs. valid_request q"
  shows "\<exists>out s'. serve E (map (\<lambda>q. Some (encode q)) qs) s = Some (out, s') \<and>
     openFiles (getd s') = L \<and>
     list_all (\<lambda>ans. \<exists>r. decode_reply (Some ans) = Some r \<and> \<not> is_Data r) out"
proof -
  obtain out s' where run: "serve E (map (\<lambda>q. Some (encode q)) qs) s = Some (out, s')"
    and r: "map (\<lambda>ans. decode_reply (Some ans)) out
       = map Some (filter (\<lambda>r. r \<noteq> Silence) (fst (spec_run E qs (abs_getd (getd s)))))"
    and a: "abs_getd (getd s') = snd (spec_run E qs (abs_getd (getd s)))"
    using serve_refines [OF assms(5,3,4)] by blast
  note st = starved_run [OF assms(1,2), of qs]
  have "openFiles (getd s') = L" using st a by (metis abs_open starved_def)
  moreover have "\<exists>r. decode_reply (Some ans) = Some r \<and> \<not> is_Data r" if "ans \<in> set out" for ans
  proof -
    have "decode_reply (Some ans) \<in> set (map (\<lambda>ans. decode_reply (Some ans)) out)" using that by simp
    then show ?thesis using st unfolding r by auto
  qed
  ultimately show ?thesis using run by (auto simp: list_all_iff)
qed

text \<open>
  C11. Leaked streams: every round of two well-formed requests (a new session, then a request
  for a directory or another special file, refused as such) leaves getd with one open stream
  more, as long as \<open>fopen\<close> gives one, that is while fewer than \<open>L\<close> are open. After the
  round that reaches \<open>L\<close>, where \<open>fopen\<close> fails for every path, no sequence of well-formed
  requests ever makes getd close a stream or send a byte of any file again.
\<close>

theorem getd_leaks_streams:
  assumes "server_ok s" and "env_ok E" and "lastSent (state (getd s)) \<in> {5, 2}"
    and "\<forall>j < L. fopen_at E j path = Some Special" and "\<forall>p. fopen_at E L p = None"
    and "0 \<notin> set path" and "length path \<le> 3854" and "openFiles (getd s) + n \<le> L"
  shows "\<exists>out s'. serve E (map (\<lambda>q. Some (encode q)) (special_rounds E path (randCalls (getd s)) n)) s
       = Some (out, s') \<and> openFiles (getd s') = openFiles (getd s) + n \<and>
     (openFiles (getd s) + n = L \<longrightarrow> (\<forall>qs. list_all valid_request qs \<longrightarrow>
        (\<exists>out' s''. serve E (map (\<lambda>q. Some (encode q)) qs) s' = Some (out', s'') \<and>
           openFiles (getd s'') = L \<and>
           list_all (\<lambda>ans. \<exists>r. decode_reply (Some ans) = Some r \<and> \<not> is_Data r) out')))"
proof -
  let ?qs = "special_rounds E path (randCalls (getd s)) n"
  have "sp_phase (abs_getd (getd s)) = Idle \<or> sp_phase (abs_getd (getd s)) = Failed"
    using assms(3) by (auto simp: phase_of_def)
  note o = special_rounds_open [OF assms(4) this, of n]
  obtain out s' where run: "serve E (map (\<lambda>q. Some (encode q)) ?qs) s = Some (out, s')" and ok: "server_ok s'"
    and a: "abs_getd (getd s') = snd (spec_run E ?qs (abs_getd (getd s)))"
    using serve_refines [OF special_rounds_valid [OF assms(6,7)] assms(1,2)] by blast
  have open_: "openFiles (getd s') = openFiles (getd s) + n"
    and ph: "\<forall>f. sp_phase (abs_getd (getd s')) \<noteq> Sending f"
    using o assms(8) a by (metis abs_open abs_draws, metis abs_open abs_draws phase.distinct(3) phase.distinct(11))
  have "starved L (abs_getd (getd s'))" if "openFiles (getd s) + n = L"
    using that open_ ph by (simp add: starved_def)
  then show ?thesis
    using run open_ starved_serve [OF assms(5) _ ok assms(2)] by (auto simp: list_all_iff)
qed

theorem getd_leaks_streams_witness:
  "\<exists>out s'. serve demo_env (map (\<lambda>q. Some (encode q)) (special_rounds demo_env [47] (randCalls (getd zero_server)) 1000)) zero_server
       = Some (out, s') \<and> openFiles (getd s') = openFiles (getd zero_server) + 1000 \<and>
     (\<exists>out' s''. serve demo_env (map (\<lambda>q. Some (encode q)) [Hello [97]]) s' = Some (out', s'') \<and>
           openFiles (getd s'') = 1000 \<and>
           list_all (\<lambda>ans. \<exists>r. decode_reply (Some ans) = Some r \<and> \<not> is_Data r) out')"
proof -
  have L: "openFiles (getd zero_server) + 1000 = 1000" and l: "lastSent (state (getd zero_server)) \<in> {5, 2}"
    by (simp_all add: zero_server_def main_start_def)
  have f: "\<forall>j < 1000. fopen_at demo_env j [47] = Some Special" "\<forall>p. fopen_at demo_env 1000 p = None"
    by (simp_all add: demo_env_def)
  have v: "list_all valid_request [Hello [97]]" by simp
  show ?thesis
    using getd_leaks_streams [OF zero_server_ok demo_env_ok l f _ _ eq_refl [OF L]] L v by fastforce
qed

section \<open>Session identifiers\<close>

lemma terminated_zero: "0 \<notin> set l \<Longrightarrow> i \<le> length l \<Longrightarrow> (l @ [0]) ! i = 0 \<longleftrightarrow> i = length l"
  by (auto simp: nth_append in_set_conv_nth)

lemma possibleChars_zero:
  assumes "i \<le> 62"
  shows "possibleChars ! i = 0 \<longleftrightarrow> i = 62"
proof -
  have len: "length (bytes_of ''0123456789abcdefghijklmnopqrstuvwxyzABCDEFGHIJKLMNOPQRSTUVWXYZ'') = 62" by (simp add: bytes_of_def)
  have nz: "0 \<notin> set (bytes_of ''0123456789abcdefghijklmnopqrstuvwxyzABCDEFGHIJKLMNOPQRSTUVWXYZ'')" by (simp add: bytes_of_def)
  from terminated_zero [OF nz, of i] assms show ?thesis
    unfolding possibleChars_def lit_def len by blast
qed

text \<open>
  C5. The loop that makes a session id fills the first 128 bytes with characters of
  \<open>possibleChars\<close> and never leaves that array; but the draw \<open>RAND_MAX\<close> selects the
  terminator of the literal, so the id is a string of 128 alphanumeric characters exactly
  if no draw is \<open>RAND_MAX\<close>.
\<close>

theorem session_id_fill:
  assumes "env_ok E" and "length sid = 129"
  shows "\<exists>s. fill_sessionId (rand_at E) k 128 sid = Some (s, k + 128) \<and> length s = 129 \<and>
     set (take 128 s) \<subseteq> set possibleChars \<and> s ! 128 = sid ! 128 \<and>
     (0 \<in> set (take 128 s) \<longleftrightarrow> (\<exists>j < 128. rand_at E (k + j) = RAND_MAX))"
proof -
  let ?d = "drawn (rand_at E) k 128"
  have le: "rand_at E j \<le> RAND_MAX" for j using assms(1) by (simp add: env_ok_def)
  have f: "fill_sessionId (rand_at E) k 128 sid = Some (?d @ drop 128 sid, k + 128)"
    using assms(2) le by (intro fill_sessionId_eq) simp_all
  have set_d: "set ?d = (\<lambda>j. possibleChars ! rand_index (rand_at E (k + j))) ` {0..<128}"
    by (simp only: drawn_def set_rev set_map set_upt)
  have "set ?d \<subseteq> set possibleChars"
    unfolding set_d using rand_index_le [OF le]
    by (auto intro!: nth_mem simp: le_imp_less_Suc numeral_eq_Suc)
  moreover have "0 \<in> set ?d \<longleftrightarrow> (\<exists>j < 128. rand_at E (k + j) = RAND_MAX)"
  proof -
    have "possibleChars ! rand_index (rand_at E j) = 0 \<longleftrightarrow> rand_at E j = RAND_MAX" for j
      using possibleChars_zero [OF rand_index_le [OF le]] rand_index_lt [of "rand_at E j"] le [of j]
        rand_index_max by (metis le_neq_implies_less less_irrefl)
    then show ?thesis unfolding set_d by force
  qed
  ultimately show ?thesis using f assms(2) by (auto simp: nth_append)
qed

theorem session_id_fill_witness:
  "\<exists>s. fill_sessionId (rand_at demo_env) 0 128 (replicate 129 0) = Some (s, 0 + 128) \<and> length s = 129 \<and>
     set (take 128 s) \<subseteq> set possibleChars \<and> s ! 128 = replicate 129 0 ! 128 \<and>
     (0 \<in> set (take 128 s) \<longleftrightarrow> (\<exists>j < 128. rand_at demo_env (0 + j) = RAND_MAX))"
  by (rule session_id_fill [OF demo_env_ok]) simp

end
