(* ===== verification/NN_Wire.thy ===== *)
theory NN_Wire
  imports Getd_Prelude
begin

text \<open>
  \<open>utils/wire.c\<close> of nanomsg: integers in network byte order, written into and read from an object
  at an offset. \<open>None\<close> is an access outside the object.
\<close>

unbundle bit_operations_syntax

type_synonym u16 = "16 word"

section \<open>The code\<close>

definition nn_gets :: "byte list \<Rightarrow> nat \<Rightarrow> u16 option" where
  "nn_gets buf p = do {
     b0 \<leftarrow> peek buf p; b1 \<leftarrow> peek buf (p + 1);
     Some (push_bit 8 (ucast b0) OR ucast b1) }"

definition nn_puts :: "byte list \<Rightarrow> nat \<Rightarrow> u16 \<Rightarrow> byte list option" where
  "nn_puts buf p v = do {
     buf \<leftarrow> poke buf p [ucast (drop_bit 8 v AND 0xff)];
     poke buf (p + 1) [ucast (v AND 0xff)] }"

definition nn_getl :: "byte list \<Rightarrow> nat \<Rightarrow> u32 option" where
  "nn_getl buf p = do {
     b0 \<leftarrow> peek buf p; b1 \<leftarrow> peek buf (p + 1); b2 \<leftarrow> peek buf (p + 2); b3 \<leftarrow> peek buf (p + 3);
     Some (push_bit 24 (ucast b0) OR push_bit 16 (ucast b1) OR push_bit 8 (ucast b2) OR ucast b3) }"

definition nn_putl :: "byte list \<Rightarrow> nat \<Rightarrow> u32 \<Rightarrow> byte list option" where
  "nn_putl buf p v = do {
     buf \<leftarrow> poke buf p [ucast (drop_bit 24 v AND 0xff)];
     buf \<leftarrow> poke buf (p + 1) [ucast (drop_bit 16 v AND 0xff)];
     buf \<leftarrow> poke buf (p + 2) [ucast (drop_bit 8 v AND 0xff)];
     poke buf (p + 3) [ucast (v AND 0xff)] }"

definition nn_getll :: "byte list \<Rightarrow> nat \<Rightarrow> u64 option" where
  "nn_getll buf p = do {
     b0 \<leftarrow> peek buf p; b1 \<leftarrow> peek buf (p + 1); b2 \<leftarrow> peek buf (p + 2); b3 \<leftarrow> peek buf (p + 3);
     b4 \<leftarrow> peek buf (p + 4); b5 \<leftarrow> peek buf (p + 5); b6 \<leftarrow> peek buf (p + 6); b7 \<leftarrow> peek buf (p + 7);
     Some (push_bit 56 (ucast b0) OR push_bit 48 (ucast b1) OR push_bit 40 (ucast b2)
       OR push_bit 32 (ucast b3) OR push_bit 24 (ucast b4) OR push_bit 16 (ucast b5)
       OR push_bit 8 (ucast b6) OR push_bit 0 (ucast b7)) }"

definition nn_putll :: "byte list \<Rightarrow> nat \<Rightarrow> u64 \<Rightarrow> byte list option" where
  "nn_putll buf p v = do {
     buf \<leftarrow> poke buf p [ucast (drop_bit 56 v AND 0xff)];
     buf \<leftarrow> poke buf (p + 1) [ucast (drop_bit 48 v AND 0xff)];
     buf \<leftarrow> poke buf (p + 2) [ucast (drop_bit 40 v AND 0xff)];
     buf \<leftarrow> poke buf (p + 3) [ucast (drop_bit 32 v AND 0xff)];
     buf \<leftarrow> poke buf (p + 4) [ucast (drop_bit 24 v AND 0xff)];
     buf \<leftarrow> poke buf (p + 5) [ucast (drop_bit 16 v AND 0xff)];
     buf \<leftarrow> poke buf (p + 6) [ucast (drop_bit 8 v AND 0xff)];
     poke buf (p + 7) [ucast (v AND 0xff)] }"

section \<open>The encoding\<close>

lemma ucast_and_ff [simp]: "(ucast (x AND 0xff) :: byte) = (ucast x :: byte)" for x :: "'a::len word"
proof (rule bit_word_eqI)
  fix n :: nat
  assume "n < LENGTH(8)"
  moreover have "bit (0xff :: 'a word) n \<longleftrightarrow> n < LENGTH('a) \<and> n < 8"
    using bit_mask_iff [where ?'a = "'a word", of 8 n] by (simp add: mask_eq_exp_minus_1)
  ultimately show "bit (ucast (x AND 0xff) :: byte) n = bit (ucast x :: byte) n"
    by (auto simp: bit_simps dest: bit_imp_le_length)
qed

definition bytes2 :: "u16 \<Rightarrow> byte list" where
  "bytes2 v = [ucast (drop_bit 8 v), ucast v]"

definition bytes4 :: "u32 \<Rightarrow> byte list" where
  "bytes4 v = [ucast (drop_bit 24 v), ucast (drop_bit 16 v), ucast (drop_bit 8 v), ucast v]"

definition bytes8 :: "u64 \<Rightarrow> byte list" where
  "bytes8 v = [ucast (drop_bit 56 v), ucast (drop_bit 48 v), ucast (drop_bit 40 v),
     ucast (drop_bit 32 v), ucast (drop_bit 24 v), ucast (drop_bit 16 v), ucast (drop_bit 8 v),
     ucast v]"

lemma length_bytes [simp]: "length (bytes2 v) = 2" "length (bytes4 w) = 4" "length (bytes8 x) = 8"
  by (simp_all add: bytes2_def bytes4_def bytes8_def)

text \<open>Writing byte by byte is writing the sequence.\<close>

lemma poke_poke:
  "Option.bind (poke m p [a]) (\<lambda>m. poke m (Suc p) bs) = poke m p (a # bs)"
proof (cases "p < length m")
  case True
  have "overwrite (overwrite m p [a]) (Suc p) bs = overwrite m p (a # bs)"
    using True by (simp add: overwrite_def min_def add.commute)
  with True show ?thesis by (auto simp: poke_def length_overwrite)
qed (simp add: poke_def)

lemma nn_puts_eq [byte_order]: "nn_puts m p v = poke m p (bytes2 v)"
  by (simp add: nn_puts_def bytes2_def poke_poke)

lemma nn_putl_eq [byte_order]: "nn_putl m p v = poke m p (bytes4 v)"
  by (simp add: nn_putl_def bytes4_def poke_poke numeral_eq_Suc)

lemma nn_putll_eq [byte_order]: "nn_putll m p v = poke m p (bytes8 v)"
  by (simp add: nn_putll_def bytes8_def poke_poke numeral_eq_Suc)

text \<open>Reading is decoding the bytes there.\<close>

fun dec2 :: "byte list \<Rightarrow> u16" where
  "dec2 [b0, b1] = push_bit 8 (ucast b0) OR ucast b1"
| "dec2 _ = 0"

fun dec4 :: "byte list \<Rightarrow> u32" where
  "dec4 [b0, b1, b2, b3] =
     push_bit 24 (ucast b0) OR push_bit 16 (ucast b1) OR push_bit 8 (ucast b2) OR ucast b3"
| "dec4 _ = 0"

fun dec8 :: "byte list \<Rightarrow> u64" where
  "dec8 [b0, b1, b2, b3, b4, b5, b6, b7] =
     push_bit 56 (ucast b0) OR push_bit 48 (ucast b1) OR push_bit 40 (ucast b2)
       OR push_bit 32 (ucast b3) OR push_bit 24 (ucast b4) OR push_bit 16 (ucast b5)
       OR push_bit 8 (ucast b6) OR ucast b7"
| "dec8 _ = 0"

lemma slice_Suc: "p < length m \<Longrightarrow> slice p (Suc n) m = m ! p # slice (Suc p) n m"
  by (simp add: slice_def Cons_nth_drop_Suc [symmetric])

lemma slice_zero [simp]: "slice p 0 m = []"
  by (simp add: slice_def)

lemma nn_gets_eq [byte_order]:
  "nn_gets m p = (if p + 2 \<le> length m then Some (dec2 (slice p 2 m)) else None)"
  by (auto simp: nn_gets_def peek_def numeral_eq_Suc slice_Suc)

lemma nn_getl_eq [byte_order]:
  "nn_getl m p = (if p + 4 \<le> length m then Some (dec4 (slice p 4 m)) else None)"
  by (auto simp: nn_getl_def peek_def numeral_eq_Suc slice_Suc)

lemma nn_getll_eq [byte_order]:
  "nn_getll m p = (if p + 8 \<le> length m then Some (dec8 (slice p 8 m)) else None)"
  by (auto simp: nn_getll_def peek_def numeral_eq_Suc slice_Suc)


lemma byte_bit_le: "bit (b :: byte) n \<Longrightarrow> n < 8"
  by (auto dest: bit_imp_le_length)

lemma dec2_bytes2 [byte_order]: "dec2 (bytes2 v) = v"
proof (rule bit_word_eqI)
  fix n :: nat
  assume "n < LENGTH(16)"
  then show "bit (dec2 (bytes2 v)) n = bit v n"
    by (cases "n < 8") (auto simp: bytes2_def bit_simps)
qed

lemma dec4_bytes4 [byte_order]: "dec4 (bytes4 v) = v"
proof (rule bit_word_eqI)
  fix n :: nat
  assume "n < LENGTH(32)"
  then show "bit (dec4 (bytes4 v)) n = bit v n"
    by (cases "n < 8"; cases "n < 16"; cases "n < 24") (auto simp: bytes4_def bit_simps)
qed

lemma dec8_bytes8 [byte_order]: "dec8 (bytes8 v) = v"
proof (rule bit_word_eqI)
  fix n :: nat
  assume "n < LENGTH(64)"
  then consider "n < 8" | "8 \<le> n \<and> n < 16" | "16 \<le> n \<and> n < 24" | "24 \<le> n \<and> n < 32"
    | "32 \<le> n \<and> n < 40" | "40 \<le> n \<and> n < 48" | "48 \<le> n \<and> n < 56" | "56 \<le> n \<and> n < 64"
    by fastforce
  then show "bit (dec8 (bytes8 v)) n = bit v n"
    by cases (auto simp: bytes8_def bit_simps)
qed

lemma bytes2_dec2: "length bs = 2 \<Longrightarrow> bytes2 (dec2 bs) = bs"
proof -
  assume "length bs = 2"
  then obtain b0 b1 where bs: "bs = [b0, b1]" by (auto simp: length_Suc_conv numeral_eq_Suc)
  have "ucast (drop_bit 8 (dec2 bs)) = b0" "ucast (dec2 bs) = b1"
    by (rule bit_word_eqI, auto simp: bs bit_simps dest: byte_bit_le)+
  then show ?thesis by (simp add: bytes2_def bs)
qed

lemma bytes4_dec4: "length bs = 4 \<Longrightarrow> bytes4 (dec4 bs) = bs"
proof -
  assume "length bs = 4"
  then obtain b0 b1 b2 b3 where bs: "bs = [b0, b1, b2, b3]" by (auto simp: length_Suc_conv numeral_eq_Suc)
  have "ucast (drop_bit 24 (dec4 bs)) = b0" "ucast (drop_bit 16 (dec4 bs)) = b1" "ucast (drop_bit 8 (dec4 bs)) = b2" "ucast (dec4 bs) = b3"
    by (rule bit_word_eqI, auto simp: bs bit_simps dest: byte_bit_le)+
  then show ?thesis by (simp add: bytes4_def bs)
qed

lemma bytes8_dec8: "length bs = 8 \<Longrightarrow> bytes8 (dec8 bs) = bs"
proof -
  assume "length bs = 8"
  then obtain b0 b1 b2 b3 b4 b5 b6 b7 where bs: "bs = [b0, b1, b2, b3, b4, b5, b6, b7]"
    by (auto simp: length_Suc_conv numeral_eq_Suc)
  have "ucast (drop_bit 56 (dec8 bs)) = b0" "ucast (drop_bit 48 (dec8 bs)) = b1" "ucast (drop_bit 40 (dec8 bs)) = b2"
    "ucast (drop_bit 32 (dec8 bs)) = b3" "ucast (drop_bit 24 (dec8 bs)) = b4" "ucast (drop_bit 16 (dec8 bs)) = b5"
    "ucast (drop_bit 8 (dec8 bs)) = b6" "ucast (dec8 bs) = b7"
    by (rule bit_word_eqI, auto simp: bs bit_simps dest: byte_bit_le)+
  then show ?thesis by (simp add: bytes8_def bs)
qed

lemma byte_word_of_div: "(ucast (drop_bit k v) :: byte) = word_of_nat (unat v div 2 ^ k)"
  for v :: "'a::len word"
proof -
  have "unat (drop_bit k v) = drop_bit k (unat v)" 
    by (simp add: unsigned_drop_bit_eq take_bit_nat_eq_self [OF unsigned_less])
  then have "unat (drop_bit k v) = unat v div 2 ^ k" by (simp only: drop_bit_eq_div)
  moreover have "(ucast (drop_bit k v) :: byte) = word_of_nat (unat (drop_bit k v))" by simp
  ultimately show ?thesis by (simp only:)
qed

lemma byte_word_of_0: "(ucast v :: byte) = word_of_nat (unat v)" for v :: "'a::len word"
  using byte_word_of_div [of 0 v] by simp

lemma le_bytes_2: "le_bytes 2 n = [word_of_nat n, word_of_nat (n div 2 ^ 8)]"
proof -
  have two: "(2 :: nat) = Suc (Suc 0)" by simp
  show ?thesis by (subst two) simp
qed

lemma le_bytes_add: "le_bytes (j + k) n = le_bytes j n @ le_bytes k (n div 256 ^ j)"
  by (induction j arbitrary: n) (simp_all add: div_mult2_eq)

lemma le_bytes_4: "le_bytes 4 n = [word_of_nat n, word_of_nat (n div 2 ^ 8),
    word_of_nat (n div 2 ^ 16), word_of_nat (n div 2 ^ 24)]"
  using le_bytes_add [of 2 2 n] by (simp add: le_bytes_2 flip: div_mult2_eq)

lemma le_bytes_8: "le_bytes 8 n = [word_of_nat n, word_of_nat (n div 2 ^ 8),
    word_of_nat (n div 2 ^ 16), word_of_nat (n div 2 ^ 24), word_of_nat (n div 2 ^ 32),
    word_of_nat (n div 2 ^ 40), word_of_nat (n div 2 ^ 48), word_of_nat (n div 2 ^ 56)]"
  using le_bytes_add [of 4 4 n] by (simp add: le_bytes_4 flip: div_mult2_eq)

text \<open>The bytes are those of the number, most significant first.\<close>

lemma bytes2_be: "bytes2 v = be_bytes 2 (unat v)"
  by (simp only: bytes2_def be_bytes_def le_bytes_2 byte_word_of_div
      byte_word_of_0 [of v] rev.simps append.simps)

lemma bytes4_be: "bytes4 v = be_bytes 4 (unat v)"
  by (simp only: bytes4_def be_bytes_def le_bytes_4 byte_word_of_div
      byte_word_of_0 [of v] rev.simps append.simps)

lemma bytes8_be: "bytes8 v = be_bytes 8 (unat v)"
  by (simp only: bytes8_def be_bytes_def le_bytes_8 byte_word_of_div
      byte_word_of_0 [of v] rev.simps append.simps)

section \<open>The interface of a codec\<close>

text \<open>
  What the protocols rely on: a value written at an offset is read back from there, writes
  elsewhere do not change it, and only the bytes of the value change.
\<close>

locale wire_codec =
  fixes n :: nat
    and put :: "byte list \<Rightarrow> nat \<Rightarrow> 'v \<Rightarrow> byte list option"
    and get :: "byte list \<Rightarrow> nat \<Rightarrow> 'v option"
    and enc :: "'v \<Rightarrow> byte list"
    and dec :: "byte list \<Rightarrow> 'v"
  assumes put_law: "put m p v = poke m p (enc v)"
    and get_law: "get m p = (if p + n \<le> length m then Some (dec (slice p n m)) else None)"
    and len_law: "length (enc v) = n"
    and dec_law: "dec (enc v) = v"
    and enc_law: "length bs = n \<Longrightarrow> enc (dec bs) = bs"
begin

lemma get_put: "put m p v = Some m' \<Longrightarrow> get m' p = Some v"
  by (auto simp: put_law get_law poke_eq_Some len_law dec_law length_overwrite slice_overwrite_same)

lemma get_put_other:
  "put m p v = Some m' \<Longrightarrow> q + n \<le> p \<or> p + n \<le> q \<Longrightarrow> get m' q = get m q"
  by (auto simp: put_law get_law poke_eq_Some len_law length_overwrite slice_overwrite_before
      slice_overwrite_after)

lemma put_get:
  assumes "get m p = Some v"
  shows "put m p v = Some m"
proof -
  have l: "p + n \<le> length m" "v = dec (slice p n m)" using assms by (auto simp: get_law split: if_splits)
  have "take p m @ take n (drop p m) @ drop (p + n) m = m"
    by (metis append.assoc append_take_drop_id take_add)
  with l show ?thesis by (simp add: put_law enc_law poke_def overwrite_def slice_def)
qed

lemma codec:
  "if p + n \<le> length m
   then put m p v = Some (overwrite m p (enc v)) \<and> get (overwrite m p (enc v)) p = Some v
     \<and> (\<exists>r. get m p = Some r \<and> put m p r = Some m)
   else put m p v = None \<and> get m p = None"
proof (cases "p + n \<le> length m")
  case True
  then have put: "put m p v = Some (overwrite m p (enc v))" by (simp add: put_law poke_def len_law)
  have "\<exists>r. get m p = Some r" using True by (simp add: get_law)
  with put_get get_put [OF put] put True show ?thesis by auto
qed (simp add: put_law get_law poke_def len_law)

lemma put_defined: "put m p v \<noteq> None \<longleftrightarrow> p + n \<le> length m"
  by (simp add: put_law poke_def len_law)

lemma put_frame:
  "put m p v = Some m' \<Longrightarrow> length m' = length m \<and> take p m' = take p m
     \<and> drop (p + n) m' = drop (p + n) m"
  by (auto simp: put_law poke_eq_Some len_law length_overwrite take_overwrite drop_overwrite_after)

end

interpretation wire16: wire_codec 2 nn_puts nn_gets bytes2 dec2
  by unfold_locales (simp_all add: nn_puts_eq nn_gets_eq dec2_bytes2 bytes2_dec2)

interpretation wire32: wire_codec 4 nn_putl nn_getl bytes4 dec4
  by unfold_locales (simp_all add: nn_putl_eq nn_getl_eq dec4_bytes4 bytes4_dec4)

interpretation wire64: wire_codec 8 nn_putll nn_getll bytes8 dec8
  by unfold_locales (simp_all add: nn_putll_eq nn_getll_eq dec8_bytes8 bytes8_dec8)

section \<open>Properties\<close>

text \<open>C23. The six routines are inverse in pairs and in network byte order at every width. When the 2, 4
  or 8 bytes are inside the object, a put stores the big-endian digits of the value there and changes
  nothing else, the get at the same place returns the value, and putting back what a get has read
  changes nothing; when one of these bytes is outside, both touch memory that is not the object's.\<close>

theorem wire_round_trip:
  "(if p + 2 \<le> length m
    then nn_puts m p (v :: u16) = Some (overwrite m p (be_bytes 2 (unat v)))
      \<and> nn_gets (overwrite m p (be_bytes 2 (unat v))) p = Some v
      \<and> (\<exists>r. nn_gets m p = Some r \<and> nn_puts m p r = Some m)
    else nn_puts m p v = None \<and> nn_gets m p = None)
   \<and> (if p + 4 \<le> length m
    then nn_putl m p (w :: u32) = Some (overwrite m p (be_bytes 4 (unat w)))
      \<and> nn_getl (overwrite m p (be_bytes 4 (unat w))) p = Some w
      \<and> (\<exists>r. nn_getl m p = Some r \<and> nn_putl m p r = Some m)
    else nn_putl m p w = None \<and> nn_getl m p = None)
   \<and> (if p + 8 \<le> length m
    then nn_putll m p (x :: u64) = Some (overwrite m p (be_bytes 8 (unat x)))
      \<and> nn_getll (overwrite m p (be_bytes 8 (unat x))) p = Some x
      \<and> (\<exists>r. nn_getll m p = Some r \<and> nn_putll m p r = Some m)
    else nn_putll m p x = None \<and> nn_getll m p = None)"
  using wire16.codec [of p m v] wire32.codec [of p m w] wire64.codec [of p m x]
  by (simp only: bytes2_be bytes4_be bytes8_be)

theorem wire_round_trip_witness:
  "nn_puts [9, 9, 9] 1 0x1234 = Some (overwrite [9, 9, 9] 1 (be_bytes 2 (unat (0x1234 :: u16))))
    \<and> nn_gets (overwrite [9, 9, 9] 1 (be_bytes 2 (unat (0x1234 :: u16)))) 1 = Some 0x1234
    \<and> nn_putl [9, 9, 9] 1 0x80000001 = None"
  using wire_round_trip [of 1 "[9, 9, 9]" "0x1234" "0x80000001"] by simp

end
