(* ===== verification/NN_Errno.thy ===== *)
theory NN_Errno
  imports Main
begin

text \<open>
  The error numbers the code returns, with their values on Linux. Where the platform has none of
  its own, nanomsg defines one in \<open>nn.h\<close>. A function returns them negated.
\<close>

definition EAGAIN :: int where "EAGAIN = 11"
definition ENOMEM :: int where "ENOMEM = 12"
definition EINVAL :: int where "EINVAL = 22"
definition ENOPROTOOPT :: int where "ENOPROTOOPT = 92"
definition EISCONN :: int where "EISCONN = 106"
definition ETIMEDOUT :: int where "ETIMEDOUT = 110"
definition EFSM :: int where "EFSM = 156384712 + 54"

lemmas errno_defs = EAGAIN_def ENOMEM_def EINVAL_def ENOPROTOOPT_def EISCONN_def ETIMEDOUT_def EFSM_def

lemma EAGAIN_pos [simp]: "EAGAIN \<noteq> 0" "- EAGAIN \<noteq> 0" "- EAGAIN < 0" "\<not> 0 \<le> - EAGAIN"
  by (simp_all add: EAGAIN_def)

end
