(* ===== verification/NN_Chunk.thy ===== *)
theory NN_Chunk
  imports NN_Wire NN_Errno
begin

text \<open>
  \<open>utils/chunk.c\<close> of nanomsg: reference-counted message chunks. A block of the heap is the header
  \<open>struct nn_chunk\<close> and the bytes that follow it (the empty space, its size, the tag and the
  message). A pointer to a chunk is the block and the offset of the message in those bytes.
  \<open>None\<close> is a failed assertion or an access outside a live block. What \<open>malloc\<close> answers and what
  fresh memory holds are parameters (\<open>malloc_env\<close>). The deallocation function is the only one the
  code installs, \<open>nn_chunk_default_free\<close>.
\<close>

section \<open>The code\<close>

record nn_chunk =
  refcount :: u32
  csize :: u64
  area :: "byte list"

record chunk_mem =
  blocks :: "nat \<Rightarrow> nn_chunk option"
  allocs :: nat

record malloc_env =
  malloc_ok :: "nat \<Rightarrow> bool"
  malloc_junk :: "nat \<Rightarrow> nat \<Rightarrow> byte"

type_synonym chunk_ptr = "nat \<times> nat"

definition NN_CHUNK_TAG :: u32 where "NN_CHUNK_TAG = 0xdeadcafe"
definition NN_CHUNK_TAG_DEALLOCATED :: u32 where "NN_CHUNK_TAG_DEALLOCATED = 0xbeadfeed"

text \<open>\<open>sizeof (struct nn_chunk)\<close>: a 32-bit counter, padding, a \<open>size_t\<close> and a function pointer.\<close>

definition sizeof_nn_chunk :: nat where "sizeof_nn_chunk = 24"

definition nn_chunk_hdrsize :: u64 where
  "nn_chunk_hdrsize = word_of_nat (sizeof_nn_chunk + 2 * 4)"

text \<open>Offsets count from the end of the header; the data of a fresh chunk is at 8.\<close>

definition nn_chunk_getdata :: nat where "nn_chunk_getdata = 2 * 4"

definition nn_chunk_getptr :: "chunk_mem \<Rightarrow> chunk_ptr \<Rightarrow> nn_chunk option" where
  "nn_chunk_getptr h p = do {
     b \<leftarrow> blocks h (fst p);
     if snd p < 8 then None else do {
       tag \<leftarrow> nn_getl (area b) (snd p - 4);
       if tag \<noteq> NN_CHUNK_TAG then None else do {
         off \<leftarrow> nn_getl (area b) (snd p - 8);
         if snd p = 8 + unat off then Some b else None } } }"

definition set_block :: "chunk_mem \<Rightarrow> chunk_ptr \<Rightarrow> nn_chunk \<Rightarrow> chunk_mem" where
  "set_block h p b = h\<lparr>blocks := (blocks h)(fst p \<mapsto> b)\<rparr>"

definition nn_chunk_alloc ::
  "malloc_env \<Rightarrow> u64 \<Rightarrow> nat \<Rightarrow> chunk_mem \<Rightarrow> (int \<times> chunk_ptr option \<times> chunk_mem) option" where
  "nn_chunk_alloc E len type h = (
     let sz = nn_chunk_hdrsize + len in
     if sz < nn_chunk_hdrsize then Some (- ENOMEM, None, h)
     else if type \<noteq> 0 then Some (- EINVAL, None, h)
     else (
       let k = allocs h; h = h\<lparr>allocs := k + 1\<rparr> in
       if \<not> malloc_ok E k then Some (- ENOMEM, None, h)
       else do {
         let m = map (malloc_junk E k) [0..<unat sz - sizeof_nn_chunk];
         m \<leftarrow> nn_putl m 0 0;
         m \<leftarrow> nn_putl m 4 NN_CHUNK_TAG;
         Some (0, Some (k, nn_chunk_getdata),
           set_block h (k, 0) \<lparr>refcount = 1, csize = len, area = m\<rparr>) }))"

definition nn_chunk_free :: "chunk_mem \<Rightarrow> chunk_ptr \<Rightarrow> chunk_mem option" where
  "nn_chunk_free h p = do {
     self \<leftarrow> nn_chunk_getptr h p;
     let old = refcount self;
     let self = self\<lparr>refcount := old - 1\<rparr>;
     if old \<le> 1 then do {
       _ \<leftarrow> nn_putl (area self) (snd p - 4) NN_CHUNK_TAG_DEALLOCATED;
       Some (h\<lparr>blocks := (blocks h)(fst p := None)\<rparr>) }
     else Some (set_block h p self) }"

definition nn_chunk_addref :: "chunk_mem \<Rightarrow> chunk_ptr \<Rightarrow> u32 \<Rightarrow> chunk_mem option" where
  "nn_chunk_addref h p n = do {
     self \<leftarrow> nn_chunk_getptr h p;
     Some (set_block h p (self\<lparr>refcount := refcount self + n\<rparr>)) }"

definition nn_chunk_size :: "chunk_mem \<Rightarrow> chunk_ptr \<Rightarrow> u64 option" where
  "nn_chunk_size h p = map_option csize (nn_chunk_getptr h p)"

text \<open>The part of \<open>nn_chunk_realloc\<close> that grows an unshared chunk into its empty space.\<close>

definition grow_into_empty :: "chunk_mem \<Rightarrow> chunk_ptr \<Rightarrow> nn_chunk \<Rightarrow> u64 \<Rightarrow> (int \<times> chunk_ptr \<times> chunk_mem) option" where
  "grow_into_empty h p self len = do {
     let new_ptr = snd p - unat (len - csize self);
     m \<leftarrow> (if snd p + unat (csize self) \<le> length (area self)
          then poke (area self) new_ptr (slice (snd p) (unat (csize self)) (area self)) else None);
     m \<leftarrow> nn_putl m (new_ptr - 4) NN_CHUNK_TAG;
     m \<leftarrow> nn_putl m (new_ptr - 8) (word_of_nat (new_ptr - 8));
     Some (0, p, set_block h p (self\<lparr>csize := len, area := m\<rparr>)) }"

definition nn_chunk_realloc ::
  "malloc_env \<Rightarrow> u64 \<Rightarrow> chunk_ptr \<Rightarrow> chunk_mem \<Rightarrow> (int \<times> chunk_ptr \<times> chunk_mem) option" where
  "nn_chunk_realloc E len p h = do {
     self \<leftarrow> nn_chunk_getptr h p;
     if refcount self = 1 \<and> len \<le> csize self
     then Some (0, p, set_block h p (self\<lparr>csize := len\<rparr>))
     else if refcount self = 1 \<and> nn_chunk_hdrsize + len < len then Some (- ENOMEM, p, h)
     else if refcount self = 1 \<and> unat (len - csize self) \<le> snd p - 8
     then grow_into_empty h p self len
     else do {
       (rc, q, h) \<leftarrow> nn_chunk_alloc E len 0 h;
       if rc \<noteq> 0 then Some (rc, p, h)
       else do {
         q \<leftarrow> q;
         new \<leftarrow> blocks h (fst q);
         m \<leftarrow> (if nn_chunk_getdata + unat (csize self) \<le> length (area self)
              then poke (area new) (snd q) (slice nn_chunk_getdata (unat (csize self)) (area self))
              else None);
         let h = set_block h q (new\<lparr>area := m\<rparr>);
         h \<leftarrow> nn_chunk_free h p;
         Some (0, q, h) } } }"

definition nn_chunk_trim :: "chunk_mem \<Rightarrow> chunk_ptr \<Rightarrow> u64 \<Rightarrow> (chunk_ptr \<times> chunk_mem) option" where
  "nn_chunk_trim h p n = do {
     self \<leftarrow> nn_chunk_getptr h p;
     if csize self < n then None else do {
       let q = snd p + unat n;
       m \<leftarrow> nn_putl (area self) (q - 4) NN_CHUNK_TAG;
       let empty_space = q - 8;
       if 4294967295 \<le> empty_space then None else do {
         m \<leftarrow> nn_putl m (q - 8) (word_of_nat empty_space);
         Some ((fst p, q), set_block h p (self\<lparr>area := m, csize := csize self - n\<rparr>)) } } }"

section \<open>Live chunks\<close>

text \<open>
  \<open>valid_chunk h p b\<close>: \<open>p\<close> points at the message of the live block \<open>b\<close>, with its tag and the len
  of the empty space in front of it and the whole message inside the block.
\<close>

definition valid_chunk :: "chunk_mem \<Rightarrow> chunk_ptr \<Rightarrow> nn_chunk \<Rightarrow> bool" where
  "valid_chunk h p b \<longleftrightarrow> blocks h (fst p) = Some b \<and> 8 \<le> snd p
     \<and> snd p + unat (csize b) \<le> length (area b)
     \<and> nn_getl (area b) (snd p - 4) = Some NN_CHUNK_TAG
     \<and> nn_getl (area b) (snd p - 8) = Some (word_of_nat (snd p - 8)) \<and> snd p - 8 < 4294967296"

definition chunk_bytes :: "nn_chunk \<Rightarrow> chunk_ptr \<Rightarrow> byte list" where
  "chunk_bytes b p = slice (snd p) (unat (csize b)) (area b)"

lemma unat_word_of_nat32: "n < 4294967296 \<Longrightarrow> unat (word_of_nat n :: u32) = n"
  by (simp add: unat_of_nat)

lemma valid_getptr: "valid_chunk h p b \<Longrightarrow> nn_chunk_getptr h p = Some b"
  by (auto simp: valid_chunk_def nn_chunk_getptr_def unat_word_of_nat32 simp del: of_nat_diff)

lemma valid_size: "valid_chunk h p b \<Longrightarrow> nn_chunk_size h p = Some (csize b)"
  by (simp add: nn_chunk_size_def valid_getptr)

lemma length_chunk_bytes: "valid_chunk h p b \<Longrightarrow> length (chunk_bytes b p) = unat (csize b)"
  by (auto simp: chunk_bytes_def valid_chunk_def)

lemma valid_refcount: "valid_chunk h p b \<Longrightarrow> valid_chunk (set_block h p (b\<lparr>refcount := n\<rparr>)) p (b\<lparr>refcount := n\<rparr>)"
  by (simp add: valid_chunk_def set_block_def)

lemma chunk_bytes_refcount [simp]: "chunk_bytes (b\<lparr>refcount := n\<rparr>) p = chunk_bytes b p"
  by (simp add: chunk_bytes_def)

text \<open>Operations on one block leave the others alone.\<close>

lemma set_block_other [simp]: "k \<noteq> fst p \<Longrightarrow> blocks (set_block h p b) k = blocks h k"
  by (simp add: set_block_def)

lemma set_block_same [simp]: "blocks (set_block h p b) (fst p) = Some b"
  by (simp add: set_block_def)

lemma allocs_set_block [simp]: "allocs (set_block h p b) = allocs h"
  by (simp add: set_block_def)

lemma hdrsize_no_overflow:
  assumes "\<not> nn_chunk_hdrsize + len < nn_chunk_hdrsize"
  shows "unat (nn_chunk_hdrsize + len) = 32 + unat len"
proof -
  have h: "unat nn_chunk_hdrsize = 32" by (simp add: nn_chunk_hdrsize_def sizeof_nn_chunk_def)
  have sum: "unat (nn_chunk_hdrsize + len) = (32 + unat len) mod 2 ^ 64"
    by (simp add: unat_word_ariths h)
  have lt: "unat len < 2 ^ 64" using unsigned_less [where ?'a = nat, of len] by simp
  have "32 \<le> unat (nn_chunk_hdrsize + len)"
    using assms h by (simp add: word_less_nat_alt)
  have "32 + unat len < 2 ^ 64"
  proof (rule ccontr)
    assume "\<not> 32 + unat len < 2 ^ 64"
    with lt have "(32 + unat len) mod 2 ^ 64 = 32 + unat len - 2 ^ 64"
      by (simp add: mod_if)
    with lt sum \<open>32 \<le> _\<close> show False by simp
  qed
  with sum show ?thesis by simp
qed

lemma alloc_ok:
  assumes "\<not> nn_chunk_hdrsize + len < nn_chunk_hdrsize" and "malloc_ok E (allocs h)"
  shows "\<exists>b h'. nn_chunk_alloc E len 0 h = Some (0, Some (allocs h, 8), h')
    \<and> valid_chunk h' (allocs h, 8) b \<and> refcount b = 1 \<and> csize b = len
    \<and> length (area b) = 8 + unat len \<and> allocs h' = Suc (allocs h)
    \<and> (\<forall>k. k \<noteq> allocs h \<longrightarrow> blocks h' k = blocks h k)"
proof -
  define m where "m = map (malloc_junk E (allocs h)) [0..<8 + unat len]"
  have lenm: "length m = 8 + unat len" by (simp add: m_def)
  obtain m1 where m1: "nn_putl m 0 0 = Some m1" using wire32.put_defined [of m 0 0] lenm by auto
  then have len1: "length m1 = length m" using wire32.put_frame by blast
  obtain m2 where m2: "nn_putl m1 4 NN_CHUNK_TAG = Some m2"
    using wire32.put_defined [of m1 4 NN_CHUNK_TAG] lenm len1 by auto
  then have len2: "length m2 = 8 + unat len" using wire32.put_frame lenm len1 by metis
  have g0: "nn_getl m2 0 = Some 0"
    using wire32.get_put [OF m1] wire32.get_put_other [OF m2, of 0] by simp
  have g4: "nn_getl m2 4 = Some NN_CHUNK_TAG" using wire32.get_put [OF m2] by simp
  have "unat (nn_chunk_hdrsize + len) - sizeof_nn_chunk = 8 + unat len"
    using hdrsize_no_overflow [OF assms(1)] by (simp add: sizeof_nn_chunk_def)
  then have "nn_chunk_alloc E len 0 h = Some (0, Some (allocs h, 8),
      set_block (h\<lparr>allocs := allocs h + 1\<rparr>) (allocs h, 0) \<lparr>refcount = 1, csize = len, area = m2\<rparr>)"
    using assms m1 m2 by (simp add: nn_chunk_alloc_def Let_def m_def nn_chunk_getdata_def)
  then show ?thesis
    using g0 g4 len2 by (auto simp: valid_chunk_def set_block_def)
qed


lemma getl_frame:
  "nn_putl m p v = Some m' \<Longrightarrow> q + 4 \<le> p \<or> p + 4 \<le> q \<Longrightarrow> nn_getl m' q = nn_getl m q"
  by (rule wire32.get_put_other)

lemma slice_after_putl: "nn_putl m p v = Some m' \<Longrightarrow> p + 4 \<le> q \<Longrightarrow> slice q n m' = slice q n m"
  by (auto simp: nn_putl_eq poke_eq_Some slice_overwrite_after)

text \<open>The header in front of the message at offset \<open>q\<close>, as \<open>nn_chunk_trim\<close> writes it.\<close>

lemma put_header:
  assumes "8 \<le> q" and "q \<le> length m" and "q - 8 < 4294967296"
  shows "\<exists>m1 m2. nn_putl m (q - 4) NN_CHUNK_TAG = Some m1
    \<and> nn_putl m1 (q - 8) (word_of_nat (q - 8)) = Some m2 \<and> length m2 = length m
    \<and> nn_getl m2 (q - 4) = Some NN_CHUNK_TAG \<and> nn_getl m2 (q - 8) = Some (word_of_nat (q - 8))
    \<and> (\<forall>n. slice q n m2 = slice q n m)"
proof -
  obtain m1 where m1: "nn_putl m (q - 4) NN_CHUNK_TAG = Some m1"
    using wire32.put_defined [of m "q - 4" NN_CHUNK_TAG] assms by auto
  then have l1: "length m1 = length m" using wire32.put_frame by blast
  obtain m2 where m2: "nn_putl m1 (q - 8) (word_of_nat (q - 8)) = Some m2"
    using wire32.put_defined [of m1 "q - 8" "word_of_nat (q - 8)"] assms l1 by auto
  have "slice q n m2 = slice q n m" for n
    using slice_after_putl [OF m1, of q n] slice_after_putl [OF m2, of q n] assms by simp
  moreover have "nn_getl m2 (q - 4) = Some NN_CHUNK_TAG"
    using getl_frame [OF m2, of "q - 4"] wire32.get_put [OF m1] assms by simp
  ultimately show ?thesis using m1 m2 wire32.get_put [OF m2] wire32.put_frame [OF m2] l1 by metis
qed

lemma trim_ok:
  assumes v: "valid_chunk h p b" and n: "n \<le> csize b" and e: "snd p + unat n - 8 < 4294967295"
  shows "\<exists>b' h'. nn_chunk_trim h p n = Some ((fst p, snd p + unat n), h')
    \<and> valid_chunk h' (fst p, snd p + unat n) b' \<and> refcount b' = refcount b
    \<and> chunk_bytes b' (fst p, snd p + unat n) = drop (unat n) (chunk_bytes b p)
    \<and> (\<forall>k. k \<noteq> fst p \<longrightarrow> blocks h' k = blocks h k)"
proof -
  let ?q = "snd p + unat n"
  have le: "unat n \<le> unat (csize b)" using n by (simp add: word_le_nat_alt)
  have sub: "unat (csize b - n) = unat (csize b) - unat n" using n by (rule unat_sub)
  have bounds: "8 \<le> ?q" "?q \<le> length (area b)" "?q - 8 < 4294967296"
    using v le e by (auto simp: valid_chunk_def)
  obtain m1 m2 where m: "nn_putl (area b) (?q - 4) NN_CHUNK_TAG = Some m1"
    "nn_putl m1 (?q - 8) (word_of_nat (?q - 8)) = Some m2" "length m2 = length (area b)"
    "nn_getl m2 (?q - 4) = Some NN_CHUNK_TAG" "nn_getl m2 (?q - 8) = Some (word_of_nat (?q - 8))"
    and sl: "\<forall>k. slice ?q k m2 = slice ?q k (area b)"
    using put_header [OF bounds] by blast
  define b' where "b' = b\<lparr>area := m2, csize := csize b - n\<rparr>"
  have "nn_chunk_trim h p n = Some ((fst p, ?q), set_block h p b')"
    using v n e m by (simp add: nn_chunk_trim_def valid_getptr b'_def not_less del: of_nat_diff of_nat_add)
  moreover have "valid_chunk (set_block h p b') (fst p, ?q) b'"
    using v m le bounds by (auto simp: valid_chunk_def b'_def sub simp del: of_nat_diff of_nat_add)
  moreover have "chunk_bytes b' (fst p, ?q) = drop (unat n) (chunk_bytes b p)"
    using le by (simp add: chunk_bytes_def b'_def sl sub)
      (simp add: slice_def drop_take add.commute)
  ultimately show ?thesis by (auto simp: b'_def)
qed

lemma free_shared:
  assumes "valid_chunk h p b" and "1 < refcount b"
  shows "nn_chunk_free h p = Some (set_block h p (b\<lparr>refcount := refcount b - 1\<rparr>))"
  using assms by (simp add: nn_chunk_free_def valid_getptr not_le [symmetric])

lemma free_last:
  assumes v: "valid_chunk h p b" and r: "refcount b \<le> 1"
  shows "nn_chunk_free h p = Some (h\<lparr>blocks := (blocks h)(fst p := None)\<rparr>)"
proof -
  have "nn_putl (area b) (snd p - 4) NN_CHUNK_TAG_DEALLOCATED \<noteq> None"
    using v by (subst wire32.put_defined) (auto simp: valid_chunk_def)
  then show ?thesis using r by (auto simp: nn_chunk_free_def valid_getptr [OF v])
qed

section \<open>Properties\<close>

fun free_times :: "nat \<Rightarrow> chunk_mem \<Rightarrow> chunk_ptr \<Rightarrow> chunk_mem option" where
  "free_times 0 h p = Some h"
| "free_times (Suc m) h p = Option.bind (nn_chunk_free h p) (\<lambda>h. free_times m h p)"

lemma free_times_snoc:
  "free_times (m + 1) h p = Option.bind (free_times m h p) (\<lambda>h. nn_chunk_free h p)"
proof (induction m arbitrary: h)
  case (Suc m)
  then show ?case by (cases "nn_chunk_free h p") simp_all
qed simp

lemma free_times_shared:
  "valid_chunk h p b \<Longrightarrow> m < unat (refcount b) \<Longrightarrow>
   free_times m h p = Some (set_block h p (b\<lparr>refcount := refcount b - word_of_nat m\<rparr>))"
proof (induction m arbitrary: h b)
  case 0
  then have "set_block h p (b\<lparr>refcount := refcount b - word_of_nat 0\<rparr>) = h"
    by (cases h) (auto simp: set_block_def valid_chunk_def fun_upd_idem)
  then show ?case by simp
next
  case (Suc m)
  then have one: "1 < refcount b" by (simp add: word_less_nat_alt)
  let ?b = "b\<lparr>refcount := refcount b - 1\<rparr>"
  have "unat (refcount ?b) = unat (refcount b) - 1"
    using one unat_minus_one [of "refcount b"] by (cases "refcount b = 0") auto
  then have "free_times m (set_block h p ?b) p
      = Some (set_block (set_block h p ?b) p (?b\<lparr>refcount := refcount ?b - word_of_nat m\<rparr>))"
    using Suc.prems by (intro Suc.IH valid_refcount) auto
  moreover have "set_block (set_block h p ?b) p c = set_block h p c" for c
    by (simp add: set_block_def)
  ultimately show ?case
    using free_shared [OF Suc.prems(1) one] by (simp add: algebra_simps)
qed

text \<open>C20. A chunk lives exactly as long as it is referenced. A chunk of any size that is allocated
  and then referenced \<open>n\<close> more times survives \<open>n\<close> calls of \<open>nn_chunk_free\<close> with its bytes
  unchanged; one more call deallocates its block and no other, and every later use of the pointer
  is an error.\<close>

theorem nn_chunk_lives_while_referenced:
  assumes "\<not> nn_chunk_hdrsize + len < nn_chunk_hdrsize" and "malloc_ok E (allocs h)"
    and "unat n + 1 < 2 ^ 32"
  shows "\<exists>p b h1 h2. nn_chunk_alloc E len 0 h = Some (0, Some p, h1) \<and> valid_chunk h1 p b
    \<and> csize b = len \<and> nn_chunk_addref h1 p n = Some h2
    \<and> (\<forall>m \<le> unat n. \<exists>h3 b3. free_times m h2 p = Some h3 \<and> valid_chunk h3 p b3
         \<and> chunk_bytes b3 p = chunk_bytes b p)
    \<and> (\<exists>h3. free_times (unat n + 1) h2 p = Some h3 \<and> nn_chunk_getptr h3 p = None
         \<and> (\<forall>k. k \<noteq> fst p \<longrightarrow> blocks h3 k = blocks h k))"
proof -
  let ?p = "(allocs h, 8 :: nat)"
  obtain b h1 where a: "nn_chunk_alloc E len 0 h = Some (0, Some ?p, h1)" "valid_chunk h1 ?p b"
    "refcount b = 1" "csize b = len" "\<forall>k. k \<noteq> allocs h \<longrightarrow> blocks h1 k = blocks h k"
    using alloc_ok [OF assms(1,2)] by blast
  let ?b = "b\<lparr>refcount := 1 + n\<rparr>"
  let ?h = "set_block h1 ?p ?b"
  have add: "nn_chunk_addref h1 ?p n = Some ?h"
    using a(2,3) by (simp add: nn_chunk_addref_def valid_getptr)
  have v: "valid_chunk ?h ?p ?b" using valid_refcount a(2) by blast
  have cnt: "unat (refcount ?b) = unat n + 1" using assms(3) by (simp add: unat_word_ariths)
  have live: "\<exists>h3 b3. free_times m ?h ?p = Some h3 \<and> valid_chunk h3 ?p b3
      \<and> chunk_bytes b3 ?p = chunk_bytes b ?p" if "m \<le> unat n" for m
    using free_times_shared [OF v, of m] valid_refcount [OF v] that cnt by fastforce
  let ?b1 = "?b\<lparr>refcount := refcount ?b - word_of_nat (unat n)\<rparr>"
  have last: "free_times (unat n) ?h ?p = Some (set_block ?h ?p ?b1)"
    using free_times_shared [OF v] cnt by simp
  moreover have "nn_chunk_free (set_block ?h ?p ?b1) ?p = Some ((set_block ?h ?p ?b1)
      \<lparr>blocks := (blocks (set_block ?h ?p ?b1))(allocs h := None)\<rparr>)"
    using free_last [OF valid_refcount [OF v]] by simp
  ultimately have "\<exists>h3. free_times (unat n + 1) ?h ?p = Some h3 \<and> nn_chunk_getptr h3 ?p = None
      \<and> (\<forall>k. k \<noteq> fst ?p \<longrightarrow> blocks h3 k = blocks h k)"
    using last a(5) free_times_snoc by (auto simp: nn_chunk_getptr_def)
  with a add live show ?thesis by blast
qed


definition plain_malloc :: malloc_env where
  "plain_malloc = \<lparr>malloc_ok = (\<lambda>_. True), malloc_junk = (\<lambda>_ _. 0xaa)\<rparr>"

definition empty_mem :: chunk_mem where
  "empty_mem = \<lparr>blocks = (\<lambda>_. None), allocs = 0\<rparr>"

theorem nn_chunk_lives_while_referenced_witness:
  "\<exists>p b h1 h2 h3 b3 h4. nn_chunk_alloc plain_malloc 40 0 empty_mem = Some (0, Some p, h1)
    \<and> valid_chunk h1 p b \<and> nn_chunk_addref h1 p 2 = Some h2
    \<and> free_times 2 h2 p = Some h3 \<and> valid_chunk h3 p b3 \<and> chunk_bytes b3 p = chunk_bytes b p
    \<and> free_times 3 h2 p = Some h4 \<and> nn_chunk_getptr h4 p = None"
proof -
  have two: "unat (2 :: u32) = 2" by simp
  have "\<not> nn_chunk_hdrsize + 40 < nn_chunk_hdrsize"
    by (simp add: nn_chunk_hdrsize_def sizeof_nn_chunk_def)
  moreover have "malloc_ok plain_malloc (allocs empty_mem)" by (simp add: plain_malloc_def)
  moreover have "unat (2 :: u32) + 1 < 2 ^ 32" by simp
  ultimately show ?thesis
    using nn_chunk_lives_while_referenced [of 40 plain_malloc empty_mem 2]
    unfolding two by (auto dest!: spec [of _ 2]) blast
qed

text \<open>The copy of a reallocation that cannot stay in place: a fresh block.\<close>

lemma slice_slice: "j + n \<le> k \<Longrightarrow> slice j n (slice i k m) = slice (i + j) n m"
  by (simp add: slice_def drop_take min_absorb1 add.commute)

lemma take_slice: "take k (slice i n m) = slice i (min k n) m"
  by (simp add: slice_def)

lemma realloc_move:
  assumes v: "valid_chunk h p b" and ok: "\<not> nn_chunk_hdrsize + len < nn_chunk_hdrsize"
    and mal: "malloc_ok E (allocs h)" and fresh: "fst p \<noteq> allocs h"
    and mv: "refcount b \<noteq> 1 \<or> csize b < len \<and> \<not> nn_chunk_hdrsize + len < len
      \<and> snd p - 8 < unat (len - csize b)"
  shows "(unat len < unat (csize b) \<longrightarrow> nn_chunk_realloc E len p h = None)
    \<and> (unat (csize b) \<le> unat len \<longrightarrow> (\<exists>b' h'.
        nn_chunk_realloc E len p h = Some (0, (allocs h, 8), h') \<and> valid_chunk h' (allocs h, 8) b'
        \<and> refcount b' = 1 \<and> csize b' = len
        \<and> take (unat (csize b)) (chunk_bytes b' (allocs h, 8)) = slice 8 (unat (csize b)) (area b)
        \<and> (if refcount b \<le> 1 then blocks h' (fst p) = None
           else valid_chunk h' p (b\<lparr>refcount := refcount b - 1\<rparr>))))"
proof -
  let ?q = "(allocs h, 8 :: nat)"
  obtain n h1 where a: "nn_chunk_alloc E len 0 h = Some (0, Some ?q, h1)" "valid_chunk h1 ?q n"
    "refcount n = 1" "csize n = len" "length (area n) = 8 + unat len"
    "\<forall>k. k \<noteq> allocs h \<longrightarrow> blocks h1 k = blocks h k"
    using alloc_ok [OF ok mal] by blast
  have src: "8 + unat (csize b) \<le> length (area b)" using v by (auto simp: valid_chunk_def)
  have n1: "blocks h1 (allocs h) = Some n" using a(2) by (simp add: valid_chunk_def)
  have le: "nn_chunk_realloc E len p h = do {
      m \<leftarrow> poke (area n) 8 (slice 8 (unat (csize b)) (area b));
      let h = set_block h1 ?q (n\<lparr>area := m\<rparr>);
      h \<leftarrow> nn_chunk_free h p;
      Some (0, ?q, h) }"
    using a(1) n1 mv src
    by (auto simp: nn_chunk_realloc_def valid_getptr [OF v] nn_chunk_getdata_def not_less not_le)
  show ?thesis
  proof (cases "unat len < unat (csize b)")
    case True
    then have "poke (area n) 8 (slice 8 (unat (csize b)) (area b)) = None"
      using a(5) src by (simp add: poke_def)
    with True le show ?thesis by simp
  next
    case False
    let ?bs = "slice 8 (unat (csize b)) (area b)"
    have pk: "poke (area n) 8 ?bs = Some (overwrite (area n) 8 ?bs)"
      using False a(5) src by (simp add: poke_def)
    let ?n = "n\<lparr>area := overwrite (area n) 8 ?bs\<rparr>"
    let ?h = "set_block h1 ?q ?n"
    have vn: "valid_chunk ?h ?q ?n"
      using a(2,4,5) False src
      by (auto simp: valid_chunk_def set_block_def nn_getl_eq length_overwrite slice_overwrite_before)
    have data: "take (unat (csize b)) (chunk_bytes ?n ?q) = ?bs"
      using a(4,5) False src by (simp add: chunk_bytes_def take_slice min_absorb1 slice_overwrite_same)
    have vp: "valid_chunk ?h p b" using v a(6) fresh by (simp add: valid_chunk_def)
    show ?thesis
    proof (cases "refcount b \<le> 1")
      case True
      let ?h' = "?h\<lparr>blocks := (blocks ?h)(fst p := None)\<rparr>"
      have "valid_chunk ?h' ?q ?n" using vn fresh by (simp add: valid_chunk_def)
      with True False le pk free_last [OF vp True] data a(3,4) show ?thesis by auto
    next
      case False
      then have one: "1 < refcount b" by simp
      let ?h' = "set_block ?h p (b\<lparr>refcount := refcount b - 1\<rparr>)"
      have "valid_chunk ?h' ?q ?n" using vn fresh by (simp add: valid_chunk_def set_block_def)
      with one \<open>\<not> unat len < unat (csize b)\<close> le pk free_shared [OF vp one] data a(3,4)
        valid_refcount [OF vp] show ?thesis by auto
    qed
  qed
qed

lemma realloc_chop:
  assumes v: "valid_chunk h p b" and "refcount b = 1" and "len \<le> csize b"
  shows "nn_chunk_realloc E len p h = Some (0, p, set_block h p (b\<lparr>csize := len\<rparr>))
    \<and> valid_chunk (set_block h p (b\<lparr>csize := len\<rparr>)) p (b\<lparr>csize := len\<rparr>)
    \<and> chunk_bytes (b\<lparr>csize := len\<rparr>) p = take (unat len) (chunk_bytes b p)"
proof -
  have "unat len \<le> unat (csize b)" using assms(3) by (simp add: word_le_nat_alt)
  then show ?thesis
    using assms
    by (auto simp: nn_chunk_realloc_def valid_getptr valid_chunk_def set_block_def chunk_bytes_def
        slice_def min_def)
qed

text \<open>A block with a message of three bytes and a given number of references.\<close>

definition small_chunk :: "u32 \<Rightarrow> nn_chunk" where
  "small_chunk n = \<lparr>refcount = n, csize = 3, area = [0, 0, 0, 0, 0xde, 0xad, 0xca, 0xfe, 1, 2, 3]\<rparr>"

definition small_mem :: "u32 \<Rightarrow> chunk_mem" where
  "small_mem n = \<lparr>blocks = [0 \<mapsto> small_chunk n], allocs = 1\<rparr>"

lemma small_mem_valid: "valid_chunk (small_mem n) (0, 8) (small_chunk n)"
  by (simp add: valid_chunk_def small_mem_def small_chunk_def nn_getl_def peek_def NN_CHUNK_TAG_def)

lemma hdrsize_small: "\<not> nn_chunk_hdrsize + 2 < nn_chunk_hdrsize" "\<not> nn_chunk_hdrsize + 5 < nn_chunk_hdrsize"
  "\<not> nn_chunk_hdrsize + 5 < 5"
  by (simp_all add: nn_chunk_hdrsize_def sizeof_nn_chunk_def)

text \<open>C21. Reallocation keeps the message. For a chunk that was never trimmed, unless it is shared
  and shrinks, \<open>nn_chunk_realloc\<close> succeeds and returns a live chunk of exactly the new size that
  begins with the bytes of the old one (all of them, or as many as fit).\<close>

theorem nn_chunk_realloc_keeps_data:
  assumes "valid_chunk h p b" and "snd p = 8" and "refcount b = 1 \<or> csize b \<le> len"
    and "\<not> nn_chunk_hdrsize + len < nn_chunk_hdrsize" and "\<not> nn_chunk_hdrsize + len < len"
    and "malloc_ok E (allocs h)" and "fst p \<noteq> allocs h"
  shows "\<exists>q b' h'. nn_chunk_realloc E len p h = Some (0, q, h') \<and> valid_chunk h' q b'
    \<and> csize b' = len \<and> refcount b' = 1
    \<and> take (unat (csize b)) (chunk_bytes b' q) = take (unat len) (chunk_bytes b p)"
proof (cases "refcount b = 1 \<and> len \<le> csize b")
  case True
  note c = realloc_chop [OF assms(1) conjunct1 [OF True] conjunct2 [OF True], of E]
  have "unat len \<le> unat (csize b)" using True by (simp add: word_le_nat_alt)
  then have "take (unat (csize b)) (take (unat len) (chunk_bytes b p)) = take (unat len) (chunk_bytes b p)"
    by simp
  with c True show ?thesis by auto
next
  case False
  then have le: "unat (csize b) \<le> unat len" using assms(3) by (auto simp: word_le_nat_alt)
  have mv: "refcount b \<noteq> 1 \<or> csize b < len \<and> \<not> nn_chunk_hdrsize + len < len
      \<and> snd p - 8 < unat (len - csize b)"
    using False assms(2,5) le by (auto simp: not_le unat_sub word_less_nat_alt word_le_nat_alt)
  have "take (unat len) (chunk_bytes b p) = slice 8 (unat (csize b)) (area b)"
    using le assms(2) by (simp add: chunk_bytes_def)
  with realloc_move [OF assms(1,4,6,7) mv] le show ?thesis by auto
qed

theorem nn_chunk_realloc_keeps_data_witness:
  "\<exists>q b' h'. nn_chunk_realloc plain_malloc 5 (0, 8) (small_mem 1) = Some (0, q, h')
    \<and> valid_chunk h' q b' \<and> csize b' = 5 \<and> refcount b' = 1 \<and> take 3 (chunk_bytes b' q) = [1, 2, 3]"
proof -
  have "\<exists>q b' h'. nn_chunk_realloc plain_malloc 5 (0, 8) (small_mem 1) = Some (0, q, h')
      \<and> valid_chunk h' q b' \<and> csize b' = 5 \<and> refcount b' = 1
      \<and> take (unat (csize (small_chunk 1))) (chunk_bytes b' q)
        = take (unat (5 :: u64)) (chunk_bytes (small_chunk 1) (0, 8))"
    by (rule nn_chunk_realloc_keeps_data [OF small_mem_valid])
      (simp_all add: hdrsize_small small_chunk_def plain_malloc_def small_mem_def)
  then show ?thesis by (simp add: small_chunk_def chunk_bytes_def slice_def)
qed

text \<open>C24. A shared chunk must not shrink: \<open>nn_chunk_realloc\<close> of a chunk with more than one reference to
  a smaller size allocates the smaller block and then copies the old number of bytes into it,
  past its end.\<close>

theorem nn_chunk_realloc_shrink_overflows:
  assumes "valid_chunk h p b" and "refcount b \<noteq> 1" and "unat len < unat (csize b)"
    and "\<not> nn_chunk_hdrsize + len < nn_chunk_hdrsize" and "malloc_ok E (allocs h)"
    and "fst p \<noteq> allocs h"
  shows "nn_chunk_realloc E len p h = None"
  using realloc_move [OF assms(1,4,5,6)] assms(2,3) by blast

theorem nn_chunk_realloc_shrink_overflows_witness:
  "nn_chunk_realloc plain_malloc 2 (0, 8) (small_mem 2) = None"
  by (rule nn_chunk_realloc_shrink_overflows [OF small_mem_valid])
    (simp_all add: hdrsize_small small_chunk_def plain_malloc_def small_mem_def)

text \<open>A trimmed chunk that has to move keeps the bytes behind the header of the block, not its own.\<close>

lemma nn_chunk_realloc_trimmed_moves_wrong_bytes:
  assumes "valid_chunk h p b" and "8 < snd p" and "refcount b = 1" and "csize b < len"
    and "snd p - 8 < unat (len - csize b)"
    and "\<not> nn_chunk_hdrsize + len < nn_chunk_hdrsize" and "\<not> nn_chunk_hdrsize + len < len"
    and "malloc_ok E (allocs h)" and "fst p \<noteq> allocs h"
  shows "\<exists>q b' h'. nn_chunk_realloc E len p h = Some (0, q, h') \<and> valid_chunk h' q b'
    \<and> take (unat (csize b)) (chunk_bytes b' q) = slice 8 (unat (csize b)) (area b)"
  using realloc_move [OF assms(1,6,8,9)] assms(3-5,7) by (auto simp: word_less_nat_alt)


text \<open>
  What growing into the empty space does: the message is moved down and gets a proper header at
  its new place, but the pointer handed back is the old one.
\<close>

lemma grow_into_empty_eq:
  assumes v: "valid_chunk h p b" and "refcount b = 1" and "csize b < len"
    and ov: "\<not> nn_chunk_hdrsize + len < len" and g: "unat (len - csize b) \<le> snd p - 8"
  shows "\<exists>b' h'. nn_chunk_realloc E len p h = Some (0, p, h') \<and> blocks h' (fst p) = Some b'
    \<and> valid_chunk h' (fst p, snd p - unat (len - csize b)) b' \<and> csize b' = len
    \<and> slice (snd p - unat (len - csize b)) (unat (csize b)) (area b') = chunk_bytes b p"
proof -
  let ?new = "snd p - unat (len - csize b)"
  let ?bs = "slice (snd p) (unat (csize b)) (area b)"
  have bnd: "8 \<le> ?new" "snd p + unat (csize b) \<le> length (area b)" "?new - 8 < 4294967296"
    using v g by (auto simp: valid_chunk_def)
  have lenbs: "length ?bs = unat (csize b)" using bnd(2) by simp
  have gr: "unat (len - csize b) = unat len - unat (csize b)" "unat (csize b) \<le> unat len"
    using assms(3) unat_sub [of "csize b" len] by (auto simp: word_less_nat_alt word_le_nat_alt)
  have pk: "poke (area b) ?new ?bs = Some (overwrite (area b) ?new ?bs)"
    using bnd(2) lenbs by (simp add: poke_def)
  let ?m = "overwrite (area b) ?new ?bs"
  have lm: "length ?m = length (area b)" using bnd(2) lenbs by (simp add: length_overwrite)
  have newm: "?new \<le> length ?m" using bnd(2) lm by simp
  obtain m1 m2 where m: "nn_putl ?m (?new - 4) NN_CHUNK_TAG = Some m1"
    "nn_putl m1 (?new - 8) (word_of_nat (?new - 8)) = Some m2" "length m2 = length ?m"
    "nn_getl m2 (?new - 4) = Some NN_CHUNK_TAG" "nn_getl m2 (?new - 8) = Some (word_of_nat (?new - 8))"
    and sl: "\<forall>k. slice ?new k m2 = slice ?new k ?m"
    using put_header [OF bnd(1) newm bnd(3)] by blast
  let ?b = "b\<lparr>csize := len, area := m2\<rparr>"
  have "nn_chunk_realloc E len p h = Some (0, p, set_block h p ?b)"
    using assms(2,3) ov g pk m bnd(2)
    by (simp add: nn_chunk_realloc_def valid_getptr [OF v] grow_into_empty_def Let_def not_le
        del: of_nat_diff)
  moreover have "valid_chunk (set_block h p ?b) (fst p, ?new) ?b"
    using v m bnd lm gr g by (auto simp: valid_chunk_def simp del: of_nat_diff)
  moreover have "slice ?new (unat (csize b)) m2 = ?bs"
    using sl bnd lenbs by (simp add: slice_overwrite_same)
  ultimately show ?thesis by (auto simp: chunk_bytes_def)
qed

text \<open>
  Growing a trimmed chunk into its empty space can lose the message: \<open>nn_chunk_realloc\<close> moves the
  message to the front of the space and succeeds, but leaves the caller's pointer where the
  message was. When the chunk grows by 4 bytes or more, but by no more than its old size, the four
  bytes in front of that pointer are now bytes of the message; unless they are the tag by chance,
  every later use of the chunk, its release included, fails the assertion of \<open>nn_chunk_getptr\<close>.
\<close>

lemma realloc_grow_loses_pointer:
  assumes "valid_chunk h p b" and "refcount b = 1" and "csize b < len"
    and "\<not> nn_chunk_hdrsize + len < len" and "unat (len - csize b) \<le> snd p - 8"
    and "4 \<le> unat (len - csize b)" and "unat (len - csize b) \<le> unat (csize b)"
    and "dec4 (slice (unat (len - csize b) - 4) 4 (chunk_bytes b p)) \<noteq> NN_CHUNK_TAG"
  shows "\<exists>h'. nn_chunk_realloc E len p h = Some (0, p, h') \<and> nn_chunk_getptr h' p = None
    \<and> nn_chunk_free h' p = None \<and> nn_chunk_size h' p = None"
proof -
  let ?g = "unat (len - csize b)"
  obtain b' h' where r: "nn_chunk_realloc E len p h = Some (0, p, h')" "blocks h' (fst p) = Some b'"
    and sl: "slice (snd p - ?g) (unat (csize b)) (area b') = chunk_bytes b p"
    using grow_into_empty_eq [OF assms(1-5)] by blast
  have len: "length (chunk_bytes b p) = unat (csize b)" by (rule length_chunk_bytes [OF assms(1)])
  have "slice (?g - 4) 4 (slice (snd p - ?g) (unat (csize b)) (area b')) = slice (snd p - 4) 4 (area b')"
    using assms(5-7) by (subst slice_slice) auto
  then have "slice (snd p - 4) 4 (area b') = slice (?g - 4) 4 (chunk_bytes b p)" by (simp add: sl)
  then have "nn_getl (area b') (snd p - 4) \<noteq> Some NN_CHUNK_TAG"
    using assms(8) by (auto simp: nn_getl_eq)
  then have "nn_chunk_getptr h' p = None"
    using r(2) by (auto simp: nn_chunk_getptr_def split: bind_split)
  with r(1) show ?thesis by (auto simp: nn_chunk_free_def nn_chunk_size_def)
qed

definition trimmed_chunk :: nn_chunk where
  "trimmed_chunk = \<lparr>refcount = 1, csize = 5,
     area = [0, 0, 0, 0, 0, 0, 0, 0, 5, 0xde, 0xad, 0xca, 0xfe, 1, 2, 3, 4, 5]\<rparr>"

definition trimmed_mem :: chunk_mem where
  "trimmed_mem = \<lparr>blocks = [0 \<mapsto> trimmed_chunk], allocs = 1\<rparr>"

lemma realloc_grow_loses_pointer_example:
  "\<exists>h'. nn_chunk_realloc plain_malloc 9 (0, 13) trimmed_mem = Some (0, (0, 13), h')
    \<and> nn_chunk_getptr h' (0, 13) = None \<and> nn_chunk_free h' (0, 13) = None
    \<and> nn_chunk_size h' (0, 13) = None"
proof (rule realloc_grow_loses_pointer)
  show "valid_chunk trimmed_mem (0, 13) trimmed_chunk"
    by (simp add: valid_chunk_def trimmed_mem_def trimmed_chunk_def nn_getl_def peek_def
        NN_CHUNK_TAG_def)
  show "dec4 (slice (unat (9 - csize trimmed_chunk) - 4) 4 (chunk_bytes trimmed_chunk (0, 13)))
      \<noteq> NN_CHUNK_TAG"
    by (simp add: chunk_bytes_def trimmed_chunk_def slice_def NN_CHUNK_TAG_def)
qed (simp_all add: trimmed_chunk_def nn_chunk_hdrsize_def sizeof_nn_chunk_def)

end
