(* ===== verification/NN_Chunkref.thy ===== *)
theory NN_Chunkref
  imports NN_Chunk
begin

text \<open>
  \<open>utils/chunkref.c\<close> and \<open>utils/msg.c\<close> of nanomsg: a reference to message data, which is either the
  data itself, when shorter than \<open>NN_CHUNKREF_MAX\<close>, or a pointer to a chunk; and a message, which
  is three of them. The first byte says which: 0xff for a chunk, else the length. The code
  overlays the pointer and the inline bytes; as only one of them is read, depending on the tag,
  they are separate fields here.
\<close>

section \<open>The code\<close>

definition NN_CHUNKREF_MAX :: nat where "NN_CHUNKREF_MAX = 32"

record nn_chunkref =
  tag :: byte
  inl :: "byte list"
  chunk :: chunk_ptr

definition nn_chunkref_init ::
  "malloc_env \<Rightarrow> u64 \<Rightarrow> nn_chunkref \<Rightarrow> chunk_mem \<Rightarrow> (nn_chunkref \<times> chunk_mem) option" where
  "nn_chunkref_init E len self h =
     (if unat len < NN_CHUNKREF_MAX then Some (self\<lparr>tag := ucast len\<rparr>, h)
      else do {
        let self = self\<lparr>tag := 0xff\<rparr>;
        (rc, q, h) \<leftarrow> nn_chunk_alloc E len 0 h;
        if rc \<noteq> 0 then None else do {
          q \<leftarrow> q;
          Some (self\<lparr>chunk := q\<rparr>, h) } })"

text \<open>
  Whether \<open>nn_chunkref_init\<close> gets the memory for a number of bytes: none below \<open>NN_CHUNKREF_MAX\<close>, or
  else a chunk with its header, whose size must not wrap and which \<open>malloc\<close> must give (see
  \<open>nn_chunk_alloc\<close>). Without it the assertion on the result fails.
\<close>

definition chunkref_fits :: "(u64 \<Rightarrow> bool) \<Rightarrow> u64 \<Rightarrow> bool" where
  "chunkref_fits malloc sz \<longleftrightarrow>
     unat sz < NN_CHUNKREF_MAX \<or> \<not> nn_chunk_hdrsize + sz < nn_chunk_hdrsize \<and> malloc (nn_chunk_hdrsize + sz)"

definition nn_chunkref_init_chunk :: "chunk_ptr \<Rightarrow> nn_chunkref \<Rightarrow> nn_chunkref" where
  "nn_chunkref_init_chunk p self = self\<lparr>tag := 0xff, chunk := p\<rparr>"

definition nn_chunkref_term :: "nn_chunkref \<Rightarrow> chunk_mem \<Rightarrow> chunk_mem option" where
  "nn_chunkref_term self h = (if tag self = 0xff then nn_chunk_free h (chunk self) else Some h)"

definition nn_chunkref_getchunk ::
  "malloc_env \<Rightarrow> nn_chunkref \<Rightarrow> chunk_mem \<Rightarrow> (chunk_ptr \<times> nn_chunkref \<times> chunk_mem) option" where
  "nn_chunkref_getchunk E self h =
     (if tag self = 0xff then Some (chunk self, self\<lparr>tag := 0\<rparr>, h)
      else do {
        (rc, q, h) \<leftarrow> nn_chunk_alloc E (ucast (tag self)) 0 h;
        if rc \<noteq> 0 then None else do {
          q \<leftarrow> q;
          b \<leftarrow> blocks h (fst q);
          bs \<leftarrow> (if unat (tag self) \<le> length (inl self) then Some (take (unat (tag self)) (inl self)) else None);
          m \<leftarrow> poke (area b) (snd q) bs;
          Some (q, self\<lparr>tag := 0\<rparr>, set_block h q (b\<lparr>area := m\<rparr>)) } })"

definition nn_chunkref_mv :: "nn_chunkref \<Rightarrow> nn_chunkref \<Rightarrow> nn_chunkref option" where
  "nn_chunkref_mv dst src =
     (if tag src = 0xff then Some (dst\<lparr>tag := tag src, chunk := chunk src\<rparr>)
      else if unat (tag src) \<le> length (inl src) \<and> unat (tag src) \<le> length (inl dst)
      then Some (dst\<lparr>tag := tag src, inl := overwrite (inl dst) 0 (take (unat (tag src)) (inl src))\<rparr>)
      else None)"

definition nn_chunkref_cp :: "nn_chunkref \<Rightarrow> nn_chunkref \<Rightarrow> chunk_mem \<Rightarrow> (nn_chunkref \<times> chunk_mem) option" where
  "nn_chunkref_cp dst src h = do {
     h \<leftarrow> (if tag src = 0xff then nn_chunk_addref h (chunk src) 1 else Some h);
     Some (src, h) }"

text \<open>The data: where it is (\<open>Inl\<close> a chunk, \<open>Inr\<close> the inline bytes), and what it is.\<close>

definition nn_chunkref_data :: "nn_chunkref \<Rightarrow> chunk_ptr + byte list" where
  "nn_chunkref_data self = (if tag self = 0xff then Inl (chunk self) else Inr (inl self))"

definition nn_chunkref_size :: "nn_chunkref \<Rightarrow> chunk_mem \<Rightarrow> u64 option" where
  "nn_chunkref_size self h =
     (if tag self = 0xff then nn_chunk_size h (chunk self) else Some (ucast (tag self)))"

definition nn_chunkref_trim :: "nn_chunkref \<Rightarrow> u64 \<Rightarrow> chunk_mem \<Rightarrow> (nn_chunkref \<times> chunk_mem) option" where
  "nn_chunkref_trim self n h =
     (if tag self = 0xff then do {
        (q, h) \<leftarrow> nn_chunk_trim h (chunk self) n;
        Some (self\<lparr>chunk := q\<rparr>, h) }
      else if ucast (tag self) < n then None
      else do {
        let k = unat (tag self) - unat n;
        m \<leftarrow> (if unat n + k \<le> length (inl self)
             then poke (inl self) 0 (slice (unat n) k (inl self)) else None);
        Some (self\<lparr>inl := m, tag := tag self - ucast n\<rparr>, h) })"

definition nn_chunkref_bulkcopy_start :: "nn_chunkref \<Rightarrow> u32 \<Rightarrow> chunk_mem \<Rightarrow> chunk_mem option" where
  "nn_chunkref_bulkcopy_start self copies h =
     (if tag self = 0xff then nn_chunk_addref h (chunk self) copies else Some h)"

definition nn_chunkref_bulkcopy_cp :: "nn_chunkref \<Rightarrow> nn_chunkref \<Rightarrow> nn_chunkref" where
  "nn_chunkref_bulkcopy_cp dst src = src"

section \<open>Messages\<close>

record nn_msg =
  sphdr :: nn_chunkref
  hdrs :: nn_chunkref
  body :: nn_chunkref

definition nn_msg_init :: "malloc_env \<Rightarrow> u64 \<Rightarrow> nn_msg \<Rightarrow> chunk_mem \<Rightarrow> (nn_msg \<times> chunk_mem) option" where
  "nn_msg_init E len self h = do {
     (s, h) \<leftarrow> nn_chunkref_init E 0 (sphdr self) h;
     (x, h) \<leftarrow> nn_chunkref_init E 0 (hdrs self) h;
     (b, h) \<leftarrow> nn_chunkref_init E len (body self) h;
     Some (\<lparr>sphdr = s, hdrs = x, body = b\<rparr>, h) }"

definition nn_msg_init_chunk ::
  "malloc_env \<Rightarrow> chunk_ptr \<Rightarrow> nn_msg \<Rightarrow> chunk_mem \<Rightarrow> (nn_msg \<times> chunk_mem) option" where
  "nn_msg_init_chunk E p self h = do {
     (s, h) \<leftarrow> nn_chunkref_init E 0 (sphdr self) h;
     (x, h) \<leftarrow> nn_chunkref_init E 0 (hdrs self) h;
     Some (\<lparr>sphdr = s, hdrs = x, body = nn_chunkref_init_chunk p (body self)\<rparr>, h) }"

definition nn_msg_term :: "nn_msg \<Rightarrow> chunk_mem \<Rightarrow> chunk_mem option" where
  "nn_msg_term self h = do {
     h \<leftarrow> nn_chunkref_term (sphdr self) h;
     h \<leftarrow> nn_chunkref_term (hdrs self) h;
     nn_chunkref_term (body self) h }"

definition nn_msg_mv :: "nn_msg \<Rightarrow> nn_msg \<Rightarrow> nn_msg option" where
  "nn_msg_mv dst src = do {
     s \<leftarrow> nn_chunkref_mv (sphdr dst) (sphdr src);
     x \<leftarrow> nn_chunkref_mv (hdrs dst) (hdrs src);
     b \<leftarrow> nn_chunkref_mv (body dst) (body src);
     Some \<lparr>sphdr = s, hdrs = x, body = b\<rparr> }"

definition nn_msg_cp :: "nn_msg \<Rightarrow> nn_msg \<Rightarrow> chunk_mem \<Rightarrow> (nn_msg \<times> chunk_mem) option" where
  "nn_msg_cp dst src h = do {
     (s, h) \<leftarrow> nn_chunkref_cp (sphdr dst) (sphdr src) h;
     (x, h) \<leftarrow> nn_chunkref_cp (hdrs dst) (hdrs src) h;
     (b, h) \<leftarrow> nn_chunkref_cp (body dst) (body src) h;
     Some (\<lparr>sphdr = s, hdrs = x, body = b\<rparr>, h) }"

definition nn_msg_bulkcopy_start :: "nn_msg \<Rightarrow> u32 \<Rightarrow> chunk_mem \<Rightarrow> chunk_mem option" where
  "nn_msg_bulkcopy_start self copies h = do {
     h \<leftarrow> nn_chunkref_bulkcopy_start (sphdr self) copies h;
     h \<leftarrow> nn_chunkref_bulkcopy_start (hdrs self) copies h;
     nn_chunkref_bulkcopy_start (body self) copies h }"

definition nn_msg_bulkcopy_cp :: "nn_msg \<Rightarrow> nn_msg \<Rightarrow> nn_msg" where
  "nn_msg_bulkcopy_cp dst src =
     \<lparr>sphdr = nn_chunkref_bulkcopy_cp (sphdr dst) (sphdr src),
      hdrs = nn_chunkref_bulkcopy_cp (hdrs dst) (hdrs src),
      body = nn_chunkref_bulkcopy_cp (body dst) (body src)\<rparr>"

definition nn_msg_replace_body :: "nn_msg \<Rightarrow> nn_chunkref \<Rightarrow> chunk_mem \<Rightarrow> (nn_msg \<times> chunk_mem) option" where
  "nn_msg_replace_body self new_body h = do {
     h \<leftarrow> nn_chunkref_term (body self) h;
     Some (self\<lparr>body := new_body\<rparr>, h) }"

section \<open>What a reference holds\<close>

text \<open>
  \<open>holds h r bs n\<close>: \<open>r\<close> refers to the bytes \<open>bs\<close>; \<open>n\<close> is the number of references to its chunk, 1 when
  the bytes are inline.
\<close>

inductive holds :: "chunk_mem \<Rightarrow> nn_chunkref \<Rightarrow> byte list \<Rightarrow> u32 \<Rightarrow> bool" where
  holds_inline: "unat (tag r) < NN_CHUNKREF_MAX \<Longrightarrow> length (inl r) = 31 \<Longrightarrow>
    bs = take (unat (tag r)) (inl r) \<Longrightarrow> holds h r bs 1"
| holds_chunk: "tag r = 0xff \<Longrightarrow> valid_chunk h (chunk r) b \<Longrightarrow> length (inl r) = 31 \<Longrightarrow>
    bs = chunk_bytes b (chunk r) \<Longrightarrow> n = refcount b \<Longrightarrow> holds h r bs n"

inductive_cases holdsE: "holds h r bs n"

lemma small_not_ff: "unat (t :: byte) < NN_CHUNKREF_MAX \<Longrightarrow> t \<noteq> 0xff"
  by (auto simp: NN_CHUNKREF_MAX_def)

lemma holds_size: "holds h r bs n \<Longrightarrow> nn_chunkref_size r h = Some (word_of_nat (length bs))"
  by (erule holdsE)
    (auto simp: nn_chunkref_size_def small_not_ff valid_size length_chunk_bytes NN_CHUNKREF_MAX_def)

text \<open>What a reader finds who takes \<open>n\<close> bytes from where the data is.\<close>

definition read_data :: "chunk_mem \<Rightarrow> chunk_ptr + byte list \<Rightarrow> nat \<Rightarrow> byte list option" where
  "read_data h p n = (case p of
     Inl q \<Rightarrow> do {
       b \<leftarrow> blocks h (fst q);
       if snd q + n \<le> length (area b) then Some (slice (snd q) n (area b)) else None }
   | Inr d \<Rightarrow> if n \<le> length d then Some (take n d) else None)"

lemma holds_data: "holds h r bs n \<Longrightarrow> read_data h (nn_chunkref_data r) (length bs) = Some bs"
proof (erule holdsE)
  fix b
  assume c: "tag r = 0xff" "valid_chunk h (chunk r) b" "bs = chunk_bytes b (chunk r)"
  have "length bs = unat (csize b)" using c(3) length_chunk_bytes [OF c(2)] by simp
  with c show ?thesis by (auto simp: nn_chunkref_data_def read_data_def chunk_bytes_def valid_chunk_def)
qed (auto simp: nn_chunkref_data_def read_data_def small_not_ff NN_CHUNKREF_MAX_def)

lemma tiny_no_overflow:
  "\<not> nn_chunk_hdrsize + ucast (t :: byte) < nn_chunk_hdrsize"
proof -
  have "unat (ucast t :: u64) = unat t" by (rule unat_ucast_byte_up)
  then have "unat (nn_chunk_hdrsize + ucast t) = 32 + unat t"
    using unat_byte_lt [of t]
    by (simp add: unat_word_ariths nn_chunk_hdrsize_def sizeof_nn_chunk_def)
  then show ?thesis
    by (simp add: word_less_nat_alt nn_chunk_hdrsize_def sizeof_nn_chunk_def)
qed

lemma holds_init:
  assumes "\<not> nn_chunk_hdrsize + len < nn_chunk_hdrsize" and "malloc_ok E (allocs h)"
    and "length (inl r) = 31"
  shows "\<exists>r' h' bs. nn_chunkref_init E len r h = Some (r', h') \<and> holds h' r' bs 1
    \<and> length bs = unat len"
proof (cases "unat len < NN_CHUNKREF_MAX")
  case True
  then have "unat (ucast len :: byte) = unat len"
    by (simp add: unat_ucast_byte_down NN_CHUNKREF_MAX_def)
  then have "holds h (r\<lparr>tag := ucast len\<rparr>) (take (unat len) (inl r)) 1"
    using True assms(3) by (intro holds_inline) auto
  with True assms(3) show ?thesis by (auto simp: nn_chunkref_init_def NN_CHUNKREF_MAX_def)
next
  case False
  obtain b h' where a: "nn_chunk_alloc E len 0 h = Some (0, Some (allocs h, 8), h')"
    "valid_chunk h' (allocs h, 8) b" "refcount b = 1" "csize b = len"
    using alloc_ok [OF assms(1,2)] by blast
  let ?r = "r\<lparr>tag := 0xff, chunk := (allocs h, 8)\<rparr>"
  have "holds h' ?r (chunk_bytes b (allocs h, 8)) 1"
    by (rule holds_chunk [where b = b]) (use a assms(3) in auto)
  with a False length_chunk_bytes [OF a(2)] show ?thesis by (auto simp: nn_chunkref_init_def)
qed

lemma holds_mv:
  "holds h r bs n \<Longrightarrow> length (inl d) = 31 \<Longrightarrow>
     \<exists>d'. nn_chunkref_mv d r = Some d' \<and> holds h d' bs n"
proof (erule holdsE)
  assume d: "length (inl d) = 31" and i: "n = 1" "bs = take (unat (tag r)) (inl r)"
    "unat (tag r) < NN_CHUNKREF_MAX" "length (inl r) = 31"
  let ?d = "d\<lparr>tag := tag r, inl := overwrite (inl d) 0 (take (unat (tag r)) (inl r))\<rparr>"
  have "holds h ?d bs 1"
    by (rule holds_inline) (use d i in \<open>auto simp: length_overwrite NN_CHUNKREF_MAX_def overwrite_def\<close>)
  then show ?thesis using d i small_not_ff [OF i(3)] by (auto simp: nn_chunkref_mv_def NN_CHUNKREF_MAX_def)
next
  fix b
  assume d: "length (inl d) = 31" and c: "tag r = 0xff" "valid_chunk h (chunk r) b"
    "bs = chunk_bytes b (chunk r)" "n = refcount b"
  have "holds h (d\<lparr>tag := tag r, chunk := chunk r\<rparr>) bs n"
    by (rule holds_chunk [where b = b]) (use c d in auto)
  with c show ?thesis by (simp add: nn_chunkref_mv_def)
qed

lemma holds_trim:
  assumes "holds h r bs n" and k: "unat k \<le> length bs"
    and sp: "snd (chunk r) + unat k - 8 < 4294967295"
  shows "\<exists>r' h'. nn_chunkref_trim r k h = Some (r', h') \<and> holds h' r' (drop (unat k) bs) n"
  using assms(1)
proof (rule holdsE)
  assume i: "n = 1" "bs = take (unat (tag r)) (inl r)" "unat (tag r) < NN_CHUNKREF_MAX"
    "length (inl r) = 31"
  have kt: "unat k \<le> unat (tag r)" using k i by (simp add: NN_CHUNKREF_MAX_def)
  have up: "unat (ucast (tag r) :: u64) = unat (tag r)" by (rule unat_ucast_byte_up)
  have kb: "unat (ucast k :: byte) = unat k"
    using kt i(3) by (simp add: unat_ucast_byte_down NN_CHUNKREF_MAX_def)
  have sub: "unat (tag r - ucast k) = unat (tag r) - unat k"
    using kt kb unat_sub [of "ucast k" "tag r"] by (simp add: word_le_nat_alt)
  let ?s = "slice (unat k) (unat (tag r) - unat k) (inl r)"
  have ls: "length ?s = unat (tag r) - unat k" using kt i(3,4) by (simp add: NN_CHUNKREF_MAX_def)
  let ?r = "r\<lparr>inl := overwrite (inl r) 0 ?s, tag := tag r - ucast k\<rparr>"
  have "nn_chunkref_trim r k h = Some (?r, h)"
    using kt up i(3,4) small_not_ff [OF i(3)] ls
    by (auto simp: nn_chunkref_trim_def word_less_nat_alt poke_def NN_CHUNKREF_MAX_def Let_def)
  moreover have "holds h ?r (drop (unat k) bs) 1"
    by (rule holds_inline)
      (use i sub ls kt in \<open>auto simp: NN_CHUNKREF_MAX_def length_overwrite overwrite_def slice_def drop_take\<close>)
  ultimately show ?thesis using i(1) by blast
next
  fix b
  assume c: "tag r = 0xff" "valid_chunk h (chunk r) b" "bs = chunk_bytes b (chunk r)" "n = refcount b"
    "length (inl r) = 31"
  have "k \<le> csize b" using k c(3) length_chunk_bytes [OF c(2)] by (simp add: word_le_nat_alt)
  then obtain b' h' where t: "nn_chunk_trim h (chunk r) k = Some ((fst (chunk r), snd (chunk r) + unat k), h')"
    "valid_chunk h' (fst (chunk r), snd (chunk r) + unat k) b'" "refcount b' = refcount b"
    "chunk_bytes b' (fst (chunk r), snd (chunk r) + unat k) = drop (unat k) (chunk_bytes b (chunk r))"
    using trim_ok [OF c(2) _ sp] by blast
  let ?r = "r\<lparr>chunk := (fst (chunk r), snd (chunk r) + unat k)\<rparr>"
  have "holds h' ?r (drop (unat k) bs) n"
    by (rule holds_chunk [where b = b']) (use t c in auto)
  with t(1) c(1) show ?thesis by (simp add: nn_chunkref_trim_def)
qed

lemma holds_getchunk:
  assumes "holds h r bs n" and mal: "malloc_ok E (allocs h)"
  shows "\<exists>q r' h' b. nn_chunkref_getchunk E r h = Some (q, r', h') \<and> valid_chunk h' q b
    \<and> chunk_bytes b q = bs \<and> refcount b = n \<and> holds h' r' [] 1"
  using assms(1)
proof (rule holdsE)
  assume i: "n = 1" "bs = take (unat (tag r)) (inl r)" "unat (tag r) < NN_CHUNKREF_MAX"
    "length (inl r) = 31"
  have up: "unat (ucast (tag r) :: u64) = unat (tag r)" by (rule unat_ucast_byte_up)
  let ?q = "(allocs h, 8 :: nat)"
  obtain b h1 where a: "nn_chunk_alloc E (ucast (tag r)) 0 h = Some (0, Some ?q, h1)"
    "valid_chunk h1 ?q b" "refcount b = 1" "csize b = ucast (tag r)" "length (area b) = 8 + unat (tag r)"
    using alloc_ok [OF tiny_no_overflow mal, of "tag r"] up by auto
  have bl: "blocks h1 (allocs h) = Some b" using a(2) by (simp add: valid_chunk_def)
  have len: "length bs = unat (tag r)" using i by (simp add: NN_CHUNKREF_MAX_def)
  let ?b = "b\<lparr>area := overwrite (area b) 8 bs\<rparr>"
  have "nn_chunkref_getchunk E r h = Some (?q, r\<lparr>tag := 0\<rparr>, set_block h1 ?q ?b)"
    using a(1,5) bl i len small_not_ff [OF i(3)]
    by (auto simp: nn_chunkref_getchunk_def poke_def NN_CHUNKREF_MAX_def)
  moreover have "valid_chunk (set_block h1 ?q ?b) ?q ?b"
    using a(2,4,5) len
    by (auto simp: valid_chunk_def set_block_def nn_getl_eq length_overwrite slice_overwrite_before)
  moreover have "chunk_bytes ?b ?q = bs"
    using a(4,5) len up by (simp add: chunk_bytes_def slice_overwrite_same)
  moreover have "holds (set_block h1 ?q ?b) (r\<lparr>tag := 0\<rparr>) [] 1"
    by (rule holds_inline) (use i in \<open>auto simp: NN_CHUNKREF_MAX_def\<close>)
  ultimately show ?thesis using a(3) i(1) by (metis nn_chunk.select_convs(1) nn_chunk.update_convs(3) nn_chunk.cases)
next
  fix b
  assume c: "tag r = 0xff" "valid_chunk h (chunk r) b" "bs = chunk_bytes b (chunk r)" "n = refcount b"
    "length (inl r) = 31"
  have "holds h (r\<lparr>tag := 0\<rparr>) [] 1"
    by (rule holds_inline) (use c in \<open>auto simp: NN_CHUNKREF_MAX_def\<close>)
  with c show ?thesis by (auto simp: nn_chunkref_getchunk_def)
qed

lemma holds_cp:
  assumes "holds h r bs n" and "tag r = 0xff \<Longrightarrow> n' = n + 1" and "tag r \<noteq> 0xff \<Longrightarrow> n' = 1"
  shows "\<exists>h'. nn_chunkref_cp d r h = Some (r, h') \<and> holds h' r bs n'"
  using assms(1)
proof (rule holdsE)
  assume i: "n = 1" "bs = take (unat (tag r)) (inl r)" "unat (tag r) < NN_CHUNKREF_MAX"
    "length (inl r) = 31"
  then show ?thesis
    using small_not_ff [OF i(3)] assms(1,3) by (simp add: nn_chunkref_cp_def)
next
  fix b
  assume c: "tag r = 0xff" "valid_chunk h (chunk r) b" "bs = chunk_bytes b (chunk r)" "n = refcount b"
    "length (inl r) = 31"
  let ?b = "b\<lparr>refcount := refcount b + 1\<rparr>"
  have "holds (set_block h (chunk r) ?b) r bs n'"
    by (rule holds_chunk [where b = ?b]) (use c assms(2) valid_refcount [OF c(2)] in auto)
  with c show ?thesis by (simp add: nn_chunkref_cp_def nn_chunk_addref_def valid_getptr [OF c(2)])
qed

section \<open>Properties\<close>

text \<open>C22. A chunk reference is its bytes, whether they are inline or in a chunk: its size is theirs,
  \<open>nn_chunkref_data\<close> points to them,
  trimming \<open>k\<close> bytes drops the first \<open>k\<close>, moving it gives a reference to the same bytes, copying it
  gives a second one (and counts it), and \<open>nn_chunkref_getchunk\<close> yields a live chunk with
  exactly these bytes and leaves an empty reference.\<close>

theorem nn_chunkref_is_its_bytes:
  assumes "holds h r bs n" and "unat k \<le> length bs" and "snd (chunk r) + unat k - 8 < 4294967295"
    and "length (inl d) = 31" and "malloc_ok E (allocs h)"
  shows "nn_chunkref_size r h = Some (word_of_nat (length bs))
    \<and> read_data h (nn_chunkref_data r) (length bs) = Some bs
    \<and> (\<exists>r' h'. nn_chunkref_trim r k h = Some (r', h') \<and> holds h' r' (drop (unat k) bs) n)
    \<and> (\<exists>d'. nn_chunkref_mv d r = Some d' \<and> holds h d' bs n)
    \<and> (\<exists>h'. nn_chunkref_cp d r h = Some (r, h') \<and> holds h' r bs (if tag r = 0xff then n + 1 else 1))
    \<and> (\<exists>q r' h' b. nn_chunkref_getchunk E r h = Some (q, r', h') \<and> valid_chunk h' q b
         \<and> chunk_bytes b q = bs \<and> refcount b = n \<and> holds h' r' [] 1)"
  using holds_size [OF assms(1)] holds_data [OF assms(1)] holds_trim [OF assms(1-3)] holds_mv [OF assms(1,4)]
    holds_getchunk [OF assms(1,5)] holds_cp [OF assms(1), of "if tag r = 0xff then n + 1 else 1" d]
  by simp

definition blank_ref :: nn_chunkref where
  "blank_ref = \<lparr>tag = 0, inl = replicate 31 0, chunk = (0, 0)\<rparr>"

theorem nn_chunkref_is_its_bytes_witness:
  "\<exists>r' h'. nn_chunkref_trim (blank_ref\<lparr>tag := 0xff, chunk := (0, 8)\<rparr>) 2 (small_mem 1) = Some (r', h')
    \<and> holds h' r' [3] 1"
proof -
  let ?r = "blank_ref\<lparr>tag := 0xff, chunk := (0, 8)\<rparr>"
  have "holds (small_mem 1) ?r [1, 2, 3] 1"
    by (rule holds_chunk [where b = "small_chunk 1"])
      (use small_mem_valid [of 1] in \<open>simp_all add: blank_ref_def NN_CHUNKREF_MAX_def
        small_chunk_def chunk_bytes_def slice_def\<close>)
  then show ?thesis
    using nn_chunkref_is_its_bytes [of "small_mem 1" ?r "[1, 2, 3]" 1 2 blank_ref plain_malloc]
    by (simp add: blank_ref_def NN_CHUNKREF_MAX_def plain_malloc_def)
qed

end
