(* ===== verification/NN_List.thy ===== *)
theory NN_List
  imports Getd_Prelude
begin

text \<open>
  \<open>utils/list.c\<close> of nanomsg: the intrusive doubly linked list. Items live in a store that maps
  addresses to their two pointers; \<open>None\<close> is a failed \<open>nn_assert\<close> or the dereference of a pointer
  that is not an item. \<open>is_list\<close> says which sequence of addresses a list head stands for, and
  every operation is shown to be the obvious operation on that sequence, which is how the
  components built on lists use them (\<open>seq_insert\<close>, \<open>seq_erase\<close>).
\<close>

section \<open>The code\<close>

datatype ptr = NULL | NOTINLIST | Item nat

record nn_list_item =
  item_next :: ptr
  item_prev :: ptr

record nn_list =
  list_first :: ptr
  list_last :: ptr

type_synonym list_store = "nat \<Rightarrow> nn_list_item option"

fun deref :: "list_store \<Rightarrow> ptr \<Rightarrow> nn_list_item option" where
  "deref h (Item a) = h a"
| "deref h _ = None"

fun store_next :: "list_store \<Rightarrow> ptr \<Rightarrow> ptr \<Rightarrow> list_store option" where
  "store_next h (Item a) q = do { i \<leftarrow> h a; Some (h(a \<mapsto> i\<lparr>item_next := q\<rparr>)) }"
| "store_next h _ q = None"

fun store_prev :: "list_store \<Rightarrow> ptr \<Rightarrow> ptr \<Rightarrow> list_store option" where
  "store_prev h (Item a) q = do { i \<leftarrow> h a; Some (h(a \<mapsto> i\<lparr>item_prev := q\<rparr>)) }"
| "store_prev h _ q = None"

definition nn_list_init :: "nn_list" where
  "nn_list_init = \<lparr>list_first = NULL, list_last = NULL\<rparr>"

definition nn_list_term :: "nn_list \<Rightarrow> unit option" where
  "nn_list_term self = (if list_first self = NULL \<and> list_last self = NULL then Some () else None)"

definition nn_list_empty :: "nn_list \<Rightarrow> bool" where
  "nn_list_empty self = (list_first self = NULL)"

definition nn_list_begin :: "nn_list \<Rightarrow> ptr" where
  "nn_list_begin self = list_first self"

definition nn_list_end :: "nn_list \<Rightarrow> ptr" where
  "nn_list_end self = NULL"

definition nn_list_prev :: "nn_list \<Rightarrow> list_store \<Rightarrow> ptr \<Rightarrow> ptr option" where
  "nn_list_prev self h it =
     (if it = NULL then Some (list_last self)
      else do { i \<leftarrow> deref h it; if item_prev i \<noteq> NOTINLIST then Some (item_prev i) else None })"

definition nn_list_next :: "nn_list \<Rightarrow> list_store \<Rightarrow> ptr \<Rightarrow> ptr option" where
  "nn_list_next self h it =
     do { i \<leftarrow> deref h it; if item_next i \<noteq> NOTINLIST then Some (item_next i) else None }"

definition nn_list_item_isinlist :: "nn_list_item \<Rightarrow> bool" where
  "nn_list_item_isinlist self = (item_prev self \<noteq> NOTINLIST)"

definition nn_list_item_init :: "list_store \<Rightarrow> nat \<Rightarrow> list_store" where
  "nn_list_item_init h self = h(self \<mapsto> \<lparr>item_next = NOTINLIST, item_prev = NOTINLIST\<rparr>)"

definition nn_list_item_term :: "nn_list_item \<Rightarrow> unit option" where
  "nn_list_item_term self = (if nn_list_item_isinlist self then None else Some ())"

definition nn_list_insert ::
  "nn_list \<Rightarrow> list_store \<Rightarrow> nat \<Rightarrow> ptr \<Rightarrow> (nn_list \<times> list_store) option" where
  "nn_list_insert self h item it = do {
     i \<leftarrow> h item;
     if nn_list_item_isinlist i then None else do {
       p \<leftarrow> (if it \<noteq> NULL then map_option item_prev (deref h it) else Some (list_last self));
       h \<leftarrow> store_prev h (Item item) p;
       h \<leftarrow> store_next h (Item item) it;
       h \<leftarrow> (if p \<noteq> NULL then store_next h p (Item item) else Some h);
       h \<leftarrow> (if it \<noteq> NULL then store_prev h it (Item item) else Some h);
       let self = (if list_first self = NULL \<or> list_first self = it
                   then self\<lparr>list_first := Item item\<rparr> else self);
       let self = (if it = NULL then self\<lparr>list_last := Item item\<rparr> else self);
       Some (self, h) } }"

definition nn_list_erase ::
  "nn_list \<Rightarrow> list_store \<Rightarrow> nat \<Rightarrow> (ptr \<times> nn_list \<times> list_store) option" where
  "nn_list_erase self h item = do {
     i \<leftarrow> h item;
     if \<not> nn_list_item_isinlist i then None else do {
       (self, h) \<leftarrow> (if item_prev i \<noteq> NULL
          then map_option (Pair self) (store_next h (item_prev i) (item_next i))
          else Some (self\<lparr>list_first := item_next i\<rparr>, h));
       i \<leftarrow> h item;
       (self, h) \<leftarrow> (if item_next i \<noteq> NULL
          then map_option (Pair self) (store_prev h (item_next i) (item_prev i))
          else Some (self\<lparr>list_last := item_prev i\<rparr>, h));
       i \<leftarrow> h item;
       Some (item_next i, self, h(item \<mapsto> \<lparr>item_next = NOTINLIST, item_prev = NOTINLIST\<rparr>)) } }"

section \<open>The sequence a list stands for\<close>

definition seq_begin :: "'a list \<Rightarrow> 'a option" where
  "seq_begin xs = (if xs = [] then None else Some (hd xs))"

fun seq_next :: "'a list \<Rightarrow> 'a \<Rightarrow> 'a option" where
  "seq_next [] a = None"
| "seq_next (x # xs) a = (if x = a then seq_begin xs else seq_next xs a)"

text \<open>Insertion before an item, \<open>None\<close> (the end iterator) standing for the end.\<close>

fun seq_insert :: "'a list \<Rightarrow> 'a \<Rightarrow> 'a option \<Rightarrow> 'a list" where
  "seq_insert xs a None = xs @ [a]"
| "seq_insert [] a (Some b) = [a]"
| "seq_insert (x # xs) a (Some b) = (if x = b then a # x # xs else x # seq_insert xs a (Some b))"

definition seq_erase :: "'a list \<Rightarrow> 'a \<Rightarrow> 'a list" where
  "seq_erase xs a = remove1 a xs"

lemma seq_insert_split: "b \<notin> set ys \<Longrightarrow> seq_insert (ys @ b # zs) a (Some b) = ys @ a # b # zs"
  by (induction ys) auto

lemma seq_next_split: "a \<notin> set ys \<Longrightarrow> seq_next (ys @ a # zs) a = seq_begin zs"
  by (induction ys) auto

lemma seq_erase_split: "a \<notin> set ys \<Longrightarrow> seq_erase (ys @ a # zs) a = ys @ zs"
  by (simp add: seq_erase_def remove1_append)

lemma set_seq_insert [simp]: "set (seq_insert xs a it) = insert a (set xs)"
  by (induction xs a it rule: seq_insert.induct) auto

lemma distinct_seq_insert: "distinct xs \<Longrightarrow> a \<notin> set xs \<Longrightarrow> distinct (seq_insert xs a it)"
  by (induction xs a it rule: seq_insert.induct) auto

lemma set_seq_erase: "distinct xs \<Longrightarrow> set (seq_erase xs a) = set xs - {a}"
  by (simp add: seq_erase_def)

lemma distinct_seq_erase: "distinct xs \<Longrightarrow> distinct (seq_erase xs a)"
  by (simp add: seq_erase_def)

fun to_ptr :: "nat option \<Rightarrow> ptr" where
  "to_ptr None = NULL"
| "to_ptr (Some a) = Item a"

fun first_ptr :: "nat list \<Rightarrow> ptr \<Rightarrow> ptr" where
  "first_ptr [] n = n"
| "first_ptr (a # as) n = Item a"

fun last_ptr :: "ptr \<Rightarrow> nat list \<Rightarrow> ptr" where
  "last_ptr p [] = p"
| "last_ptr p (a # as) = last_ptr (Item a) as"

text \<open>The items of a segment with predecessor \<open>p\<close> and successor \<open>n\<close> point to each other.\<close>

fun links :: "list_store \<Rightarrow> ptr \<Rightarrow> nat list \<Rightarrow> ptr \<Rightarrow> bool" where
  "links h p [] n = True"
| "links h p (a # as) n =
     (h a = Some \<lparr>item_next = first_ptr as n, item_prev = p\<rparr> \<and> links h (Item a) as n)"

definition is_list :: "list_store \<Rightarrow> nn_list \<Rightarrow> nat list \<Rightarrow> bool" where
  "is_list h l xs \<longleftrightarrow> distinct xs \<and> list_first l = first_ptr xs NULL
     \<and> list_last l = last_ptr NULL xs \<and> links h NULL xs NULL"

lemma links_append:
  "links h p (ys @ zs) n \<longleftrightarrow> links h p ys (first_ptr zs n) \<and> links h (last_ptr p ys) zs n"
proof (induction ys arbitrary: p)
  case (Cons a ys)
  then show ?case by (cases ys) auto
qed simp

lemma first_ptr_append [simp]: "first_ptr (ys @ zs) n = first_ptr ys (first_ptr zs n)"
  by (cases ys) auto

lemma last_ptr_append [simp]: "last_ptr p (ys @ zs) = last_ptr (last_ptr p ys) zs"
  by (induction ys arbitrary: p) auto

lemma links_cong: "(\<And>a. a \<in> set xs \<Longrightarrow> h' a = h a) \<Longrightarrow> links h' p xs n = links h p xs n"
  by (induction xs arbitrary: p) auto

lemma links_upd [simp]: "a \<notin> set xs \<Longrightarrow> links (h(a := v)) p xs n = links h p xs n"
  by (rule links_cong) auto

lemma first_ptr_NULL [simp]: "first_ptr xs NULL = NULL \<longleftrightarrow> xs = []"
  by (cases xs) auto

lemma first_ptr_to_ptr: "first_ptr xs NULL = to_ptr (seq_begin xs)"
  by (cases xs) (auto simp: seq_begin_def)

lemma last_ptr_snoc_cases: "xs = [] \<or> (\<exists>ys a. xs = ys @ [a])"
  by (cases xs rule: rev_cases) auto

lemma last_ptr_NULL [simp]: "last_ptr NULL xs = NULL \<longleftrightarrow> xs = []"
  by (cases xs rule: rev_cases) auto

lemma links_prev: "links h p xs n \<Longrightarrow> p \<noteq> NOTINLIST \<Longrightarrow> a \<in> set xs \<Longrightarrow>
    \<exists>i. h a = Some i \<and> item_prev i \<noteq> NOTINLIST"
  by (induction xs arbitrary: p) auto

text \<open>A list head and its items only depend on the items of the list.\<close>

lemma is_list_frame: "is_list h l xs \<Longrightarrow> (\<And>a. a \<in> set xs \<Longrightarrow> h' a = h a) \<Longrightarrow> is_list h' l xs"
  using links_cong [of xs h' h NULL NULL] by (simp add: is_list_def)

lemma is_list_init: "is_list h nn_list_init []"
  by (simp add: is_list_def nn_list_init_def)

lemma is_list_empty: "is_list h l xs \<Longrightarrow> nn_list_empty l \<longleftrightarrow> xs = []"
  by (simp add: is_list_def nn_list_empty_def)

lemma is_list_term: "is_list h l xs \<Longrightarrow> nn_list_term l = Some () \<longleftrightarrow> xs = []"
  by (auto simp: is_list_def nn_list_term_def)

lemma is_list_begin: "is_list h l xs \<Longrightarrow> nn_list_begin l = to_ptr (seq_begin xs)"
  by (simp add: is_list_def nn_list_begin_def first_ptr_to_ptr)

lemma is_list_item: "is_list h l xs \<Longrightarrow> a \<in> set xs \<Longrightarrow>
    \<exists>i. h a = Some i \<and> nn_list_item_isinlist i"
  using links_prev [of h NULL xs NULL a] by (auto simp: is_list_def nn_list_item_isinlist_def)

lemma is_list_next:
  assumes "is_list h l xs" and "a \<in> set xs"
  shows "nn_list_next l h (Item a) = Some (to_ptr (seq_next xs a))"
proof -
  from assms(2) obtain ys zs where s: "xs = ys @ a # zs" "a \<notin> set ys"
    using split_list_first by metis
  with assms(1) have "h a = Some \<lparr>item_next = first_ptr zs NULL, item_prev = last_ptr NULL ys\<rparr>"
    by (simp add: is_list_def links_append)
  with s show ?thesis
    by (cases zs) (auto simp: nn_list_next_def seq_next_split seq_begin_def)
qed

lemma is_list_prev:
  assumes "is_list h l xs" and "xs = ys @ zs"
  shows "nn_list_prev l h (first_ptr zs NULL) = Some (last_ptr NULL ys)"
proof (cases zs)
  case Nil
  with assms show ?thesis by (simp add: is_list_def nn_list_prev_def)
next
  case (Cons a zs')
  then have "h a = Some \<lparr>item_next = first_ptr zs' NULL, item_prev = last_ptr NULL ys\<rparr>"
    using assms by (simp add: is_list_def links_append)
  moreover have "last_ptr NULL ys \<noteq> NOTINLIST" by (cases ys rule: rev_cases) auto
  ultimately show ?thesis using Cons by (simp add: nn_list_prev_def)
qed


section \<open>Insertion and removal on the sequence\<close>

text \<open>
  The two pointer updates of an insertion or removal only touch the neighbours: stated once for
  a predecessor and a successor that may each be absent.
\<close>

definition set_next_of :: "list_store \<Rightarrow> ptr \<Rightarrow> ptr \<Rightarrow> list_store" where
  "set_next_of h p q = (case p of Item a \<Rightarrow> h(a \<mapsto> (the (h a))\<lparr>item_next := q\<rparr>) | _ \<Rightarrow> h)"

definition set_prev_of :: "list_store \<Rightarrow> ptr \<Rightarrow> ptr \<Rightarrow> list_store" where
  "set_prev_of h p q = (case p of Item a \<Rightarrow> h(a \<mapsto> (the (h a))\<lparr>item_prev := q\<rparr>) | _ \<Rightarrow> h)"

lemma links_set_next:
  assumes "links h p ys n" and "distinct ys" and "p \<notin> Item ` set ys"
  shows "links (set_next_of h (last_ptr NULL ys) q) p ys q"
proof (cases ys rule: rev_cases)
  case (snoc us u)
  then have "u \<notin> set us" using assms(2) by simp
  with assms(1) snoc show ?thesis
    by (simp add: set_next_of_def links_append)
qed simp

lemma links_set_prev:
  assumes "links h p zs n" and "distinct zs"
  shows "links (set_prev_of h (first_ptr zs NULL) q) q zs n"
  using assms by (cases zs) (auto simp: set_prev_of_def)

lemma links_set_other:
  "p \<notin> Item ` set xs \<Longrightarrow> links (set_next_of h p q) r xs n = links h r xs n"
  "p \<notin> Item ` set xs \<Longrightarrow> links (set_prev_of h p q) r xs n = links h r xs n"
proof -
  show "p \<notin> Item ` set xs \<Longrightarrow> links (set_next_of h p q) r xs n = links h r xs n"
    by (cases p) (simp_all add: set_next_of_def image_iff)
  show "p \<notin> Item ` set xs \<Longrightarrow> links (set_prev_of h p q) r xs n = links h r xs n"
    by (cases p) (simp_all add: set_prev_of_def image_iff)
qed

lemma last_ptr_in: "last_ptr NULL ys = NULL \<or> (\<exists>u \<in> set ys. last_ptr NULL ys = Item u)"
  by (cases ys rule: rev_cases) auto

lemma first_ptr_in: "first_ptr zs NULL = NULL \<or> (\<exists>u \<in> set zs. first_ptr zs NULL = Item u)"
  by (cases zs) auto

lemma is_list_insert_split:
  assumes l: "is_list h l (ys @ zs)" and i: "h item = Some i" and n: "\<not> nn_list_item_isinlist i"
  shows "\<exists>l' h'. nn_list_insert l h item (first_ptr zs NULL) = Some (l', h')
    \<and> is_list h' l' (ys @ item # zs) \<and> (\<forall>a. a \<noteq> item \<and> a \<notin> set (ys @ zs) \<longrightarrow> h' a = h a)"
proof -
  obtain x y where ixy: "i = \<lparr>item_next = x, item_prev = y\<rparr>" by (cases i)
  have notin: "item \<notin> set ys" "item \<notin> set zs"
    using is_list_item [OF l, of item] i n by auto
  have d: "distinct ys" "distinct zs" "set ys \<inter> set zs = {}"
    using l by (auto simp: is_list_def)
  have ends: "list_first l = first_ptr ys (first_ptr zs NULL)"
    "list_last l = last_ptr (last_ptr NULL ys) zs"
    and lk: "links h NULL ys (first_ptr zs NULL)" "links h (last_ptr NULL ys) zs NULL"
    using l by (auto simp: is_list_def links_append)
  define h1 where "h1 = h(item \<mapsto> \<lparr>item_next = first_ptr zs NULL, item_prev = last_ptr NULL ys\<rparr>)"
  define h2 where "h2 = set_next_of h1 (last_ptr NULL ys) (Item item)"
  define h3 where "h3 = set_prev_of h2 (first_ptr zs NULL) (Item item)"
  have lk1: "links h1 NULL ys (first_ptr zs NULL)" "links h1 (last_ptr NULL ys) zs NULL"
    using lk notin by (simp_all add: h1_def)
  have out: "last_ptr NULL ys \<notin> Item ` set zs" "first_ptr zs NULL \<notin> Item ` set ys"
    "last_ptr NULL ys \<noteq> Item item" "first_ptr zs NULL \<noteq> Item item"
    using last_ptr_in [of ys] first_ptr_in [of zs] d(3) notin by auto
  have lk2: "links h2 NULL ys (Item item)" "links h2 (last_ptr NULL ys) zs NULL"
    using links_set_next [OF lk1(1) d(1)] lk1(2) out by (auto simp: h2_def links_set_other)
  have lk3: "links h3 NULL ys (Item item)" "links h3 (Item item) zs NULL"
    using lk2(1) links_set_prev [OF lk2(2) d(2)] out by (auto simp: h3_def links_set_other)
  have it: "h3 item = h1 item"
    using out(3,4) by (auto simp: h3_def h2_def set_next_of_def set_prev_of_def split: ptr.split)
  have frame: "h3 a = h a" if "a \<noteq> item" "a \<notin> set (ys @ zs)" for a
    using that last_ptr_in [of ys] first_ptr_in [of zs]
    by (auto simp: h3_def h2_def h1_def set_next_of_def set_prev_of_def split: ptr.split)
  define l' where "l' = \<lparr>list_first = first_ptr ys (Item item),
    list_last = last_ptr (Item item) zs\<rparr>"
  have "is_list h3 l' (ys @ item # zs)"
    using d notin lk3 it by (auto simp: is_list_def l'_def links_append h1_def)
  moreover have "nn_list_insert l h item (first_ptr zs NULL) = Some (l', h3)"
  proof (cases zs)
    case Nil
    then show ?thesis
    proof (cases ys rule: rev_cases)
      case Nil
      then show ?thesis using \<open>zs = []\<close> i n ixy ends
        by (simp add: nn_list_insert_def h3_def h2_def h1_def set_next_of_def set_prev_of_def l'_def)
    next
      case (snoc us u)
      then show ?thesis using Nil i n ixy ends lk(1) notin
        by (cases us) (simp_all add: nn_list_insert_def h3_def h2_def h1_def set_next_of_def
             set_prev_of_def l'_def links_append)
    qed
  next
    case (Cons v vs)
    then show ?thesis
    proof (cases ys rule: rev_cases)
      case Nil
      then show ?thesis using Cons i n ixy ends lk notin
        by (simp add: nn_list_insert_def h3_def h2_def h1_def set_next_of_def set_prev_of_def l'_def
             map_option_case)
    next
      case (snoc us u)
      then have "u \<noteq> v" "v \<noteq> u" using Cons d by auto
      then show ?thesis using snoc Cons i n ixy ends lk notin d
        by (cases us) (auto simp add: nn_list_insert_def h3_def h2_def h1_def set_next_of_def
             set_prev_of_def l'_def links_append)
    qed
  qed
  ultimately show ?thesis using frame by blast
qed

lemma seq_position:
  assumes "distinct xs" and "it = None \<or> (\<exists>b \<in> set xs. it = Some b)"
  obtains ys zs where "xs = ys @ zs" "to_ptr it = first_ptr zs NULL" "seq_insert xs a it = ys @ a # zs"
proof (cases it)
  case None
  then show ?thesis using that [of xs "[]"] by simp
next
  case (Some b)
  with assms obtain ys zs where "xs = ys @ b # zs" "b \<notin> set ys"
    using split_list_first by (metis option.inject option.distinct(1))
  then show ?thesis using that [of ys "b # zs"] Some by (simp add: seq_insert_split)
qed

lemma is_list_erase_split:
  assumes l: "is_list h l (ys @ item # zs)"
  shows "\<exists>l' h'. nn_list_erase l h item = Some (first_ptr zs NULL, l', h')
    \<and> is_list h' l' (ys @ zs) \<and> h' item = Some \<lparr>item_next = NOTINLIST, item_prev = NOTINLIST\<rparr>
    \<and> (\<forall>a. a \<notin> set (ys @ item # zs) \<longrightarrow> h' a = h a)"
proof -
  have notin: "item \<notin> set ys" "item \<notin> set zs" and d: "distinct ys" "distinct zs"
    "set ys \<inter> set zs = {}" using l by (auto simp: is_list_def)
  have ends: "list_first l = first_ptr ys (Item item)" "list_last l = last_ptr (Item item) zs"
    and lk: "links h NULL ys (Item item)" "links h (Item item) zs NULL"
    and i: "h item = Some \<lparr>item_next = first_ptr zs NULL, item_prev = last_ptr NULL ys\<rparr>"
    using l by (auto simp: is_list_def links_append)
  have inl: "last_ptr NULL ys \<noteq> NOTINLIST" using last_ptr_in [of ys] by auto
  define h1 where "h1 = set_next_of h (last_ptr NULL ys) (first_ptr zs NULL)"
  define h2 where "h2 = set_prev_of h1 (first_ptr zs NULL) (last_ptr NULL ys)"
  define h3 where "h3 = h2(item \<mapsto> \<lparr>item_next = NOTINLIST, item_prev = NOTINLIST\<rparr>)"
  have out: "last_ptr NULL ys \<notin> Item ` set zs" "first_ptr zs NULL \<notin> Item ` set ys"
    using last_ptr_in [of ys] first_ptr_in [of zs] d(3) by auto
  have lk1: "links h1 NULL ys (first_ptr zs NULL)" "links h1 (Item item) zs NULL"
    using links_set_next [OF lk(1) d(1)] lk(2) out by (auto simp: h1_def links_set_other)
  have lk2: "links h2 NULL ys (first_ptr zs NULL)" "links h2 (last_ptr NULL ys) zs NULL"
    using lk1(1) links_set_prev [OF lk1(2) d(2)] out by (auto simp: h2_def links_set_other)
  have frame: "h3 a = h a" if "a \<notin> set (ys @ item # zs)" for a
    using that last_ptr_in [of ys] first_ptr_in [of zs]
    by (auto simp: h3_def h2_def h1_def set_next_of_def set_prev_of_def split: ptr.split)
  define l' where "l' = \<lparr>list_first = first_ptr ys (first_ptr zs NULL),
    list_last = last_ptr (last_ptr NULL ys) zs\<rparr>"
  have "is_list h3 l' (ys @ zs)"
    using d notin lk2 by (auto simp: is_list_def l'_def links_append h3_def)
  moreover have "nn_list_erase l h item = Some (first_ptr zs NULL, l', h3)"
  proof (cases zs)
    case Nil
    then show ?thesis
    proof (cases ys rule: rev_cases)
      case Nil
      then show ?thesis using \<open>zs = []\<close> i ends
        by (simp add: nn_list_erase_def nn_list_item_isinlist_def h3_def h2_def h1_def
             set_next_of_def set_prev_of_def l'_def)
    next
      case (snoc us u)
      then show ?thesis using Nil i ends lk(1) notin
        by (cases us) (simp_all add: nn_list_erase_def nn_list_item_isinlist_def h3_def h2_def
             h1_def set_next_of_def set_prev_of_def l'_def links_append)
    qed
  next
    case (Cons v vs)
    then show ?thesis
    proof (cases ys rule: rev_cases)
      case Nil
      then show ?thesis using Cons i ends lk notin
        by (simp add: nn_list_erase_def nn_list_item_isinlist_def h3_def h2_def h1_def
             set_next_of_def set_prev_of_def l'_def)
    next
      case (snoc us u)
      then have "u \<noteq> v" "v \<noteq> u" using Cons d by auto
      then show ?thesis using snoc Cons i ends lk notin d
        by (cases us) (auto simp add: nn_list_erase_def nn_list_item_isinlist_def h3_def h2_def
             h1_def set_next_of_def set_prev_of_def l'_def links_append)
    qed
  qed
  ultimately show ?thesis using frame by (auto simp: h3_def)
qed


section \<open>The interface of a list\<close>

text \<open>
  What the code built on lists relies on. \<open>rep s xs\<close>: the list in state \<open>s\<close> is \<open>xs\<close>; \<open>free s a\<close>:
  the item \<open>a\<close> is initialised and in no list.
\<close>

datatype 'a list_op = Insert 'a "'a option" | Erase 'a

fun run_list_op ::
  "('s \<Rightarrow> 'a \<Rightarrow> 'a option \<Rightarrow> 's option) \<Rightarrow> ('s \<Rightarrow> 'a \<Rightarrow> ('a option \<times> 's) option) \<Rightarrow>
   's \<Rightarrow> 'a list_op \<Rightarrow> 's option" where
  "run_list_op ins del s (Insert a it) = ins s a it"
| "run_list_op ins del s (Erase a) = map_option snd (del s a)"

fun run_list_ops ::
  "('s \<Rightarrow> 'a \<Rightarrow> 'a option \<Rightarrow> 's option) \<Rightarrow> ('s \<Rightarrow> 'a \<Rightarrow> ('a option \<times> 's) option) \<Rightarrow>
   's \<Rightarrow> 'a list_op list \<Rightarrow> 's option" where
  "run_list_ops ins del s [] = Some s"
| "run_list_ops ins del s (x # xs) =
     Option.bind (run_list_op ins del s x) (\<lambda>s. run_list_ops ins del s xs)"

text \<open>The same on sequences, with the conditions under which the code may be called.\<close>

fun seq_op :: "'a list \<Rightarrow> 'a list_op \<Rightarrow> 'a list option" where
  "seq_op xs (Insert a it) =
     (if a \<notin> set xs \<and> (case it of None \<Rightarrow> True | Some b \<Rightarrow> b \<in> set xs)
      then Some (seq_insert xs a it) else None)"
| "seq_op xs (Erase a) = (if a \<in> set xs then Some (seq_erase xs a) else None)"

fun seq_ops :: "'a list \<Rightarrow> 'a list_op list \<Rightarrow> 'a list option" where
  "seq_ops xs [] = Some xs"
| "seq_ops xs (x # ops) = Option.bind (seq_op xs x) (\<lambda>xs. seq_ops xs ops)"

text \<open>A loop over the list, from \<open>nn_list_begin\<close> by \<open>nn_list_next\<close>, collecting at most \<open>n\<close> items.\<close>

fun walk :: "('a \<Rightarrow> 'a option option) \<Rightarrow> nat \<Rightarrow> 'a option \<Rightarrow> 'a list option" where
  "walk nxt n None = Some []"
| "walk nxt 0 (Some a) = None"
| "walk nxt (Suc n) (Some a) =
     Option.bind (nxt a) (\<lambda>it. map_option ((#) a) (walk nxt n it))"

locale list_interface =
  fixes rep :: "'s \<Rightarrow> 'a list \<Rightarrow> bool"
    and free :: "'s \<Rightarrow> 'a \<Rightarrow> bool"
    and beg :: "'s \<Rightarrow> 'a option"
    and nxt :: "'s \<Rightarrow> 'a \<Rightarrow> 'a option option"
    and ins :: "'s \<Rightarrow> 'a \<Rightarrow> 'a option \<Rightarrow> 's option"
    and del :: "'s \<Rightarrow> 'a \<Rightarrow> ('a option \<times> 's) option"
  assumes rep_distinct: "rep s xs \<Longrightarrow> distinct xs"
    and rep_not_free: "rep s xs \<Longrightarrow> a \<in> set xs \<Longrightarrow> \<not> free s a"
    and beg_law: "rep s xs \<Longrightarrow> beg s = seq_begin xs"
    and nxt_law: "rep s xs \<Longrightarrow> a \<in> set xs \<Longrightarrow> nxt s a = Some (seq_next xs a)"
    and ins_law: "rep s xs \<Longrightarrow> free s a \<Longrightarrow> it = None \<or> (\<exists>b \<in> set xs. it = Some b) \<Longrightarrow>
      \<exists>s'. ins s a it = Some s' \<and> rep s' (seq_insert xs a it)
        \<and> (\<forall>b. free s' b \<longleftrightarrow> free s b \<and> b \<noteq> a)"
    and del_law: "rep s xs \<Longrightarrow> a \<in> set xs \<Longrightarrow>
      \<exists>s'. del s a = Some (seq_next xs a, s') \<and> rep s' (seq_erase xs a)
        \<and> (\<forall>b. free s' b \<longleftrightarrow> free s b \<or> b = a)"
begin

lemma walk_suffix:
  "rep s (ys @ zs) \<Longrightarrow> length zs \<le> n \<Longrightarrow> walk (nxt s) n (seq_begin zs) = Some zs"
proof (induction zs arbitrary: ys n)
  case Nil
  then show ?case by (simp add: seq_begin_def)
next
  case (Cons z zs)
  have "nxt s z = Some (seq_next (ys @ z # zs) z)" using nxt_law Cons.prems by auto
  moreover have "z \<notin> set ys" using rep_distinct [OF Cons.prems(1)] by auto
  ultimately have "nxt s z = Some (seq_begin zs)" by (simp add: seq_next_split)
  moreover have "walk (nxt s) (n - 1) (seq_begin zs) = Some zs"
    using Cons.IH [of "ys @ [z]" "n - 1"] Cons.prems by simp
  ultimately show ?case using Cons.prems(2) by (cases n) (auto simp: seq_begin_def)
qed

text \<open>Iterating visits every item of the list once, in order.\<close>

lemma walk_all: "rep s xs \<Longrightarrow> length xs \<le> n \<Longrightarrow> walk (nxt s) n (beg s) = Some xs"
  using walk_suffix [of s "[]" xs n] by (simp add: beg_law)

text \<open>Any script of operations that respects the conditions runs, and ends on the sequence.\<close>

lemma run_ops:
  "rep s xs \<Longrightarrow> (\<And>a. a \<in> U \<Longrightarrow> free s a \<or> a \<in> set xs) \<Longrightarrow> seq_ops xs ops = Some ys \<Longrightarrow>
   (\<Union>x \<in> set ops. case x of Insert a it \<Rightarrow> {a} | Erase a \<Rightarrow> {}) \<subseteq> U \<Longrightarrow>
   \<exists>s'. run_list_ops ins del s ops = Some s' \<and> rep s' ys"
proof (induction ops arbitrary: s xs)
  case Nil
  then show ?case by simp
next
  case (Cons x ops)
  show ?case
  proof (cases x)
    case (Insert a it)
    with Cons.prems have a: "a \<notin> set xs" "it = None \<or> (\<exists>b \<in> set xs. it = Some b)"
      and r: "seq_ops (seq_insert xs a it) ops = Some ys"
      by (auto split: if_splits option.splits)
    have "free s a" using Cons.prems(2,4) a(1) Insert by auto
    then obtain s' where s': "ins s a it = Some s'" "rep s' (seq_insert xs a it)"
      "\<forall>b. free s' b \<longleftrightarrow> free s b \<and> b \<noteq> a" using ins_law [OF Cons.prems(1) _ a(2)] by blast
    have "\<exists>s''. run_list_ops ins del s' ops = Some s'' \<and> rep s'' ys"
      using Cons.IH [OF s'(2) _ r] s'(3) Cons.prems(2,4) by auto
    with s'(1) Insert show ?thesis by simp
  next
    case (Erase a)
    with Cons.prems have a: "a \<in> set xs" and r: "seq_ops (seq_erase xs a) ops = Some ys"
      by (auto split: if_splits)
    obtain s' where s': "del s a = Some (seq_next xs a, s')" "rep s' (seq_erase xs a)"
      "\<forall>b. free s' b \<longleftrightarrow> free s b \<or> b = a" using del_law [OF Cons.prems(1) a] by blast
    have "\<exists>s''. run_list_ops ins del s' ops = Some s'' \<and> rep s'' ys"
      using Cons.IH [OF s'(2) _ r] s'(3) Cons.prems(2,4)
        set_seq_erase [OF rep_distinct [OF Cons.prems(1)]] by auto
    with s'(1) Erase show ?thesis by simp
  qed
qed

end

text \<open>The code of \<open>list.c\<close> provides the interface.\<close>

fun of_ptr :: "ptr \<Rightarrow> nat option" where
  "of_ptr (Item a) = Some a"
| "of_ptr _ = None"

lemma of_ptr_to_ptr [simp]: "of_ptr (to_ptr it) = it"
  by (cases it) auto

definition code_rep :: "nn_list \<times> list_store \<Rightarrow> nat list \<Rightarrow> bool" where
  "code_rep s xs = is_list (snd s) (fst s) xs"

definition code_free :: "nn_list \<times> list_store \<Rightarrow> nat \<Rightarrow> bool" where
  "code_free s a = (case snd s a of None \<Rightarrow> False | Some i \<Rightarrow> \<not> nn_list_item_isinlist i)"

definition code_begin :: "nn_list \<times> list_store \<Rightarrow> nat option" where
  "code_begin s = of_ptr (nn_list_begin (fst s))"

definition code_next :: "nn_list \<times> list_store \<Rightarrow> nat \<Rightarrow> nat option option" where
  "code_next s a = map_option of_ptr (nn_list_next (fst s) (snd s) (Item a))"

definition code_insert :: "nn_list \<times> list_store \<Rightarrow> nat \<Rightarrow> nat option \<Rightarrow> (nn_list \<times> list_store) option" where
  "code_insert s a it = nn_list_insert (fst s) (snd s) a (to_ptr it)"

definition code_erase :: "nn_list \<times> list_store \<Rightarrow> nat \<Rightarrow> (nat option \<times> nn_list \<times> list_store) option" where
  "code_erase s a = map_option (apfst of_ptr) (nn_list_erase (fst s) (snd s) a)"

lemma code_insert_law:
  assumes "code_rep s xs" and "code_free s a" and "it = None \<or> (\<exists>b \<in> set xs. it = Some b)"
  shows "\<exists>s'. code_insert s a it = Some s' \<and> code_rep s' (seq_insert xs a it)
    \<and> (\<forall>b. code_free s' b \<longleftrightarrow> code_free s b \<and> b \<noteq> a)"
proof -
  have dx: "distinct xs" using assms(1) by (simp add: code_rep_def is_list_def)
  obtain ys zs where pos: "xs = ys @ zs" "to_ptr it = first_ptr zs NULL"
    "seq_insert xs a it = ys @ a # zs"
    using seq_position [OF dx assms(3)] by metis
  obtain i where i: "snd s a = Some i" "\<not> nn_list_item_isinlist i"
    using assms(2) by (auto simp: code_free_def split: option.splits)
  from is_list_insert_split [OF assms(1) [unfolded code_rep_def pos(1)] i] obtain l' h' where
    r: "nn_list_insert (fst s) (snd s) a (first_ptr zs NULL) = Some (l', h')"
      "is_list h' l' (ys @ a # zs)" "\<forall>b. b \<noteq> a \<and> b \<notin> set (ys @ zs) \<longrightarrow> h' b = snd s b" by blast
  have "code_free (l', h') b \<longleftrightarrow> code_free s b \<and> b \<noteq> a" for b
  proof (cases "b \<in> set (ys @ a # zs)")
    case True
    then show ?thesis
      using is_list_item [OF r(2), of b] is_list_item [OF assms(1) [unfolded code_rep_def], of b] pos(1)
      by (auto simp: code_free_def)
  next
    case False
    then show ?thesis using r(3) by (auto simp: code_free_def)
  qed
  with r pos show ?thesis by (auto simp: code_insert_def code_rep_def)
qed

lemma code_erase_law:
  assumes "code_rep s xs" and "a \<in> set xs"
  shows "\<exists>s'. code_erase s a = Some (seq_next xs a, s') \<and> code_rep s' (seq_erase xs a)
    \<and> (\<forall>b. code_free s' b \<longleftrightarrow> code_free s b \<or> b = a)"
proof -
  from assms(2) obtain ys zs where p: "xs = ys @ a # zs" "a \<notin> set ys"
    using split_list_first by metis
  from is_list_erase_split [OF assms(1) [unfolded code_rep_def p(1)]] obtain l' h' where
    r: "nn_list_erase (fst s) (snd s) a = Some (first_ptr zs NULL, l', h')" "is_list h' l' (ys @ zs)"
      "h' a = Some \<lparr>item_next = NOTINLIST, item_prev = NOTINLIST\<rparr>"
      "\<forall>b. b \<notin> set (ys @ a # zs) \<longrightarrow> h' b = snd s b" by blast
  have "code_free (l', h') b \<longleftrightarrow> code_free s b \<or> b = a" for b
  proof (cases "b \<in> set (ys @ zs)")
    case True
    moreover from this have "b \<noteq> a"
      using assms(1) p(1) by (auto simp: code_rep_def is_list_def)
    ultimately show ?thesis
      using is_list_item [OF r(2), of b] is_list_item [OF assms(1) [unfolded code_rep_def], of b] p(1)
      by (auto simp: code_free_def)
  next
    case False
    then show ?thesis using r(3,4)
      by (cases "b = a") (auto simp: code_free_def nn_list_item_isinlist_def)
  qed
  with r p show ?thesis
    by (auto simp: code_erase_def code_rep_def seq_next_split seq_erase_split first_ptr_to_ptr)
qed

interpretation code_list: list_interface code_rep code_free code_begin code_next code_insert code_erase
proof unfold_locales
  fix s :: "nn_list \<times> list_store" and xs and a :: nat and it
  show "code_rep s xs \<Longrightarrow> distinct xs" by (simp add: code_rep_def is_list_def)
  show "code_rep s xs \<Longrightarrow> a \<in> set xs \<Longrightarrow> \<not> code_free s a"
    using is_list_item [of "snd s" "fst s" xs a] by (auto simp: code_rep_def code_free_def)
  show "code_rep s xs \<Longrightarrow> code_begin s = seq_begin xs"
    by (simp add: code_rep_def code_begin_def is_list_begin)
  show "code_rep s xs \<Longrightarrow> a \<in> set xs \<Longrightarrow> code_next s a = Some (seq_next xs a)"
    by (simp add: code_rep_def code_next_def is_list_next)
qed (fact code_insert_law code_erase_law)+

text \<open>
  The sequences themselves provide it too: this is the level at which the components built on
  lists call it.
\<close>

definition pure_insert :: "'a list \<times> 'a set \<Rightarrow> 'a \<Rightarrow> 'a option \<Rightarrow> ('a list \<times> 'a set) option" where
  "pure_insert s a it =
     (if a \<in> snd s then Some (seq_insert (fst s) a it, snd s - {a}) else None)"

definition pure_erase :: "'a list \<times> 'a set \<Rightarrow> 'a \<Rightarrow> ('a option \<times> 'a list \<times> 'a set) option" where
  "pure_erase s a = (if a \<in> set (fst s)
     then Some (seq_next (fst s) a, seq_erase (fst s) a, insert a (snd s)) else None)"

interpretation pure_list: list_interface
  "\<lambda>s xs. fst s = xs \<and> distinct xs \<and> set xs \<inter> snd s = {}" "\<lambda>s a. a \<in> snd s"
  "\<lambda>s. seq_begin (fst s)" "\<lambda>s a. Some (seq_next (fst s) a)" pure_insert pure_erase
  by unfold_locales
    (auto simp: pure_insert_def pure_erase_def distinct_seq_erase set_seq_erase
       intro!: distinct_seq_insert)

section \<open>Properties\<close>

text \<open>Fresh items \<open>0 .. n - 1\<close> and an empty list.\<close>

definition fresh_items :: "nat \<Rightarrow> list_store" where
  "fresh_items n = fold (\<lambda>a h. nn_list_item_init h a) [0..<n] (\<lambda>_. None)"

lemma fresh_items: "a < n \<Longrightarrow> fresh_items n a = Some \<lparr>item_next = NOTINLIST, item_prev = NOTINLIST\<rparr>"
proof (induction n)
  case (Suc n)
  then show ?case by (cases "a = n") (auto simp: fresh_items_def nn_list_item_init_def)
qed simp

text \<open>C12. Any script of insertions and erasures on an initialised list, as long as an item is only
  inserted when it is in no list, before the end or an item of the list, and only erased when it
  is in the list, runs in the pointer code of \<open>list.c\<close> without a failed assertion or a wild
  access, and the list it leaves, walked from \<open>nn_list_begin\<close> by \<open>nn_list_next\<close>, is exactly the
  sequence the script denotes.\<close>

theorem nn_list_refines_sequences:
  assumes "seq_ops [] ops = Some xs" and "\<forall>a it. Insert a it \<in> set ops \<longrightarrow> a < n"
  shows "\<exists>l h. run_list_ops code_insert code_erase (nn_list_init, fresh_items n) ops = Some (l, h)
    \<and> is_list h l xs \<and> walk (code_next (l, h)) (length xs) (code_begin (l, h)) = Some xs"
proof -
  have "code_rep (nn_list_init, fresh_items n) []" by (simp add: code_rep_def is_list_init)
  moreover have "a \<in> {..<n} \<Longrightarrow> code_free (nn_list_init, fresh_items n) a \<or> a \<in> set []" for a
    by (simp add: code_free_def fresh_items nn_list_item_isinlist_def)
  moreover have "(\<Union>x \<in> set ops. case x of Insert a it \<Rightarrow> {a} | Erase a \<Rightarrow> {}) \<subseteq> {..<n}"
    using assms(2) by (auto split: list_op.splits) blast
  ultimately obtain s' where
    "run_list_ops code_insert code_erase (nn_list_init, fresh_items n) ops = Some s'"
    "code_rep s' xs"
    using code_list.run_ops [OF _ _ assms(1)] by blast
  with code_list.walk_all show ?thesis by (cases s') (auto simp: code_rep_def)
qed

theorem nn_list_refines_sequences_witness:
  "\<exists>l h. run_list_ops code_insert code_erase (nn_list_init, fresh_items 3)
      [Insert 0 None, Insert 2 None, Insert 1 (Some 2), Erase 0] = Some (l, h)
    \<and> is_list h l [1, 2] \<and> walk (code_next (l, h)) (length [1, 2 :: nat]) (code_begin (l, h)) = Some [1, 2]"
  by (rule nn_list_refines_sequences) (auto simp: seq_erase_def)

end
