(* ===== verification/NN_Hash.thy ===== *)
theory NN_Hash
  imports NN_List
begin

text \<open>
  \<open>utils/hash.c\<close> of nanomsg: the hash table from 32-bit keys to intrusive items. The lists of the
  slots are the sequences of item addresses that \<open>NN_List\<close> proves them to be; an item is its key
  and whether its list item is linked (\<open>nn_list_item_isinlist\<close>), which the assertions of
  \<open>nn_list_insert\<close> and \<open>nn_list_erase\<close> look at. \<open>None\<close> is a failed assertion. The table is shown to
  implement a map, the interface \<open>key_map\<close>. Allocation is taken to succeed, as \<open>alloc_assert\<close>
  demands.
\<close>

unbundle bit_operations_syntax

section \<open>The code\<close>

record nn_hash_item =
  hkey :: u32
  linked :: bool

type_synonym hash_store = "nat \<Rightarrow> nn_hash_item option"

record nn_hash =
  slots :: u32
  items :: u32
  slot_array :: "nat list list"

definition NN_HASH_INITIAL_SLOTS :: u32 where
  "NN_HASH_INITIAL_SLOTS = 32"

definition nn_hash_key :: "u32 \<Rightarrow> u32" where
  "nn_hash_key key = (
     let key = (key XOR 61) XOR (drop_bit 16 key);
         key = key + push_bit 3 key;
         key = key XOR (drop_bit 4 key);
         key = key * 0x27d4eb2d;
         key = key XOR (drop_bit 15 key)
     in key)"

definition slot_of :: "u32 \<Rightarrow> u32 \<Rightarrow> nat" where
  "slot_of n key = unat (nn_hash_key key mod n)"

definition nn_hash_init :: nn_hash where
  "nn_hash_init = \<lparr>slots = NN_HASH_INITIAL_SLOTS, items = 0,
     slot_array = replicate (unat NN_HASH_INITIAL_SLOTS) []\<rparr>"

definition nn_hash_term :: "nn_hash \<Rightarrow> unit option" where
  "nn_hash_term self =
     (if list_all (\<lambda>l. l = []) (take (unat (slots self)) (slot_array self)) then Some () else None)"

text \<open>The inner loop of the rehash: it empties an old slot from the front.\<close>

fun rehash_slot :: "hash_store \<Rightarrow> u32 \<Rightarrow> nat list \<Rightarrow> nat list list \<Rightarrow> nat list list option" where
  "rehash_slot st n [] arr = Some arr"
| "rehash_slot st n (hitm # old) arr = do {
     i \<leftarrow> st hitm;
     if \<not> linked i then None else do {
       let newslot = slot_of n (hkey i);
       l \<leftarrow> peek arr newslot;
       rehash_slot st n old (arr[newslot := seq_insert l hitm None]) } }"

fun rehash_slots :: "hash_store \<Rightarrow> u32 \<Rightarrow> nat list list \<Rightarrow> nat list list \<Rightarrow> nat list list option" where
  "rehash_slots st n [] arr = Some arr"
| "rehash_slots st n (old # olds) arr = do {
     arr \<leftarrow> rehash_slot st n old arr;
     rehash_slots st n olds arr }"

definition nn_hash_rehash :: "hash_store \<Rightarrow> nn_hash \<Rightarrow> nn_hash option" where
  "nn_hash_rehash st self = do {
     let n = slots self * 2;
     arr \<leftarrow> rehash_slots st n (take (unat (slots self)) (slot_array self)) (replicate (unat n) []);
     Some (self\<lparr>slots := n, slot_array := arr\<rparr>) }"

text \<open>The loop of the insertion asserts that no item of the slot has the key.\<close>

fun assert_no_key :: "hash_store \<Rightarrow> u32 \<Rightarrow> nat list \<Rightarrow> unit option" where
  "assert_no_key st key [] = Some ()"
| "assert_no_key st key (it # l) = do {
     i \<leftarrow> st it;
     if hkey i \<noteq> key then assert_no_key st key l else None }"

definition nn_hash_insert ::
  "hash_store \<Rightarrow> nn_hash \<Rightarrow> u32 \<Rightarrow> nat \<Rightarrow> (nn_hash \<times> hash_store) option" where
  "nn_hash_insert st self key item = do {
     let i = slot_of (slots self) key;
     l \<leftarrow> peek (slot_array self) i;
     _ \<leftarrow> assert_no_key st key l;
     itm \<leftarrow> st item;
     if linked itm then None else do {
       let st = st(item \<mapsto> \<lparr>hkey = key, linked = True\<rparr>);
       let self = self\<lparr>slot_array := (slot_array self)[i := seq_insert l item None],
         items := items self + 1\<rparr>;
       self \<leftarrow> (if items self * 2 > slots self \<and> slots self < 0x80000000
         then nn_hash_rehash st self else Some self);
       Some (self, st) } }"

definition nn_hash_erase :: "hash_store \<Rightarrow> nn_hash \<Rightarrow> nat \<Rightarrow> (nn_hash \<times> hash_store) option" where
  "nn_hash_erase st self item = do {
     itm \<leftarrow> st item;
     let slot = slot_of (slots self) (hkey itm);
     l \<leftarrow> peek (slot_array self) slot;
     if \<not> linked itm then None
     else Some (self\<lparr>slot_array := (slot_array self)[slot := seq_erase l item],
       items := items self - 1\<rparr>, st(item \<mapsto> itm\<lparr>linked := False\<rparr>)) }"

fun hash_find :: "hash_store \<Rightarrow> u32 \<Rightarrow> nat list \<Rightarrow> nat option option" where
  "hash_find st key [] = Some None"
| "hash_find st key (it # l) = do {
     item \<leftarrow> st it;
     if hkey item = key then Some (Some it) else hash_find st key l }"

definition nn_hash_get :: "hash_store \<Rightarrow> nn_hash \<Rightarrow> u32 \<Rightarrow> nat option option" where
  "nn_hash_get st self key = do {
     let slot = slot_of (slots self) key;
     l \<leftarrow> peek (slot_array self) slot;
     hash_find st key l }"

definition nn_hash_item_init :: "hash_store \<Rightarrow> nat \<Rightarrow> hash_store" where
  "nn_hash_item_init st self = st(self \<mapsto>
     (case st self of None \<Rightarrow> \<lparr>hkey = 0, linked = False\<rparr> | Some i \<Rightarrow> i\<lparr>linked := False\<rparr>))"

definition nn_hash_item_term :: "nn_hash_item \<Rightarrow> unit option" where
  "nn_hash_item_term self = (if linked self then None else Some ())"

section \<open>The interface: a map\<close>

datatype 'i map_op = MInsert u32 'i | MErase 'i | MGet u32

fun run_map_ops ::
  "('s \<Rightarrow> u32 \<Rightarrow> 'i \<Rightarrow> 's option) \<Rightarrow> ('s \<Rightarrow> 'i \<Rightarrow> 's option) \<Rightarrow> ('s \<Rightarrow> u32 \<Rightarrow> 'i option option) \<Rightarrow>
   's \<Rightarrow> 'i map_op list \<Rightarrow> ('i option list \<times> 's) option" where
  "run_map_ops ins ers get s [] = Some ([], s)"
| "run_map_ops ins ers get s (MInsert k a # ops) =
     Option.bind (ins s k a) (\<lambda>s. run_map_ops ins ers get s ops)"
| "run_map_ops ins ers get s (MErase a # ops) =
     Option.bind (ers s a) (\<lambda>s. run_map_ops ins ers get s ops)"
| "run_map_ops ins ers get s (MGet k # ops) =
     Option.bind (get s k) (\<lambda>r. map_option (apfst ((#) r)) (run_map_ops ins ers get s ops))"

text \<open>
  The same on a map, with the conditions of the calls: the key is new, the item is in no table
  (insertion), the item is in the table (erasure).
\<close>

fun map_ops :: "(u32 \<Rightarrow> 'i option) \<Rightarrow> 'i map_op list \<Rightarrow> ('i option list \<times> (u32 \<Rightarrow> 'i option)) option" where
  "map_ops m [] = Some ([], m)"
| "map_ops m (MInsert k a # ops) =
     (if m k = None \<and> a \<notin> ran m then map_ops (m(k \<mapsto> a)) ops else None)"
| "map_ops m (MErase a # ops) =
     (if a \<in> ran m then map_ops (\<lambda>k. if m k = Some a then None else m k) ops else None)"
| "map_ops m (MGet k # ops) = map_option (apfst ((#) (m k))) (map_ops m ops)"

locale key_map =
  fixes rep :: "'s \<Rightarrow> (u32 \<Rightarrow> 'i option) \<Rightarrow> bool"
    and free :: "'s \<Rightarrow> 'i \<Rightarrow> bool"
    and room :: "'s \<Rightarrow> nat"
    and ins :: "'s \<Rightarrow> u32 \<Rightarrow> 'i \<Rightarrow> 's option"
    and ers :: "'s \<Rightarrow> 'i \<Rightarrow> 's option"
    and get :: "'s \<Rightarrow> u32 \<Rightarrow> 'i option option"
  assumes get_law: "rep s m \<Longrightarrow> get s k = Some (m k)"
    and ins_law: "rep s m \<Longrightarrow> m k = None \<Longrightarrow> free s a \<Longrightarrow> 0 < room s \<Longrightarrow>
      \<exists>s'. ins s k a = Some s' \<and> rep s' (m(k \<mapsto> a)) \<and> room s \<le> Suc (room s')
        \<and> (\<forall>b. b \<noteq> a \<and> free s b \<longrightarrow> free s' b)"
    and ins_dup: "rep s m \<Longrightarrow> m k \<noteq> None \<Longrightarrow> ins s k a = None"
    and ers_law: "rep s m \<Longrightarrow> a \<in> ran m \<Longrightarrow>
      \<exists>s'. ers s a = Some s' \<and> rep s' (\<lambda>k. if m k = Some a then None else m k) \<and> room s \<le> room s'
        \<and> (\<forall>b. b = a \<or> free s b \<longrightarrow> free s' b)"
begin

lemma run_ops:
  "rep s m \<Longrightarrow> (\<And>a. a \<in> U \<Longrightarrow> free s a \<or> a \<in> ran m) \<Longrightarrow> length ops \<le> room s \<Longrightarrow>
   (\<And>k a. MInsert k a \<in> set ops \<Longrightarrow> a \<in> U) \<Longrightarrow> map_ops m ops = Some (out, m') \<Longrightarrow>
   \<exists>s'. run_map_ops ins ers get s ops = Some (out, s') \<and> rep s' m'"
proof (induction m ops arbitrary: s out rule: map_ops.induct)
  case (1 m)
  then show ?case by simp
next
  case (2 m k a ops)
  then have c: "m k = None" "a \<notin> ran m" by (auto split: if_splits)
  with "2.prems" have "free s a" "0 < room s" by auto
  then obtain s' where s': "ins s k a = Some s'" "rep s' (m(k \<mapsto> a))" "room s \<le> Suc (room s')"
    "\<forall>b. b \<noteq> a \<and> free s b \<longrightarrow> free s' b" using ins_law [OF "2.prems"(1) c(1)] by blast
  have "\<exists>s''. run_map_ops ins ers get s' ops = Some (out, s'') \<and> rep s'' m'"
  proof (rule "2.IH" [OF conjI [OF c] s'(2)])
    show "free s' b \<or> b \<in> ran (m(k \<mapsto> a))" if "b \<in> U" for b
      using that s'(4) "2.prems"(2) [OF that] c(1) by (cases "b = a") auto
  qed (use "2.prems" s'(3) c in \<open>auto simp: fun_upd_def\<close>)
  with s'(1) show ?case by simp
next
  case (3 m a ops)
  then have c: "a \<in> ran m" by (auto split: if_splits)
  obtain s' where s': "ers s a = Some s'" "rep s' (\<lambda>k. if m k = Some a then None else m k)"
    "room s \<le> room s'" "\<forall>b. b = a \<or> free s b \<longrightarrow> free s' b"
    using ers_law [OF "3.prems"(1) c] by blast
  have "\<exists>s''. run_map_ops ins ers get s' ops = Some (out, s'') \<and> rep s'' m'"
  proof (rule "3.IH" [OF c s'(2)])
    show "free s' b \<or> b \<in> ran (\<lambda>k. if m k = Some a then None else m k)" if "b \<in> U" for b
      using that s'(4) "3.prems"(2) [OF that] by (cases "b = a") (auto simp: ran_def, metis option.inject)
  qed (use "3.prems" s'(3) c in auto)
  with s'(1) show ?case by simp
next
  case (4 m k ops)
  then obtain out' where o: "map_ops m ops = Some (out', m')" "out = m k # out'" by auto
  have "\<exists>s''. run_map_ops ins ers get s ops = Some (out', s'') \<and> rep s'' m'"
    by (rule "4.IH" [OF "4.prems"(1)]) (use "4.prems" o in auto)
  with o(2) show ?case by (auto simp: get_law [OF "4.prems"(1)])
qed

text \<open>What was inserted is found until it is erased.\<close>

lemma get_after_insert:
  assumes "rep s m" and "m k = None" and "free s a" and "0 < room s"
  shows "\<exists>s'. ins s k a = Some s' \<and> get s' k = Some (Some a)
    \<and> (\<forall>k'. k' \<noteq> k \<longrightarrow> get s' k' = get s k')"
proof -
  obtain s' where "ins s k a = Some s'" "rep s' (m(k \<mapsto> a))" using ins_law [OF assms] by blast
  then show ?thesis using get_law [OF assms(1)] get_law [of s' "m(k \<mapsto> a)"] by simp
qed

end


section \<open>The table implements it\<close>

definition items_of :: "nat list list \<Rightarrow> nat set" where
  "items_of arr = (\<Union>l \<in> set arr. set l)"

definition slots_ok :: "hash_store \<Rightarrow> u32 \<Rightarrow> nat list list \<Rightarrow> bool" where
  "slots_ok st n arr \<longleftrightarrow> n \<noteq> 0 \<and> length arr = unat n \<and> (\<forall>l \<in> set arr. distinct l)
     \<and> (\<forall>i < length arr. \<forall>a \<in> set (arr ! i).
          \<exists>it. st a = Some it \<and> linked it \<and> slot_of n (hkey it) = i)"

definition hash_ok :: "nn_hash \<times> hash_store \<Rightarrow> bool" where
  "hash_ok s = (case s of (h, st) \<Rightarrow>
     slots_ok st (slots h) (slot_array h)
     \<and> unat (items h) = card (items_of (slot_array h))
     \<and> (2 * unat (items h) \<le> unat (slots h) \<or> 2147483648 \<le> unat (slots h)))"

definition hash_rep :: "nn_hash \<times> hash_store \<Rightarrow> (u32 \<Rightarrow> nat option) \<Rightarrow> bool" where
  "hash_rep s m = (hash_ok s \<and> (\<forall>k a. m k = Some a \<longleftrightarrow>
     a \<in> items_of (slot_array (fst s)) \<and> map_option hkey (snd s a) = Some k))"

lemma slot_of_less: "n \<noteq> 0 \<Longrightarrow> slot_of n k < unat n"
  by (simp add: slot_of_def unat_mod unat_gt_0 unsigned_eq_0_iff)

lemma finite_items_of [simp]: "finite (items_of arr)"
  by (simp add: items_of_def)

lemma items_of_nth: "a \<in> items_of arr \<longleftrightarrow> (\<exists>i < length arr. a \<in> set (arr ! i))"
  by (auto simp: items_of_def set_conv_nth [of arr])

lemma slots_ok_item:
  "slots_ok st n arr \<Longrightarrow> a \<in> items_of arr \<Longrightarrow>
     \<exists>it. st a = Some it \<and> linked it \<and> a \<in> set (arr ! slot_of n (hkey it))"
  by (fastforce simp: slots_ok_def items_of_nth)

lemma slots_ok_slot: "slots_ok st n arr \<Longrightarrow> peek arr (slot_of n k) = Some (arr ! slot_of n k)"
  using slot_of_less by (auto simp: slots_ok_def peek_def)

lemma slots_ok_in_slot:
  "slots_ok st n arr \<Longrightarrow> a \<in> set (arr ! slot_of n k) \<Longrightarrow>
     a \<in> items_of arr \<and> (\<exists>it. st a = Some it \<and> linked it \<and> slot_of n (hkey it) = slot_of n k)"
  using slot_of_less [of n k] by (auto simp: slots_ok_def items_of_nth)

lemma slots_ok_store:
  "slots_ok st n arr \<Longrightarrow> (\<And>a. a \<in> items_of arr \<Longrightarrow> st' a = st a) \<Longrightarrow> slots_ok st' n arr"
  unfolding slots_ok_def items_of_nth by (metis (no_types, lifting))

lemma slots_ok_empty: "n \<noteq> 0 \<Longrightarrow> slots_ok st n (replicate (unat n) [])"
  by (simp add: slots_ok_def)

lemma items_of_empty [simp]: "items_of (replicate k []) = {}"
  by (auto simp: items_of_def)

lemma items_of_update:
  assumes "i < length arr" and "\<And>j. j < length arr \<Longrightarrow> j \<noteq> i \<Longrightarrow> set (arr ! j) \<inter> set (arr ! i) = {}"
  shows "items_of (arr[i := l]) = items_of arr - set (arr ! i) \<union> set l"
proof (rule set_eqI)
  fix a
  have "a \<in> items_of (arr[i := l]) \<longleftrightarrow> a \<in> set l \<or> (\<exists>j < length arr. j \<noteq> i \<and> a \<in> set (arr ! j))"
    using assms(1) by (auto simp: items_of_nth nth_list_update split: if_splits)
  also have "\<dots> \<longleftrightarrow> a \<in> items_of arr - set (arr ! i) \<union> set l"
    using assms by (auto simp: items_of_nth)
  finally show "a \<in> items_of (arr[i := l]) \<longleftrightarrow> a \<in> items_of arr - set (arr ! i) \<union> set l" .
qed

lemma slots_ok_disjoint:
  "slots_ok st n arr \<Longrightarrow> i < length arr \<Longrightarrow> j < length arr \<Longrightarrow> j \<noteq> i \<Longrightarrow>
     set (arr ! j) \<inter> set (arr ! i) = {}"
proof (rule equals0I)
  fix a
  assume ok: "slots_ok st n arr" and ij: "i < length arr" "j < length arr" "j \<noteq> i"
    and a: "a \<in> set (arr ! j) \<inter> set (arr ! i)"
  have "k < length arr \<Longrightarrow> a \<in> set (arr ! k) \<Longrightarrow> map_option (\<lambda>it. slot_of n (hkey it)) (st a) = Some k"
    for k using ok by (force simp: slots_ok_def)
  from this [of i] this [of j] ij a show False by auto
qed

lemma slots_ok_add:
  assumes ok: "slots_ok st n arr" and a: "st a = Some it" "linked it" "a \<notin> items_of arr"
    and i: "i = slot_of n (hkey it)"
  shows "slots_ok st n (arr[i := seq_insert (arr ! i) a None])"
    and "items_of (arr[i := seq_insert (arr ! i) a None]) = insert a (items_of arr)"
proof -
  have il: "i < length arr" using ok slot_of_less i by (auto simp: slots_ok_def)
  have "set (arr ! i) \<subseteq> items_of arr" using il by (auto simp: items_of_nth)
  then show "items_of (arr[i := seq_insert (arr ! i) a None]) = insert a (items_of arr)"
    using items_of_update [OF il slots_ok_disjoint [OF ok il]] by auto
  have "a \<notin> set (arr ! i)" using a(3) il by (auto simp: items_of_nth)
  then show "slots_ok st n (arr[i := seq_insert (arr ! i) a None])"
    using ok a i il
    by (auto simp: slots_ok_def nth_list_update dest!: set_update_subset_insert [THEN subsetD])
qed

lemma slots_ok_del:
  assumes ok: "slots_ok st n arr" and i: "i < length arr" and a: "a \<in> set (arr ! i)"
  shows "slots_ok st n (arr[i := seq_erase (arr ! i) a])"
    and "items_of (arr[i := seq_erase (arr ! i) a]) = items_of arr - {a}"
proof -
  have d: "distinct (arr ! i)" using ok i by (simp add: slots_ok_def)
  have "set (arr ! i) \<subseteq> items_of arr" using i by (auto simp: items_of_nth)
  then show "items_of (arr[i := seq_erase (arr ! i) a]) = items_of arr - {a}"
    using items_of_update [OF i slots_ok_disjoint [OF ok i]] a set_seq_erase [OF d] by auto
  show "slots_ok st n (arr[i := seq_erase (arr ! i) a])"
    using ok i d
    by (auto simp: slots_ok_def nth_list_update set_seq_erase
        intro: distinct_seq_erase dest!: set_update_subset_insert [THEN subsetD])
qed

lemma rehash_slot_ok:
  "slots_ok st n arr \<Longrightarrow> distinct old \<Longrightarrow> set old \<inter> items_of arr = {} \<Longrightarrow>
   (\<And>a. a \<in> set old \<Longrightarrow> \<exists>it. st a = Some it \<and> linked it) \<Longrightarrow>
   \<exists>arr'. rehash_slot st n old arr = Some arr' \<and> slots_ok st n arr'
     \<and> items_of arr' = items_of arr \<union> set old"
proof (induction old arbitrary: arr)
  case (Cons a old)
  from Cons.prems(4) obtain it where it: "st a = Some it" "linked it" by force
  define i where "i = slot_of n (hkey it)"
  define arr' where "arr' = arr[i := seq_insert (arr ! i) a None]"
  have a: "a \<notin> items_of arr" using Cons.prems(3) by auto
  note add = slots_ok_add [OF Cons.prems(1) it a i_def, folded arr'_def]
  have "\<exists>arr''. rehash_slot st n old arr' = Some arr'' \<and> slots_ok st n arr''
      \<and> items_of arr'' = items_of arr' \<union> set old"
    by (rule Cons.IH) (use add Cons.prems in auto)
  moreover have "rehash_slot st n (a # old) arr = rehash_slot st n old arr'"
    using it slots_ok_slot [OF Cons.prems(1)] by (simp add: arr'_def i_def Let_def)
  ultimately show ?case using add(2) by auto
qed simp

lemma rehash_slots_ok:
  "slots_ok st n arr \<Longrightarrow> \<forall>l \<in> set olds. distinct l \<Longrightarrow>
   sorted_wrt (\<lambda>l l'. set l \<inter> set l' = {}) olds \<Longrightarrow> items_of olds \<inter> items_of arr = {} \<Longrightarrow>
   (\<And>a. a \<in> items_of olds \<Longrightarrow> \<exists>it. st a = Some it \<and> linked it) \<Longrightarrow>
   \<exists>arr'. rehash_slots st n olds arr = Some arr' \<and> slots_ok st n arr'
     \<and> items_of arr' = items_of arr \<union> items_of olds"
proof (induction olds arbitrary: arr)
  case Nil
  then show ?case by (simp add: items_of_def)
next
  case (Cons l olds)
  have "\<exists>arr'. rehash_slot st n l arr = Some arr' \<and> slots_ok st n arr'
      \<and> items_of arr' = items_of arr \<union> set l"
    by (rule rehash_slot_ok) (use Cons.prems in \<open>auto simp: items_of_def\<close>)
  then obtain arr' where r: "rehash_slot st n l arr = Some arr'" "slots_ok st n arr'"
    "items_of arr' = items_of arr \<union> set l" by blast
  have "\<exists>arr''. rehash_slots st n olds arr' = Some arr'' \<and> slots_ok st n arr''
      \<and> items_of arr'' = items_of arr' \<union> items_of olds"
    by (rule Cons.IH) (use Cons.prems r(2,3) in \<open>auto simp: items_of_def\<close>)
  with r show ?case by (auto simp: items_of_def)
qed

text \<open>A rehash keeps every item, and doubles the slots.\<close>

lemma nn_hash_rehash_ok:
  assumes ok: "slots_ok st (slots h) (slot_array h)" and n: "unat (slots h) < 2147483648"
  shows "\<exists>h'. nn_hash_rehash st h = Some h' \<and> slots_ok st (slots h') (slot_array h')
    \<and> items_of (slot_array h') = items_of (slot_array h) \<and> items h' = items h
    \<and> unat (slots h') = 2 * unat (slots h)"
proof -
  have two: "unat (slots h * 2) = 2 * unat (slots h)"
    using n by (subst unat_mult_lem [THEN iffD1]) auto
  have "slots h \<noteq> 0" using ok by (simp add: slots_ok_def)
  then have nz: "slots h * 2 \<noteq> 0" using two by (metis mult_is_0 unat_eq_zero zero_neq_numeral)
  have "sorted_wrt (\<lambda>l l'. set l \<inter> set l' = {}) (slot_array h)"
    using slots_ok_disjoint [OF ok]
    by (simp add: sorted_wrt_iff_nth_less Int_commute)
  then have "\<exists>arr'. rehash_slots st (slots h * 2) (slot_array h)
        (replicate (unat (slots h * 2)) []) = Some arr' \<and> slots_ok st (slots h * 2) arr'
      \<and> items_of arr' = items_of (replicate (unat (slots h * 2)) []) \<union> items_of (slot_array h)"
    by (intro rehash_slots_ok slots_ok_empty nz)
      (use ok slots_ok_item [OF ok] in \<open>auto simp: slots_ok_def, blast\<close>)
  moreover have "take (unat (slots h)) (slot_array h) = slot_array h"
    using ok by (simp add: slots_ok_def)
  ultimately show ?thesis using two by (auto simp: nn_hash_rehash_def Let_def)
qed


text \<open>The operations on a table and the store of its items.\<close>

definition hash_insert :: "nn_hash \<times> hash_store \<Rightarrow> u32 \<Rightarrow> nat \<Rightarrow> (nn_hash \<times> hash_store) option" where
  "hash_insert s k a = nn_hash_insert (snd s) (fst s) k a"

definition hash_erase :: "nn_hash \<times> hash_store \<Rightarrow> nat \<Rightarrow> (nn_hash \<times> hash_store) option" where
  "hash_erase s a = nn_hash_erase (snd s) (fst s) a"

definition hash_get :: "nn_hash \<times> hash_store \<Rightarrow> u32 \<Rightarrow> nat option option" where
  "hash_get s k = nn_hash_get (snd s) (fst s) k"

definition hash_free :: "nn_hash \<times> hash_store \<Rightarrow> nat \<Rightarrow> bool" where
  "hash_free s a = (case snd s a of None \<Rightarrow> False | Some it \<Rightarrow> \<not> linked it)"

definition hash_room :: "nn_hash \<times> hash_store \<Rightarrow> nat" where
  "hash_room s = 2 ^ 32 - 1 - unat (items (fst s))"

lemma assert_no_key_ok:
  "(\<And>a. a \<in> set l \<Longrightarrow> \<exists>it. st a = Some it \<and> hkey it \<noteq> k) \<Longrightarrow> assert_no_key st k l = Some ()"
proof (induction l)
  case (Cons a l)
  then obtain it where "st a = Some it" "hkey it \<noteq> k" by force
  with Cons show ?case by simp
qed simp

lemma assert_no_key_dup:
  "a \<in> set l \<Longrightarrow> st a = Some it \<Longrightarrow> hkey it = k \<Longrightarrow> assert_no_key st k l = None"
  by (induction l) (auto simp: bind_eq_None_conv)

lemma hash_find_None:
  "(\<And>a. a \<in> set l \<Longrightarrow> \<exists>it. st a = Some it \<and> hkey it \<noteq> k) \<Longrightarrow> hash_find st k l = Some None"
proof (induction l)
  case (Cons a l)
  then obtain it where "st a = Some it" "hkey it \<noteq> k" by force
  with Cons show ?case by simp
qed simp

lemma hash_find_Some:
  assumes "a \<in> set l" and "st a = Some it" and "hkey it = k"
    and "\<And>b. b \<in> set l \<Longrightarrow> \<exists>i. st b = Some i \<and> (hkey i = k \<longrightarrow> b = a)"
  shows "hash_find st k l = Some (Some a)"
  using assms
proof (induction l)
  case (Cons b l)
  from Cons.prems(4) obtain i where i: "st b = Some i" "hkey i = k \<longrightarrow> b = a" by force
  show ?case
  proof (cases "b = a")
    case True
    with Cons.prems show ?thesis by simp
  next
    case False
    with i have "hash_find st k (b # l) = hash_find st k l" by auto
    also have "\<dots> = Some (Some a)" by (rule Cons.IH) (use Cons.prems False in auto)
    finally show ?thesis .
  qed
qed simp

lemma hash_rep_slot:
  assumes "hash_rep (h, st) m" and "a \<in> set (slot_array h ! slot_of (slots h) k)"
  shows "\<exists>it. st a = Some it \<and> linked it \<and> m (hkey it) = Some a"
  using assms slots_ok_in_slot [of st "slots h" "slot_array h" a k]
  by (auto simp: hash_rep_def hash_ok_def)

lemma hash_rep_found:
  assumes "hash_rep (h, st) m" and "m k = Some a"
  shows "\<exists>it. st a = Some it \<and> linked it \<and> hkey it = k
    \<and> a \<in> set (slot_array h ! slot_of (slots h) k)"
  using assms slots_ok_item [of st "slots h" "slot_array h" a]
  by (auto simp: hash_rep_def hash_ok_def)

lemma hash_get_law: "hash_rep s m \<Longrightarrow> hash_get s k = Some (m k)"
proof -
  assume r: "hash_rep s m"
  obtain h st where s: "s = (h, st)" by (cases s)
  let ?l = "slot_array h ! slot_of (slots h) k"
  have "hash_find st k ?l = Some (m k)"
  proof (cases "m k")
    case None
    then show ?thesis
      using hash_rep_slot [OF r [unfolded s]] by (auto intro!: hash_find_None) fastforce
  next
    case (Some a)
    obtain it where "st a = Some it" "hkey it = k" "a \<in> set ?l"
      using hash_rep_found [OF r [unfolded s] Some] by blast
    moreover have "\<exists>i. st b = Some i \<and> (hkey i = k \<longrightarrow> b = a)" if "b \<in> set ?l" for b
      using hash_rep_slot [OF r [unfolded s] that] Some by auto
    ultimately show ?thesis using Some hash_find_Some [of a ?l st it k] by auto
  qed
  moreover have "peek (slot_array h) (slot_of (slots h) k) = Some ?l"
    using r by (auto intro: slots_ok_slot simp: hash_rep_def hash_ok_def s)
  ultimately show ?thesis by (simp add: hash_get_def nn_hash_get_def s)
qed

lemma hash_insert_dup: "hash_rep s m \<Longrightarrow> m k \<noteq> None \<Longrightarrow> hash_insert s k a = None"
proof -
  assume r: "hash_rep s m" and k: "m k \<noteq> None"
  obtain h st where s: "s = (h, st)" by (cases s)
  from k obtain b where "m k = Some b" by auto
  then obtain it where "st b = Some it" "hkey it = k"
    "b \<in> set (slot_array h ! slot_of (slots h) k)"
    using hash_rep_found [OF r [unfolded s]] by blast
  then have "assert_no_key st k (slot_array h ! slot_of (slots h) k) = None"
    by (auto intro: assert_no_key_dup)
  moreover have "peek (slot_array h) (slot_of (slots h) k) =
      Some (slot_array h ! slot_of (slots h) k)"
    using r by (auto intro: slots_ok_slot simp: hash_rep_def hash_ok_def s)
  ultimately show ?thesis by (simp add: hash_insert_def nn_hash_insert_def s)
qed

lemma hash_insert_law:
  assumes r: "hash_rep s m" and k: "m k = None" and f: "hash_free s a" and room: "0 < hash_room s"
  shows "\<exists>s'. hash_insert s k a = Some s' \<and> hash_rep s' (m(k \<mapsto> a))
    \<and> hash_room s \<le> Suc (hash_room s') \<and> (\<forall>b. b \<noteq> a \<and> hash_free s b \<longrightarrow> hash_free s' b)"
proof -
  obtain h st where s: "s = (h, st)" by (cases s)
  define i where "i = slot_of (slots h) k"
  define st' where "st' = st(a \<mapsto> \<lparr>hkey = k, linked = True\<rparr>)"
  define arr where "arr = (slot_array h)[i := seq_insert (slot_array h ! i) a None]"
  define h1 where "h1 = h\<lparr>slot_array := arr, items := items h + 1\<rparr>"
  from f s obtain itm where itm: "st a = Some itm" "\<not> linked itm"
    by (auto simp: hash_free_def split: option.splits)
  have ok: "slots_ok st (slots h) (slot_array h)"
    and cnt: "unat (items h) = card (items_of (slot_array h))"
    and load: "2 * unat (items h) \<le> unat (slots h) \<or> 2147483648 \<le> unat (slots h)"
    and rep: "\<And>k a. m k = Some a \<longleftrightarrow> a \<in> items_of (slot_array h) \<and> map_option hkey (st a) = Some k"
    using r by (auto simp: s hash_rep_def hash_ok_def)
  have a: "a \<notin> items_of (slot_array h)" using slots_ok_item [OF ok] itm by fastforce
  have ok': "slots_ok st' (slots h) (slot_array h)"
    by (rule slots_ok_store [OF ok]) (use a in \<open>auto simp: st'_def\<close>)
  have it': "st' a = Some \<lparr>hkey = k, linked = True\<rparr>" by (simp add: st'_def)
  have add: "slots_ok st' (slots h) arr" "items_of arr = insert a (items_of (slot_array h))"
    using slots_ok_add [OF ok' it' _ a, of i] by (auto simp: i_def arr_def)
  have its: "unat (items h + 1) = Suc (unat (items h))"
    using room by (simp add: s hash_room_def unat_word_ariths)
  have c1: "unat (items h1) = card (items_of arr)"
    using cnt a its by (simp add: h1_def add(2))
  have "assert_no_key st k (slot_array h ! i) = Some ()"
    by (rule assert_no_key_ok) (use hash_rep_slot [OF r [unfolded s]] k in \<open>fastforce simp: i_def\<close>)
  moreover have "peek (slot_array h) i = Some (slot_array h ! i)"
    by (simp add: i_def slots_ok_slot [OF ok])
  moreover define h2 where "h2 = (if items h1 * 2 > slots h1 \<and> slots h1 < 0x80000000
    then nn_hash_rehash st' h1 else Some h1)"
  ultimately have ins: "hash_insert s k a = map_option (\<lambda>h. (h, st')) h2"
    using itm by (simp add: hash_insert_def nn_hash_insert_def s i_def [symmetric] st'_def arr_def
        h1_def map_option_case bind_map_option Let_def split: option.split)
  have "\<exists>h'. h2 = Some h' \<and> hash_ok (h', st') \<and> items_of (slot_array h') = items_of arr
      \<and> items h' = items h1"
  proof (cases "items h1 * 2 > slots h1 \<and> slots h1 < 0x80000000")
    case True
    then have lt: "unat (slots h1) < 2147483648" by (simp add: word_less_nat_alt)
    with load have l2: "2 * unat (items h) \<le> unat (slots h)" by (simp add: h1_def)
    have "slots_ok st' (slots h1) (slot_array h1)" using add by (simp add: h1_def)
    then obtain h' where h': "nn_hash_rehash st' h1 = Some h'" "slots_ok st' (slots h') (slot_array h')"
      "items_of (slot_array h') = items_of (slot_array h1)" "items h' = items h1"
      "unat (slots h') = 2 * unat (slots h1)" using nn_hash_rehash_ok [OF _ lt] by blast
    have "unat (slots h) \<noteq> 0" using ok by (simp add: slots_ok_def unsigned_eq_0_iff)
    then have "2 * unat (items h') \<le> unat (slots h')" using h'(4,5) l2 its by (simp add: h1_def) arith
    with h' c1 True show ?thesis by (auto simp: h2_def hash_ok_def h1_def)
  next
    case False
    have "2 * unat (items h1) \<le> unat (slots h1) \<or> 2147483648 \<le> unat (slots h1)"
    proof (cases "slots h1 < 0x80000000")
      case True
      with load have l2: "2 * unat (items h) \<le> unat (slots h)" "unat (slots h) < 2147483648"
        by (auto simp: h1_def word_less_nat_alt)
      with its have "unat (items h1 * 2) = 2 * unat (items h1)"
        by (subst unat_mult_lem [THEN iffD1]) (auto simp: h1_def)
      with False True show ?thesis by (simp add: word_less_nat_alt)
    next
      case False
      then show ?thesis by (simp add: word_less_nat_alt)
    qed
    with False add c1 show ?thesis by (auto simp: h2_def hash_ok_def h1_def)
  qed
  then obtain h' where h': "h2 = Some h'" "hash_ok (h', st')" "items_of (slot_array h') = items_of arr"
    "items h' = items h1" by blast
  have "hash_rep (h', st') (m(k \<mapsto> a))"
    unfolding hash_rep_def
  proof (intro conjI allI)
    show "(m(k \<mapsto> a)) k' = Some a' \<longleftrightarrow> a' \<in> items_of (slot_array (fst (h', st')))
        \<and> map_option hkey (snd (h', st') a') = Some k'" for k' a'
      using h'(3) add(2) rep [of k' a'] a k it'
      by (cases "a' = a"; cases "k' = k") (auto simp: st'_def)
  qed (use h'(2) in simp)
  moreover have "hash_room s \<le> Suc (hash_room (h', st'))"
    using h'(4) its by (simp add: hash_room_def s h1_def)
  moreover have "\<forall>b. b \<noteq> a \<and> hash_free s b \<longrightarrow> hash_free (h', st') b"
    by (simp add: hash_free_def s st'_def)
  ultimately show ?thesis using ins h'(1) by auto
qed

lemma hash_erase_law:
  assumes r: "hash_rep s m" and a: "a \<in> ran m"
  shows "\<exists>s'. hash_erase s a = Some s' \<and> hash_rep s' (\<lambda>k. if m k = Some a then None else m k)
    \<and> hash_room s \<le> hash_room s' \<and> (\<forall>b. b = a \<or> hash_free s b \<longrightarrow> hash_free s' b)"
proof -
  obtain h st where s: "s = (h, st)" by (cases s)
  from a obtain k where k: "m k = Some a" by (auto simp: ran_def)
  then obtain it where it: "st a = Some it" "linked it" "hkey it = k"
    and sl: "a \<in> set (slot_array h ! slot_of (slots h) k)"
    using hash_rep_found [OF r [unfolded s]] by blast
  define i where "i = slot_of (slots h) k"
  define arr where "arr = (slot_array h)[i := seq_erase (slot_array h ! i) a]"
  define st' where "st' = st(a \<mapsto> it\<lparr>linked := False\<rparr>)"
  define h' where "h' = h\<lparr>slot_array := arr, items := items h - 1\<rparr>"
  have ok: "slots_ok st (slots h) (slot_array h)"
    and cnt: "unat (items h) = card (items_of (slot_array h))"
    and load: "2 * unat (items h) \<le> unat (slots h) \<or> 2147483648 \<le> unat (slots h)"
    and rep: "\<And>k a. m k = Some a \<longleftrightarrow> a \<in> items_of (slot_array h) \<and> map_option hkey (st a) = Some k"
    using r by (auto simp: s hash_rep_def hash_ok_def)
  have i: "i < length (slot_array h)" using ok slot_of_less by (auto simp: slots_ok_def i_def)
  note del = slots_ok_del [OF ok i sl [folded i_def], folded arr_def]
  have ok': "slots_ok st' (slots h) arr"
    by (rule slots_ok_store [OF del(1)]) (use del(2) in \<open>auto simp: st'_def\<close>)
  have ain: "a \<in> items_of (slot_array h)" using rep k by blast
  then have pos: "0 < unat (items h)" using cnt by (auto simp: card_gt_0_iff)
  then have "unat (items h - 1) = unat (items h) - 1"
    using unat_minus_one [of "items h"] by (simp add: unat_gt_0)
  then have "hash_ok (h', st')"
    using ok' load cnt ain by (auto simp: hash_ok_def h'_def del(2))
  moreover have "map_option hkey (st' b) = map_option hkey (st b)" for b
    using it by (simp add: st'_def)
  ultimately have "hash_rep (h', st') (\<lambda>k. if m k = Some a then None else m k)"
    using rep del(2) by (auto simp: hash_rep_def h'_def) (metis option.inject)
  moreover have "hash_erase s a = Some (h', st')"
    using it slots_ok_slot [OF ok, of k]
    by (simp add: hash_erase_def nn_hash_erase_def s h'_def st'_def arr_def i_def Let_def)
  moreover have "hash_room s \<le> hash_room (h', st')"
    using pos \<open>unat (items h - 1) = unat (items h) - 1\<close> by (simp add: hash_room_def s h'_def)
  moreover have "\<forall>b. b = a \<or> hash_free s b \<longrightarrow> hash_free (h', st') b"
    by (simp add: hash_free_def s st'_def)
  ultimately show ?thesis by blast
qed

lemma hash_rep_init: "hash_rep (nn_hash_init, st) (\<lambda>_. None)"
  using slots_ok_empty [of 32 st] items_of_empty [of 32]
  by (simp add: hash_rep_def hash_ok_def nn_hash_init_def NN_HASH_INITIAL_SLOTS_def)

interpretation hash_table: key_map hash_rep hash_free hash_room hash_insert hash_erase hash_get
  by unfold_locales (fact hash_get_law hash_insert_law hash_insert_dup hash_erase_law)+

section \<open>Properties\<close>

text \<open>C17. The hash table is a map from 32-bit keys to items: any script of insertions (of new keys,
  with items in no table), erasures (of items in the table) and look-ups of fewer than
  \<open>2 ^ 32\<close> operations runs without a failed assertion, through every rehash on the way, and every
  look-up answers what the map denoted by the script holds.\<close>

theorem nn_hash_is_a_map:
  assumes "map_ops (\<lambda>_. None) ops = Some (out, m)" and "length ops < 2 ^ 32"
    and "\<forall>k a. MInsert k a \<in> set ops \<longrightarrow> st a = Some \<lparr>hkey = oldkey, linked = False\<rparr>"
  shows "\<exists>h st'. run_map_ops hash_insert hash_erase hash_get (nn_hash_init, st) ops = Some (out, h, st')
    \<and> hash_rep (h, st') m"
proof -
  have "\<exists>s'. run_map_ops hash_insert hash_erase hash_get (nn_hash_init, st) ops = Some (out, s')
      \<and> hash_rep s' m"
  proof (rule hash_table.run_ops [OF hash_rep_init _ _ _ assms(1), of "{a. \<exists>k. MInsert k a \<in> set ops}"])
    show "length ops \<le> hash_room (nn_hash_init, st)"
      using assms(2) by (simp add: hash_room_def nn_hash_init_def)
    show "hash_free (nn_hash_init, st) a \<or> a \<in> ran (\<lambda>_. None)"
      if "a \<in> {a. \<exists>k. MInsert k a \<in> set ops}" for a
      using that assms(3) by (auto simp: hash_free_def)
  qed auto
  then show ?thesis by auto
qed

theorem nn_hash_is_a_map_witness:
  "\<exists>h st'. run_map_ops hash_insert hash_erase hash_get
      (nn_hash_init, \<lambda>_. Some \<lparr>hkey = 0, linked = False\<rparr>)
      [MInsert 7 1, MInsert 0x80000001 2, MGet 7, MErase 1, MGet 7, MGet 0x80000001]
      = Some ([Some 1, None, Some 2], h, st')
    \<and> hash_rep (h, st') [0x80000001 \<mapsto> 2]"
  by (rule nn_hash_is_a_map [where oldkey = 0]) (auto simp: ran_def)

end
