(* ===== verification/NN_Queue.thy ===== *)
theory NN_Queue
  imports NN_List
begin

text \<open>
  \<open>utils/queue.c\<close> of nanomsg: the intrusive singly linked queue, on a store that maps the address
  of an item to its \<open>next\<close> pointer. The sentinel \<open>NN_QUEUE_NOTINQUEUE\<close> is \<open>NOTINLIST\<close> (both are
  \<open>(T*) -1\<close>). The loop of \<open>nn_queue_remove\<close> is a partial function, so that \<open>None\<close> is also a loop
  that does not end. The interface \<open>fifo\<close> is what the users of queues rely on.
\<close>

section \<open>The code\<close>

record nn_queue_item =
  q_next :: ptr

record nn_queue =
  q_head :: ptr
  q_tail :: ptr

type_synonym queue_store = "nat \<Rightarrow> nn_queue_item option"

fun q_deref :: "queue_store \<Rightarrow> ptr \<Rightarrow> nn_queue_item option" where
  "q_deref h (Item a) = h a"
| "q_deref h _ = None"

fun store_q_next :: "queue_store \<Rightarrow> ptr \<Rightarrow> ptr \<Rightarrow> queue_store option" where
  "store_q_next h (Item a) q = do { i \<leftarrow> h a; Some (h(a \<mapsto> i\<lparr>q_next := q\<rparr>)) }"
| "store_q_next h _ q = None"

definition nn_queue_init :: nn_queue where
  "nn_queue_init = \<lparr>q_head = NULL, q_tail = NULL\<rparr>"

definition nn_queue_term :: nn_queue where
  "nn_queue_term = \<lparr>q_head = NULL, q_tail = NULL\<rparr>"

definition nn_queue_empty :: "nn_queue \<Rightarrow> bool" where
  "nn_queue_empty self = (q_head self = NULL)"

definition nn_queue_push :: "nn_queue \<Rightarrow> queue_store \<Rightarrow> nat \<Rightarrow> (nn_queue \<times> queue_store) option" where
  "nn_queue_push self h item = do {
     i \<leftarrow> h item;
     if q_next i \<noteq> NOTINLIST then None else do {
       h \<leftarrow> store_q_next h (Item item) NULL;
       let self = (if q_head self = NULL then self\<lparr>q_head := Item item\<rparr> else self);
       h \<leftarrow> (if q_tail self \<noteq> NULL then store_q_next h (q_tail self) (Item item) else Some h);
       Some (self\<lparr>q_tail := Item item\<rparr>, h) } }"

partial_function (option) queue_remove_loop ::
  "nn_queue \<Rightarrow> queue_store \<Rightarrow> nat \<Rightarrow> ptr \<Rightarrow> ptr \<Rightarrow> (nn_queue \<times> queue_store) option" where
  "queue_remove_loop self h item it prev =
     (if it = NULL then Some (self, h)
      else if it = Item item then do {
        i \<leftarrow> q_deref h it;
        let self = (if q_head self = it then self\<lparr>q_head := q_next i\<rparr> else self);
        let self = (if q_tail self = it then self\<lparr>q_tail := prev\<rparr> else self);
        h \<leftarrow> (if prev \<noteq> NULL then store_q_next h prev (q_next i) else Some h);
        h \<leftarrow> store_q_next h (Item item) NOTINLIST;
        Some (self, h) }
      else do {
        i \<leftarrow> q_deref h it;
        queue_remove_loop self h item (q_next i) it })"

definition nn_queue_remove :: "nn_queue \<Rightarrow> queue_store \<Rightarrow> nat \<Rightarrow> (nn_queue \<times> queue_store) option" where
  "nn_queue_remove self h item = do {
     i \<leftarrow> h item;
     if q_next i = NOTINLIST then Some (self, h)
     else queue_remove_loop self h item (q_head self) NULL }"

definition nn_queue_pop :: "nn_queue \<Rightarrow> queue_store \<Rightarrow> (ptr \<times> nn_queue \<times> queue_store) option" where
  "nn_queue_pop self h =
     (if q_head self = NULL then Some (NULL, self, h)
      else do {
        let result = q_head self;
        i \<leftarrow> q_deref h result;
        let self = self\<lparr>q_head := q_next i\<rparr>;
        let self = (if q_head self = NULL then self\<lparr>q_tail := NULL\<rparr> else self);
        h \<leftarrow> store_q_next h result NOTINLIST;
        Some (result, self, h) })"

definition nn_queue_item_init :: "queue_store \<Rightarrow> nat \<Rightarrow> queue_store" where
  "nn_queue_item_init h self = h(self \<mapsto> \<lparr>q_next = NOTINLIST\<rparr>)"

definition nn_queue_item_term :: "nn_queue_item \<Rightarrow> unit option" where
  "nn_queue_item_term self = (if q_next self = NOTINLIST then Some () else None)"

definition nn_queue_item_isinqueue :: "nn_queue_item \<Rightarrow> bool" where
  "nn_queue_item_isinqueue self = (q_next self \<noteq> NOTINLIST)"

section \<open>The sequence a queue stands for\<close>

fun q_links :: "queue_store \<Rightarrow> nat list \<Rightarrow> ptr \<Rightarrow> bool" where
  "q_links h [] n = True"
| "q_links h (a # as) n = (h a = Some \<lparr>q_next = first_ptr as n\<rparr> \<and> q_links h as n)"

definition is_queue :: "queue_store \<Rightarrow> nn_queue \<Rightarrow> nat list \<Rightarrow> bool" where
  "is_queue h q xs \<longleftrightarrow> distinct xs \<and> q_head q = first_ptr xs NULL
     \<and> q_tail q = last_ptr NULL xs \<and> q_links h xs NULL"

lemma q_links_append:
  "q_links h (ys @ zs) n \<longleftrightarrow> q_links h ys (first_ptr zs n) \<and> q_links h zs n"
  by (induction ys) auto

lemma q_links_upd [simp]: "a \<notin> set xs \<Longrightarrow> q_links (h(a := v)) xs n = q_links h xs n"
  by (induction xs) auto

lemma first_ptr_NOTINLIST: "first_ptr xs n = NOTINLIST \<longleftrightarrow> xs = [] \<and> n = NOTINLIST"
  by (cases xs) auto

lemma q_links_item: "q_links h xs NULL \<Longrightarrow> a \<in> set xs \<Longrightarrow>
    \<exists>i. h a = Some i \<and> nn_queue_item_isinqueue i"
  by (induction xs) (auto simp: nn_queue_item_isinqueue_def first_ptr_NOTINLIST)

lemma is_queue_init: "is_queue h nn_queue_init []"
  by (simp add: is_queue_def nn_queue_init_def)

lemma is_queue_empty: "is_queue h q xs \<Longrightarrow> nn_queue_empty q \<longleftrightarrow> xs = []"
  by (simp add: is_queue_def nn_queue_empty_def)

lemma is_queue_push:
  assumes q: "is_queue h q xs" and i: "h item = Some i" "q_next i = NOTINLIST"
  shows "\<exists>q' h'. nn_queue_push q h item = Some (q', h') \<and> is_queue h' q' (xs @ [item])
    \<and> (\<forall>a. a \<noteq> item \<and> a \<notin> set xs \<longrightarrow> h' a = h a)"
proof -
  have h: "h item = Some \<lparr>q_next = NOTINLIST\<rparr>" using i by (cases i) auto
  have n: "item \<notin> set xs"
    using q i q_links_item [of h xs item] by (auto simp: is_queue_def nn_queue_item_isinqueue_def)
  show ?thesis
  proof (cases xs rule: rev_cases)
    case Nil
    then show ?thesis using q h by (simp add: is_queue_def nn_queue_push_def)
  next
    case (snoc ys y)
    then show ?thesis using q h n
      by (cases ys) (auto simp add: is_queue_def nn_queue_push_def q_links_append)
  qed
qed

lemma is_queue_pop_Nil: "is_queue h q [] \<Longrightarrow> nn_queue_pop q h = Some (NULL, q, h)"
  by (simp add: is_queue_def nn_queue_pop_def)

lemma is_queue_pop_Cons:
  assumes "is_queue h q (x # xs)"
  shows "\<exists>q' h'. nn_queue_pop q h = Some (Item x, q', h') \<and> is_queue h' q' xs
    \<and> h' x = Some \<lparr>q_next = NOTINLIST\<rparr> \<and> (\<forall>a. a \<noteq> x \<longrightarrow> h' a = h a)"
  using assms by (cases xs) (auto simp: is_queue_def nn_queue_pop_def)

lemma remove_loop_split:
  "q_links h zs NULL \<Longrightarrow> distinct (ys @ zs) \<Longrightarrow> item \<in> set zs \<Longrightarrow>
   queue_remove_loop q h item (first_ptr zs NULL) (last_ptr NULL ys) =
     queue_remove_loop q h item (Item item) (last_ptr NULL (ys @ takeWhile (\<lambda>a. a \<noteq> item) zs))"
proof (induction zs arbitrary: ys)
  case (Cons z zs)
  show ?case
  proof (cases "z = item")
    case False
    with Cons.prems Cons.IH [of "ys @ [z]"] show ?thesis
      by (subst queue_remove_loop.simps) simp
  qed simp
qed simp

lemma is_queue_remove:
  assumes q: "is_queue h q (ys @ item # zs)"
  shows "\<exists>q' h'. nn_queue_remove q h item = Some (q', h') \<and> is_queue h' q' (ys @ zs)
    \<and> h' item = Some \<lparr>q_next = NOTINLIST\<rparr> \<and> (\<forall>a. a \<notin> set (ys @ item # zs) \<longrightarrow> h' a = h a)"
proof -
  have d: "item \<notin> set ys" "item \<notin> set zs" "distinct ys" "distinct zs" "set ys \<inter> set zs = {}"
    and l: "q_links h ys (Item item)" "h item = Some \<lparr>q_next = first_ptr zs NULL\<rparr>"
      "q_links h zs NULL"
    and e: "q_head q = first_ptr ys (Item item)" "q_tail q = last_ptr (Item item) zs"
    using q by (auto simp: is_queue_def q_links_append)
  have "takeWhile (\<lambda>a. a \<noteq> item) (ys @ item # zs) = ys"
    using d(1) by (subst takeWhile_append2) auto
  moreover have "queue_remove_loop q h item (first_ptr (ys @ item # zs) NULL) (last_ptr NULL []) =
      queue_remove_loop q h item (Item item)
        (last_ptr NULL ([] @ takeWhile (\<lambda>a. a \<noteq> item) (ys @ item # zs)))"
    by (rule remove_loop_split) (use q in \<open>auto simp: is_queue_def\<close>)
  ultimately have "nn_queue_remove q h item =
      queue_remove_loop q h item (Item item) (last_ptr NULL ys)"
    using l(2) e(1) by (simp add: nn_queue_remove_def first_ptr_NOTINLIST)
  then have r: "nn_queue_remove q h item = do {
      let q = (if q_head q = Item item then q\<lparr>q_head := first_ptr zs NULL\<rparr> else q);
      let q = (if q_tail q = Item item then q\<lparr>q_tail := last_ptr NULL ys\<rparr> else q);
      h \<leftarrow> (if last_ptr NULL ys \<noteq> NULL then store_q_next h (last_ptr NULL ys) (first_ptr zs NULL)
           else Some h);
      h \<leftarrow> store_q_next h (Item item) NOTINLIST;
      Some (q, h) }"
    using l(2) by (simp add: queue_remove_loop.simps [of _ _ _ "Item item"])
  show ?thesis
  proof (cases ys rule: rev_cases)
    case Nil
    then show ?thesis using r d l e
      by (cases zs rule: rev_cases) (auto simp: is_queue_def q_links_append)
  next
    case (snoc us u)
    then have "item \<noteq> u" "u \<noteq> item" using d by auto
    with snoc have h: "h u = Some \<lparr>q_next = Item item\<rparr>" "q_links h us (Item u)"
      using l by (auto simp: q_links_append)
    have "first_ptr us (Item u) \<noteq> Item item" using d(1) snoc by (cases us) auto
    then show ?thesis using r d l e h snoc \<open>item \<noteq> u\<close>
      by (cases zs rule: rev_cases) (auto simp: is_queue_def q_links_append)
  qed
qed

text \<open>Removing an item that is in no queue, and one that is in another queue, changes nothing.\<close>

lemma nn_queue_remove_free:
  "h item = Some \<lparr>q_next = NOTINLIST\<rparr> \<Longrightarrow> nn_queue_remove q h item = Some (q, h)"
  by (simp add: nn_queue_remove_def)

lemma remove_loop_other:
  "q_links h zs NULL \<Longrightarrow> item \<notin> set zs \<Longrightarrow>
   queue_remove_loop q h item (first_ptr zs NULL) p = Some (q, h)"
proof (induction zs arbitrary: p)
  case Nil
  then show ?case by (simp add: queue_remove_loop.simps)
next
  case (Cons z zs)
  then show ?case by (subst queue_remove_loop.simps) simp
qed

lemma nn_queue_remove_other:
  "is_queue h q xs \<Longrightarrow> item \<notin> set xs \<Longrightarrow> h item = Some i \<Longrightarrow> nn_queue_remove q h item = Some (q, h)"
  by (simp add: nn_queue_remove_def is_queue_def remove_loop_other)

section \<open>The interface of a queue\<close>

datatype 'a queue_op = Push 'a | Pop | Remove 'a

text \<open>A script yields the items popped, a pop of an empty queue yielding none.\<close>

fun run_queue_ops ::
  "('s \<Rightarrow> 'a \<Rightarrow> 's option) \<Rightarrow> ('s \<Rightarrow> ('a option \<times> 's) option) \<Rightarrow> ('s \<Rightarrow> 'a \<Rightarrow> 's option) \<Rightarrow>
   's \<Rightarrow> 'a queue_op list \<Rightarrow> ('a list \<times> 's) option" where
  "run_queue_ops psh pp rmv s [] = Some ([], s)"
| "run_queue_ops psh pp rmv s (Push a # ops) =
     Option.bind (psh s a) (\<lambda>s. run_queue_ops psh pp rmv s ops)"
| "run_queue_ops psh pp rmv s (Pop # ops) =
     Option.bind (pp s) (\<lambda>(x, s).
       map_option (apfst (append (case x of None \<Rightarrow> [] | Some a \<Rightarrow> [a])))
         (run_queue_ops psh pp rmv s ops))"
| "run_queue_ops psh pp rmv s (Remove a # ops) =
     Option.bind (rmv s a) (\<lambda>s. run_queue_ops psh pp rmv s ops)"

fun seq_queue_ops :: "'a list \<Rightarrow> 'a queue_op list \<Rightarrow> ('a list \<times> 'a list) option" where
  "seq_queue_ops xs [] = Some ([], xs)"
| "seq_queue_ops xs (Push a # ops) =
     (if a \<in> set xs then None else seq_queue_ops (xs @ [a]) ops)"
| "seq_queue_ops [] (Pop # ops) = seq_queue_ops [] ops"
| "seq_queue_ops (x # xs) (Pop # ops) = map_option (apfst ((#) x)) (seq_queue_ops xs ops)"
| "seq_queue_ops xs (Remove a # ops) = seq_queue_ops (remove1 a xs) ops"

fun op_item :: "'a queue_op \<Rightarrow> 'a set" where
  "op_item (Push a) = {a}"
| "op_item Pop = {}"
| "op_item (Remove a) = {a}"

locale fifo =
  fixes rep :: "'s \<Rightarrow> 'a list \<Rightarrow> bool"
    and free :: "'s \<Rightarrow> 'a \<Rightarrow> bool"
    and psh :: "'s \<Rightarrow> 'a \<Rightarrow> 's option"
    and pp :: "'s \<Rightarrow> ('a option \<times> 's) option"
    and rmv :: "'s \<Rightarrow> 'a \<Rightarrow> 's option"
  assumes rep_distinct: "rep s xs \<Longrightarrow> distinct xs"
    and psh_law: "rep s xs \<Longrightarrow> free s a \<Longrightarrow>
      \<exists>s'. psh s a = Some s' \<and> rep s' (xs @ [a]) \<and> (\<forall>b. b \<noteq> a \<and> free s b \<longrightarrow> free s' b)"
    and pp_Nil: "rep s [] \<Longrightarrow> pp s = Some (None, s)"
    and pp_Cons: "rep s (x # xs) \<Longrightarrow>
      \<exists>s'. pp s = Some (Some x, s') \<and> rep s' xs \<and> (\<forall>b. b = x \<or> free s b \<longrightarrow> free s' b)"
    and rmv_in: "rep s xs \<Longrightarrow> a \<in> set xs \<Longrightarrow>
      \<exists>s'. rmv s a = Some s' \<and> rep s' (remove1 a xs) \<and> (\<forall>b. b = a \<or> free s b \<longrightarrow> free s' b)"
    and rmv_free: "rep s xs \<Longrightarrow> free s a \<Longrightarrow> rmv s a = Some s"
begin

lemma run_ops:
  "rep s xs \<Longrightarrow> (\<And>a. a \<in> U \<Longrightarrow> free s a \<or> a \<in> set xs) \<Longrightarrow>
   (\<Union>x \<in> set ops. op_item x) \<subseteq> U \<Longrightarrow> seq_queue_ops xs ops = Some (out, ys) \<Longrightarrow>
   \<exists>s'. run_queue_ops psh pp rmv s ops = Some (out, s') \<and> rep s' ys"
proof (induction xs ops arbitrary: s out rule: seq_queue_ops.induct)
  case (1 xs)
  then show ?case by simp
next
  case (2 xs a ops)
  then have "a \<notin> set xs" "free s a" by (auto split: if_splits)
  then obtain s' where s': "psh s a = Some s'" "rep s' (xs @ [a])"
    "\<forall>b. b \<noteq> a \<and> free s b \<longrightarrow> free s' b" using psh_law [OF "2.prems"(1)] by blast
  have "\<exists>s''. run_queue_ops psh pp rmv s' ops = Some (out, s'') \<and> rep s'' ys"
    by (rule "2.IH" [OF \<open>a \<notin> set xs\<close> s'(2)]) (use "2.prems" s'(3) in \<open>auto split: if_splits\<close>)
  with s'(1) show ?case by simp
next
  case (3 ops)
  have "\<exists>s'. run_queue_ops psh pp rmv s ops = Some (out, s') \<and> rep s' ys"
    by (rule "3.IH" [OF "3.prems"(1)]) (use "3.prems" in auto)
  then show ?case by (auto simp: pp_Nil [OF "3.prems"(1)])
next
  case (4 x xs ops)
  obtain s' where s': "pp s = Some (Some x, s')" "rep s' xs" "\<forall>b. b = x \<or> free s b \<longrightarrow> free s' b"
    using pp_Cons [OF "4.prems"(1)] by blast
  obtain out' where o: "seq_queue_ops xs ops = Some (out', ys)" "out = x # out'"
    using "4.prems"(4) by auto
  have "\<exists>s''. run_queue_ops psh pp rmv s' ops = Some (out', s'') \<and> rep s'' ys"
    by (rule "4.IH" [OF s'(2) _ _ o(1)]) (use "4.prems" s'(3) in auto)
  with s'(1) o(2) show ?case by auto
next
  case (5 xs a ops)
  show ?case
  proof (cases "a \<in> set xs")
    case True
    obtain s' where s': "rmv s a = Some s'" "rep s' (remove1 a xs)"
      "\<forall>b. b = a \<or> free s b \<longrightarrow> free s' b" using rmv_in [OF "5.prems"(1) True] by blast
    have "\<exists>s''. run_queue_ops psh pp rmv s' ops = Some (out, s'') \<and> rep s'' ys"
      by (rule "5.IH" [OF s'(2)])
        (use "5.prems" s'(3) rep_distinct [OF "5.prems"(1)] in auto)
    with s'(1) show ?thesis by simp
  next
    case False
    with "5.prems" have r: "rmv s a = Some s" by (auto intro: rmv_free)
    have "\<exists>s''. run_queue_ops psh pp rmv s ops = Some (out, s'') \<and> rep s'' ys"
      by (rule "5.IH") (use "5.prems" False in \<open>auto simp: remove1_idem\<close>)
    with r show ?thesis by simp
  qed
qed

end

definition q_rep :: "nn_queue \<times> queue_store \<Rightarrow> nat list \<Rightarrow> bool" where
  "q_rep s xs = is_queue (snd s) (fst s) xs"

definition q_free :: "nn_queue \<times> queue_store \<Rightarrow> nat \<Rightarrow> bool" where
  "q_free s a = (snd s a = Some \<lparr>q_next = NOTINLIST\<rparr>)"

definition q_push :: "nn_queue \<times> queue_store \<Rightarrow> nat \<Rightarrow> (nn_queue \<times> queue_store) option" where
  "q_push s a = nn_queue_push (fst s) (snd s) a"

definition q_pop :: "nn_queue \<times> queue_store \<Rightarrow> (nat option \<times> nn_queue \<times> queue_store) option" where
  "q_pop s = map_option (apfst of_ptr) (nn_queue_pop (fst s) (snd s))"

definition q_remove :: "nn_queue \<times> queue_store \<Rightarrow> nat \<Rightarrow> (nn_queue \<times> queue_store) option" where
  "q_remove s a = nn_queue_remove (fst s) (snd s) a"

lemma q_free_not_in: "q_rep s xs \<Longrightarrow> q_free s a \<Longrightarrow> a \<notin> set xs"
  using q_links_item [of "snd s" xs a]
  by (auto simp: q_rep_def q_free_def is_queue_def nn_queue_item_isinqueue_def)

interpretation code_queue: fifo q_rep q_free q_push q_pop q_remove
proof unfold_locales
  fix s :: "nn_queue \<times> queue_store" and xs and a x :: nat
  show "q_rep s xs \<Longrightarrow> distinct xs" by (simp add: q_rep_def is_queue_def)
  show "\<exists>s'. q_push s a = Some s' \<and> q_rep s' (xs @ [a]) \<and> (\<forall>b. b \<noteq> a \<and> q_free s b \<longrightarrow> q_free s' b)"
    if "q_rep s xs" "q_free s a"
  proof -
    from that obtain q' h' where "nn_queue_push (fst s) (snd s) a = Some (q', h')"
      "is_queue h' q' (xs @ [a])" "\<forall>b. b \<noteq> a \<and> b \<notin> set xs \<longrightarrow> h' b = snd s b"
      using is_queue_push [of "snd s" "fst s" xs a "\<lparr>q_next = NOTINLIST\<rparr>"]
      by (auto simp: q_rep_def q_free_def)
    moreover have "q_free s b \<Longrightarrow> b \<notin> set xs" for b using that(1) by (auto dest: q_free_not_in)
    ultimately show ?thesis by (auto simp: q_push_def q_rep_def q_free_def)
  qed
  show "q_rep s [] \<Longrightarrow> q_pop s = Some (None, s)"
    by (simp add: q_rep_def q_pop_def is_queue_pop_Nil)
  show "\<exists>s'. q_pop s = Some (Some x, s') \<and> q_rep s' xs \<and> (\<forall>b. b = x \<or> q_free s b \<longrightarrow> q_free s' b)"
    if "q_rep s (x # xs)"
  proof -
    from that obtain q' h' where "nn_queue_pop (fst s) (snd s) = Some (Item x, q', h')"
      "is_queue h' q' xs" "h' x = Some \<lparr>q_next = NOTINLIST\<rparr>" "\<forall>a. a \<noteq> x \<longrightarrow> h' a = snd s a"
      using is_queue_pop_Cons [of "snd s" "fst s" x xs] by (auto simp: q_rep_def)
    then show ?thesis by (auto simp: q_pop_def q_rep_def q_free_def)
  qed
  show "\<exists>s'. q_remove s a = Some s' \<and> q_rep s' (remove1 a xs) \<and>
      (\<forall>b. b = a \<or> q_free s b \<longrightarrow> q_free s' b)" if "q_rep s xs" "a \<in> set xs"
  proof -
    from that(2) obtain ys zs where p: "xs = ys @ a # zs" "a \<notin> set ys"
      using split_list_first by metis
    from that(1) obtain q' h' where "nn_queue_remove (fst s) (snd s) a = Some (q', h')"
      "is_queue h' q' (ys @ zs)" "h' a = Some \<lparr>q_next = NOTINLIST\<rparr>"
      "\<forall>b. b \<notin> set (ys @ a # zs) \<longrightarrow> h' b = snd s b"
      using is_queue_remove [of "snd s" "fst s" ys a zs] by (auto simp: q_rep_def p(1))
    moreover have "q_free s b \<Longrightarrow> b \<notin> set (ys @ a # zs)" for b
      using that(1) p(1) by (auto dest: q_free_not_in)
    ultimately show ?thesis using p by (auto simp: q_remove_def q_rep_def q_free_def remove1_append)
  qed
  show "q_rep s xs \<Longrightarrow> q_free s a \<Longrightarrow> q_remove s a = Some s"
    by (simp add: q_remove_def q_free_def nn_queue_remove_free)
qed

section \<open>Properties\<close>

definition fresh_queue_items :: "nat \<Rightarrow> queue_store" where
  "fresh_queue_items n = fold (\<lambda>a h. nn_queue_item_init h a) [0..<n] (\<lambda>_. None)"

lemma fresh_queue_items: "a < n \<Longrightarrow> fresh_queue_items n a = Some \<lparr>q_next = NOTINLIST\<rparr>"
proof (induction n)
  case (Suc n)
  then show ?case by (cases "a = n") (auto simp: fresh_queue_items_def nn_queue_item_init_def)
qed simp

text \<open>C19. The queue is first in, first out, with removal: any script of pushes (of items in no
  queue), pops and removals runs to its end in the pointer code of \<open>queue.c\<close> (the loop of
  \<open>nn_queue_remove\<close> included, which always ends), pops exactly the items and in the order of the
  list it denotes, and leaves a queue of exactly the remaining items.\<close>

theorem nn_queue_is_fifo:
  assumes "seq_queue_ops [] ops = Some (out, xs)" and "(\<Union>x \<in> set ops. op_item x) \<subseteq> {..<n}"
  shows "\<exists>q h. run_queue_ops q_push q_pop q_remove (nn_queue_init, fresh_queue_items n) ops
      = Some (out, q, h) \<and> is_queue h q xs"
proof -
  have "q_rep (nn_queue_init, fresh_queue_items n) []" by (simp add: q_rep_def is_queue_init)
  moreover have "a \<in> {..<n} \<Longrightarrow> q_free (nn_queue_init, fresh_queue_items n) a \<or> a \<in> set []" for a
    by (simp add: q_free_def fresh_queue_items)
  ultimately show ?thesis
    using code_queue.run_ops [OF _ _ assms(2,1)] by (auto simp: q_rep_def)
qed

theorem nn_queue_is_fifo_witness:
  "\<exists>q h. run_queue_ops q_push q_pop q_remove (nn_queue_init, fresh_queue_items 4)
      [Push 2, Push 0, Push 3, Remove 0, Pop, Push 1, Push 2, Pop, Remove 3] = Some ([2, 3], q, h)
    \<and> is_queue h q [1, 2]"
  by (rule nn_queue_is_fifo) auto

end
