(* ===== verification/NN_Message.thy ===== *)
theory NN_Message
  imports NN_Wire NN_Errno
begin

text \<open>
  A message as the protocols see it: the bytes that the three chunk references of \<open>struct nn_msg\<close>
  hold. \<open>NN_Chunkref\<close> shows that trimming, moving, copying and extracting a reference act on these
  bytes as the functions here do, so the components above it work on this level. A chunk reference
  of length \<open>n\<close> is indexed like an array of \<open>n\<close> bytes.
\<close>

record msg =
  m_sphdr :: "byte list"
  m_hdrs :: "byte list"
  m_body :: "byte list"

definition plain_msg :: "byte list \<Rightarrow> msg" where
  "plain_msg bs = \<lparr>m_sphdr = [], m_hdrs = [], m_body = bs\<rparr>"

text \<open>\<open>nn_chunkref_trim\<close>: asserts that there are that many bytes.\<close>

definition trim :: "byte list \<Rightarrow> nat \<Rightarrow> byte list option" where
  "trim bs n = (if n \<le> length bs then Some (drop n bs) else None)"

definition msg_size :: "msg \<Rightarrow> nat" where
  "msg_size m = length (m_sphdr m) + length (m_body m)"

end
