(* ===== verification/NN_Msgqueue.thy ===== *)
theory NN_Msgqueue
  imports NN_Message
begin

text \<open>
  \<open>transports/inproc/msgqueue.c\<close> of nanomsg: the queue of messages between two in-process sockets,
  a linked chain of chunks of \<open>NN_MSGQUEUE_GRANULARITY\<close> messages with one chunk cached. Chunks live
  in a store; a pointer is an address or \<open>None\<close>, and a result \<open>None\<close> of an operation is an access
  outside a live chunk or a read of a slot nobody wrote.
\<close>

section \<open>The code\<close>

definition NN_MSGQUEUE_GRANULARITY :: nat where "NN_MSGQUEUE_GRANULARITY = 126"

record nn_msgqueue_chunk =
  msgs :: "msg option list"
  mq_next :: "nat option"

type_synonym mq_store = "nat \<Rightarrow> nn_msgqueue_chunk option"

record nn_msgqueue =
  out_chunk :: nat
  out_pos :: nat
  in_chunk :: nat
  in_pos :: nat
  count :: u64
  mem :: u64
  maxmem :: u64
  cache :: "nat option"
  store :: mq_store
  brk :: nat  \<comment> \<open>the address the next allocation returns\<close>

definition fresh_chunk :: nn_msgqueue_chunk where
  "fresh_chunk = \<lparr>msgs = replicate NN_MSGQUEUE_GRANULARITY None, mq_next = None\<rparr>"

definition nn_msgqueue_init :: "u64 \<Rightarrow> nn_msgqueue" where
  "nn_msgqueue_init maxm = \<lparr>out_chunk = 0, out_pos = 0, in_chunk = 0, in_pos = 0, count = 0,
     mem = 0, maxmem = maxm, cache = None, store = [0 \<mapsto> fresh_chunk], brk = 1\<rparr>"

definition nn_msgqueue_empty :: "nn_msgqueue \<Rightarrow> bool" where
  "nn_msgqueue_empty self = (count self = 0)"

definition size_of_msg :: "msg \<Rightarrow> u64" where
  "size_of_msg m = word_of_nat (length (m_sphdr m)) + word_of_nat (length (m_body m))"

text \<open>The end of a chunk: the next one is the cached one, or a new one.\<close>

definition next_out_chunk :: "nn_msgqueue \<Rightarrow> nn_msgqueue option" where
  "next_out_chunk self = do {
     let self = (if cache self = None
       then self\<lparr>cache := Some (brk self), store := (store self)(brk self \<mapsto> fresh_chunk),
              brk := brk self + 1\<rparr>
       else self);
     o' \<leftarrow> store self (out_chunk self);
     c \<leftarrow> cache self;
     Some (self\<lparr>store := (store self)(out_chunk self \<mapsto> o'\<lparr>mq_next := Some c\<rparr>),
       out_chunk := c, cache := None, out_pos := 0\<rparr>) }"

definition nn_msgqueue_send :: "nn_msgqueue \<Rightarrow> msg \<Rightarrow> (int \<times> nn_msgqueue) option" where
  "nn_msgqueue_send self m = (
     let msgsz = size_of_msg m in
     if count self > 0 \<and> mem self + msgsz \<ge> maxmem self then Some (- EAGAIN, self)
     else do {
       let self = self\<lparr>count := count self + 1, mem := mem self + msgsz\<rparr>;
       c \<leftarrow> store self (out_chunk self);
       if length (msgs c) \<le> out_pos self then None else do {
         let self = self\<lparr>store := (store self)
               (out_chunk self \<mapsto> c\<lparr>msgs := (msgs c)[out_pos self := Some m]\<rparr>),
             out_pos := out_pos self + 1\<rparr>;
         self \<leftarrow> (if out_pos self = NN_MSGQUEUE_GRANULARITY then next_out_chunk self else Some self);
         Some (0, self) } })"

definition nn_msgqueue_recv :: "nn_msgqueue \<Rightarrow> (int \<times> msg option \<times> nn_msgqueue) option" where
  "nn_msgqueue_recv self =
     (if count self = 0 then Some (- EAGAIN, None, self)
      else do {
        o' \<leftarrow> store self (in_chunk self);
        slot \<leftarrow> peek (msgs o') (in_pos self);
        m \<leftarrow> slot;
        let self = self\<lparr>in_pos := in_pos self + 1\<rparr>;
        self \<leftarrow> (if in_pos self = NN_MSGQUEUE_GRANULARITY then do {
            n \<leftarrow> mq_next o';
            let c = in_chunk self;
            let self = self\<lparr>in_chunk := n, in_pos := 0\<rparr>;
            Some (if cache self = None then self\<lparr>cache := Some c\<rparr>
                  else self\<lparr>store := (store self)(c := None)\<rparr>) }
          else Some self);
        Some (0, Some m, self\<lparr>count := count self - 1, mem := mem self - size_of_msg m\<rparr>) })"

text \<open>The loop of \<open>nn_msgqueue_term\<close>: every message received makes the count smaller.\<close>

lemma recv_count:
  assumes "nn_msgqueue_recv self = Some (rc, m, self')" "rc \<noteq> - EAGAIN"
  shows "unat (count self') < unat (count self)"
proof -
  have "count self \<noteq> 0" "count self' = count self - 1"
    using assms by (auto simp: nn_msgqueue_recv_def Let_def split: if_splits bind_splits)
  then show ?thesis by (simp add: unat_minus_one unat_gt_0)
qed

function msgqueue_drain :: "nn_msgqueue \<Rightarrow> nn_msgqueue option" where
  "msgqueue_drain self = (case nn_msgqueue_recv self of
     None \<Rightarrow> None
   | Some (rc, _, self) \<Rightarrow>
       if rc = - EAGAIN then Some self
       else if rc < 0 then None
       else msgqueue_drain self)"
  by pat_completeness auto
termination
  by (relation "measure (\<lambda>q. unat (count q))") (auto dest: recv_count)

declare msgqueue_drain.simps [simp del]

definition nn_msgqueue_term :: "nn_msgqueue \<Rightarrow> mq_store option" where
  "nn_msgqueue_term self = do {
     self \<leftarrow> msgqueue_drain self;
     if in_chunk self \<noteq> out_chunk self then None
     else Some ((store self)(in_chunk self := None) |` (case cache self of None \<Rightarrow> UNIV | Some c \<Rightarrow> - {c})) }"

section \<open>The messages in the queue\<close>

text \<open>
  \<open>mq_chain h cs lo hi xs\<close>: the chunks \<open>cs\<close> are linked, and their slots from \<open>lo\<close> of the first to
  \<open>hi\<close> of the last hold the messages \<open>xs\<close>.
\<close>

fun mq_chain :: "mq_store \<Rightarrow> nat list \<Rightarrow> nat \<Rightarrow> nat \<Rightarrow> msg list \<Rightarrow> bool" where
  "mq_chain h [] lo hi xs = False"
| "mq_chain h [c] lo hi xs = (\<exists>k. h c = Some k \<and> length (msgs k) = NN_MSGQUEUE_GRANULARITY
     \<and> lo \<le> hi \<and> hi < NN_MSGQUEUE_GRANULARITY \<and> slice lo (hi - lo) (msgs k) = map Some xs)"
| "mq_chain h (c # c' # cs) lo hi xs = (\<exists>k ys zs. h c = Some k
     \<and> length (msgs k) = NN_MSGQUEUE_GRANULARITY \<and> lo < NN_MSGQUEUE_GRANULARITY
     \<and> mq_next k = Some c' \<and> xs = ys @ zs \<and> drop lo (msgs k) = map Some ys
     \<and> mq_chain h (c' # cs) 0 hi zs)"

definition mq_mem :: "msg list \<Rightarrow> u64" where
  "mq_mem xs = (\<Sum>m \<leftarrow> xs. size_of_msg m)"

definition mq_rep :: "nn_msgqueue \<Rightarrow> msg list \<Rightarrow> bool" where
  "mq_rep q xs \<longleftrightarrow> (\<exists>cs. mq_chain (store q) cs (in_pos q) (out_pos q) xs \<and> distinct cs
     \<and> hd cs = in_chunk q \<and> last cs = out_chunk q
     \<and> (\<forall>c. cache q = Some c \<longrightarrow> c \<notin> set cs \<and> c < brk q
          \<and> (\<exists>k. store q c = Some k \<and> length (msgs k) = NN_MSGQUEUE_GRANULARITY))
     \<and> (\<forall>c \<in> set cs. c < brk q)
     \<and> count q = word_of_nat (length xs) \<and> length xs < 2 ^ 64 \<and> mem q = mq_mem xs)"

lemma mq_chain_cong:
  "(\<And>c. c \<in> set cs \<Longrightarrow> h' c = h c) \<Longrightarrow> mq_chain h' cs lo hi xs = mq_chain h cs lo hi xs"
  by (induction h cs lo hi xs rule: mq_chain.induct) auto

lemma mq_chain_last:
  "mq_chain h cs lo hi xs \<Longrightarrow> \<exists>k. h (last cs) = Some k \<and> length (msgs k) = NN_MSGQUEUE_GRANULARITY
     \<and> hi < NN_MSGQUEUE_GRANULARITY"
  by (induction h cs lo hi xs rule: mq_chain.induct) auto

lemma slice_snoc:
  "lo \<le> hi \<Longrightarrow> hi < length m \<Longrightarrow> slice lo (Suc hi - lo) (m[hi := x]) = slice lo (hi - lo) m @ [x]"
  by (simp add: slice_def Suc_diff_le take_Suc_conv_app_nth drop_update_swap)

lemma mq_chain_Cons2:
  "mq_chain h (c # c' # cs) lo hi xs \<Longrightarrow> \<exists>k ys zs. h c = Some k
     \<and> length (msgs k) = NN_MSGQUEUE_GRANULARITY \<and> lo < NN_MSGQUEUE_GRANULARITY
     \<and> mq_next k = Some c' \<and> xs = ys @ zs \<and> drop lo (msgs k) = map Some ys
     \<and> mq_chain h (c' # cs) 0 hi zs"
  by simp

lemma mq_chain_Cons2I:
  "h c = Some k \<Longrightarrow> length (msgs k) = NN_MSGQUEUE_GRANULARITY \<Longrightarrow> lo < NN_MSGQUEUE_GRANULARITY \<Longrightarrow>
   mq_next k = Some c' \<Longrightarrow> drop lo (msgs k) = map Some ys \<Longrightarrow> mq_chain h (c' # cs) 0 hi zs \<Longrightarrow>
   mq_chain h (c # c' # cs) lo hi (ys @ zs)"
  by auto

text \<open>Writing into the slot at \<open>hi\<close> appends a message.\<close>

lemma mq_chain_write:
  "mq_chain h cs lo hi xs \<Longrightarrow> distinct cs \<Longrightarrow> h (last cs) = Some k \<Longrightarrow> Suc hi < NN_MSGQUEUE_GRANULARITY \<Longrightarrow>
   h' (last cs) = Some (k\<lparr>msgs := (msgs k)[hi := Some m]\<rparr>) \<Longrightarrow>
   (\<And>c. c \<in> set cs \<Longrightarrow> c \<noteq> last cs \<Longrightarrow> h' c = h c) \<Longrightarrow> mq_chain h' cs lo (Suc hi) (xs @ [m])"
proof (induction h cs lo hi xs rule: mq_chain.induct)
  case (2 h c lo hi xs)
  then show ?case by (auto simp: slice_snoc)
next
  case (3 h c c' cs lo hi xs)
  from mq_chain_Cons2 [OF "3.prems"(1)] obtain kc ys zs where kc: "h c = Some kc"
    "length (msgs kc) = NN_MSGQUEUE_GRANULARITY" "lo < NN_MSGQUEUE_GRANULARITY" "mq_next kc = Some c'"
    "xs = ys @ zs" "drop lo (msgs kc) = map Some ys" "mq_chain h (c' # cs) 0 hi zs" by blast
  have "c \<noteq> last (c' # cs)" using "3.prems"(2) last_in_set [of "c' # cs"] by auto
  then have kept: "h' c = Some kc" using kc(1) "3.prems"(6) [of c] by (simp split: if_splits)
  have "mq_chain h' (c' # cs) 0 (Suc hi) (zs @ [m])"
    by (rule "3.IH" [OF kc(7)]) (use "3.prems" in \<open>auto split: if_splits\<close>)
  note rest = this
  show ?case
    unfolding kc(5) append_assoc by (rule mq_chain_Cons2I) (fact kept kc rest)+
qed simp

text \<open>Filling the last slot moves on to a new chunk.\<close>

lemma mq_chain_extend:
  "mq_chain h cs lo hi xs \<Longrightarrow> distinct cs \<Longrightarrow> h (last cs) = Some k \<Longrightarrow> Suc hi = NN_MSGQUEUE_GRANULARITY \<Longrightarrow>
   h' (last cs) = Some (k\<lparr>msgs := (msgs k)[hi := Some m], mq_next := Some n\<rparr>) \<Longrightarrow>
   (\<And>c. c \<in> set cs \<Longrightarrow> c \<noteq> last cs \<Longrightarrow> h' c = h c) \<Longrightarrow>
   h' n = Some kn \<Longrightarrow> length (msgs kn) = NN_MSGQUEUE_GRANULARITY \<Longrightarrow>
   mq_chain h' (cs @ [n]) lo 0 (xs @ [m])"
proof (induction h cs lo hi xs rule: mq_chain.induct)
  case (2 h c lo hi xs)
  then have l: "lo \<le> hi" "hi < length (msgs k)" "length (msgs k) = Suc hi"
    "slice lo (hi - lo) (msgs k) = map Some xs" by auto
  have "slice lo (Suc hi - lo) ((msgs k)[hi := Some m]) = drop lo ((msgs k)[hi := Some m])"
    using l by (simp add: slice_def)
  with slice_snoc [OF l(1,2), of "Some m"] l have d: "drop lo ((msgs k)[hi := Some m]) = map Some (xs @ [m])"
    by simp
  have "mq_chain h' [n] 0 0 []" using 2 by (simp add: slice_def NN_MSGQUEUE_GRANULARITY_def)
  from mq_chain_Cons2I [OF _ _ _ _ _ this, of c _ lo "xs @ [m]"] d 2 l show ?case
    by simp
next
  case (3 h c c' cs lo hi xs)
  from mq_chain_Cons2 [OF "3.prems"(1)] obtain kc ys zs where kc: "h c = Some kc"
    "length (msgs kc) = NN_MSGQUEUE_GRANULARITY" "lo < NN_MSGQUEUE_GRANULARITY" "mq_next kc = Some c'"
    "xs = ys @ zs" "drop lo (msgs kc) = map Some ys" "mq_chain h (c' # cs) 0 hi zs" by blast
  have "c \<noteq> last (c' # cs)" using "3.prems"(2) last_in_set [of "c' # cs"] by auto
  then have kept: "h' c = Some kc" using kc(1) "3.prems"(6) [of c] by (simp split: if_splits)
  have "mq_chain h' ((c' # cs) @ [n]) 0 0 (zs @ [m])"
    by (rule "3.IH" [OF kc(7)]) (use "3.prems" in \<open>auto split: if_splits\<close>)
  then have rest: "mq_chain h' (c' # cs @ [n]) 0 0 (zs @ [m])" by simp
  show ?case
    unfolding kc(5) append_assoc append_Cons by (rule mq_chain_Cons2I) (fact kept kc rest)+
qed simp

text \<open>Reading the first slot.\<close>

lemma mq_chain_read:
  assumes "mq_chain h cs lo hi (x # xs)"
  shows "\<exists>k. h (hd cs) = Some k \<and> lo < length (msgs k) \<and> length (msgs k) = NN_MSGQUEUE_GRANULARITY
    \<and> msgs k ! lo = Some x
    \<and> (Suc lo < NN_MSGQUEUE_GRANULARITY \<longrightarrow> mq_chain h cs (Suc lo) hi xs)
    \<and> (Suc lo = NN_MSGQUEUE_GRANULARITY \<longrightarrow>
         (\<exists>c' cs'. cs = hd cs # c' # cs' \<and> mq_next k = Some c' \<and> mq_chain h (c' # cs') 0 hi xs))"
proof (cases cs)
  case Nil
  with assms show ?thesis by simp
next
  case (Cons c cs')
  show ?thesis
  proof (cases cs')
    case Nil
    with assms Cons obtain k where k: "h c = Some k" "length (msgs k) = NN_MSGQUEUE_GRANULARITY"
      "lo \<le> hi" "hi < NN_MSGQUEUE_GRANULARITY" "slice lo (hi - lo) (msgs k) = map Some (x # xs)" by auto
    then have "lo < hi" by (cases "lo = hi") (auto simp: slice_def)
    then have "slice lo (hi - lo) (msgs k) = msgs k ! lo # slice (Suc lo) (hi - Suc lo) (msgs k)"
      using slice_Suc [of lo "msgs k" "hi - Suc lo"] k(2,4) by (simp add: Suc_diff_Suc)
    with k \<open>lo < hi\<close> Cons Nil show ?thesis by auto
  next
    case (Cons c' cs'')
    with assms \<open>cs = c # cs'\<close> obtain k ys zs where k: "h c = Some k"
      "length (msgs k) = NN_MSGQUEUE_GRANULARITY" "lo < NN_MSGQUEUE_GRANULARITY" "mq_next k = Some c'"
      "x # xs = ys @ zs" "drop lo (msgs k) = map Some ys" "mq_chain h (c' # cs'') 0 hi zs"
      using mq_chain_Cons2 by blast
    have "drop lo (msgs k) = msgs k ! lo # drop (Suc lo) (msgs k)"
      using k(2,3) by (simp add: Cons_nth_drop_Suc)
    with k(6) obtain y ys' where ys: "ys = y # ys'" "msgs k ! lo = Some y"
      "drop (Suc lo) (msgs k) = map Some ys'" by (cases ys) auto
    then have x: "x = y" "xs = ys' @ zs" using k(5) by auto
    have "Suc lo = NN_MSGQUEUE_GRANULARITY \<Longrightarrow> ys' = []" using ys(3) k(2) by simp
    then show ?thesis using k ys x \<open>cs = c # cs'\<close> Cons mq_chain_Cons2I [OF k(1,2) _ k(4) ys(3) k(7)]
      by auto
  qed
qed

lemma mq_chain_nonempty: "mq_chain h cs lo hi xs \<Longrightarrow> cs \<noteq> []"
  by auto


lemma mq_rep_init: "mq_rep (nn_msgqueue_init maxm) []"
  unfolding mq_rep_def
  by (rule exI [of _ "[0]"])
    (simp add: nn_msgqueue_init_def fresh_chunk_def NN_MSGQUEUE_GRANULARITY_def slice_def mq_mem_def)

lemma mq_count: "mq_rep q xs \<Longrightarrow> count q = 0 \<longleftrightarrow> xs = []"
proof -
  assume "mq_rep q xs"
  then have "count q = word_of_nat (length xs)" "length xs < 2 ^ 64" by (auto simp: mq_rep_def)
  then have "unat (count q) = length xs" by (simp add: unat_of_nat)
  then show ?thesis by (cases "xs = []") (auto simp: unsigned_eq_0_iff)
qed

lemma send_full:
  "mq_rep q xs \<Longrightarrow> xs \<noteq> [] \<Longrightarrow> maxmem q \<le> mem q + size_of_msg m \<Longrightarrow>
     nn_msgqueue_send q m = Some (- EAGAIN, q)"
  using mq_count [of q xs] by (simp add: nn_msgqueue_send_def Let_def word_neq_0_conv [symmetric])

lemma send_room:
  assumes r: "mq_rep q xs" and room: "xs = [] \<or> mem q + size_of_msg m < maxmem q"
    and len: "Suc (length xs) < 2 ^ 64"
  shows "\<exists>q'. nn_msgqueue_send q m = Some (0, q') \<and> mq_rep q' (xs @ [m]) \<and> maxmem q' = maxmem q"
proof -
  from r obtain cs where ch: "mq_chain (store q) cs (in_pos q) (out_pos q) xs" and d: "distinct cs"
    and ends: "hd cs = in_chunk q" "last cs = out_chunk q"
    and ca: "\<And>c. cache q = Some c \<Longrightarrow> c \<notin> set cs \<and> c < brk q
          \<and> (\<exists>k. store q c = Some k \<and> length (msgs k) = NN_MSGQUEUE_GRANULARITY)"
    and br: "\<And>c. c \<in> set cs \<Longrightarrow> c < brk q"
    and cnt: "count q = word_of_nat (length xs)" and mm: "mem q = mq_mem xs"
    unfolding mq_rep_def by blast
  obtain k where k: "store q (out_chunk q) = Some k" "length (msgs k) = NN_MSGQUEUE_GRANULARITY"
    "out_pos q < NN_MSGQUEUE_GRANULARITY" using mq_chain_last [OF ch] ends by auto
  have ne: "cs \<noteq> []" using mq_chain_nonempty [OF ch] .
  have inl: "out_chunk q \<in> set cs" using ne ends last_in_set by metis
  have nfull: "\<not> (count q > 0 \<and> mem q + size_of_msg m \<ge> maxmem q)"
    using room mq_count [OF r] by (auto simp: not_le)
  have cm: "count q + 1 = word_of_nat (length (xs @ [m]))" "mem q + size_of_msg m = mq_mem (xs @ [m])"
    using cnt mm by (simp_all add: mq_mem_def)
  define q1 where "q1 = q\<lparr>count := count q + 1, mem := mem q + size_of_msg m,
    store := (store q)(out_chunk q \<mapsto> k\<lparr>msgs := (msgs k)[out_pos q := Some m]\<rparr>),
    out_pos := out_pos q + 1\<rparr>"
  have send: "nn_msgqueue_send q m = do {
      q2 \<leftarrow> (if out_pos q1 = NN_MSGQUEUE_GRANULARITY then next_out_chunk q1 else Some q1);
      Some (0, q2) }"
    using nfull k by (auto simp: nn_msgqueue_send_def q1_def Let_def)
  show ?thesis
  proof (cases "Suc (out_pos q) = NN_MSGQUEUE_GRANULARITY")
    case False
    then have lt: "Suc (out_pos q) < NN_MSGQUEUE_GRANULARITY" using k(3) by simp
    have "mq_chain (store q1) cs (in_pos q) (Suc (out_pos q)) (xs @ [m])"
      by (rule mq_chain_write [OF ch d]) (use lt k ends in \<open>auto simp: q1_def\<close>)
    moreover have "\<exists>k. store q1 c = Some k \<and> length (msgs k) = NN_MSGQUEUE_GRANULARITY"
      if "cache q = Some c" for c using ca [OF that] inl k by (auto simp: q1_def)
    ultimately have "mq_rep q1 (xs @ [m])"
      unfolding mq_rep_def using d ends ca br cm len by (intro exI [of _ cs]) (auto simp: q1_def)
    with send False show ?thesis by (auto simp: q1_def)
  next
    case True
    define n where "n = (case cache q of None \<Rightarrow> brk q | Some c \<Rightarrow> c)"
    define kn where "kn = (case cache q of None \<Rightarrow> fresh_chunk | Some c \<Rightarrow> the (store q c))"
    have n: "n \<notin> set cs" "length (msgs kn) = NN_MSGQUEUE_GRANULARITY" "n \<noteq> out_chunk q"
      using ca br less_imp_neq [OF br [OF inl]] inl by (auto simp: n_def kn_def fresh_chunk_def split: option.splits)
    define k' where "k' = k\<lparr>msgs := (msgs k)[out_pos q := Some m], mq_next := Some n\<rparr>"
    define b where "b = (case cache q of None \<Rightarrow> brk q + 1 | Some c \<Rightarrow> brk q)"
    define q2 where "q2 = q1\<lparr>store := (store q)(n \<mapsto> kn, out_chunk q \<mapsto> k'), out_chunk := n,
      cache := None, out_pos := 0, brk := b\<rparr>"
    have "next_out_chunk q1 = Some q2"
    proof (cases "cache q")
      case None
      then show ?thesis
        using n(3) by (simp add: next_out_chunk_def q1_def q2_def n_def kn_def k'_def b_def Let_def
            fun_upd_twist)
    next
      case (Some c)
      then have "store q c = Some kn" "n = c" using ca [OF Some] by (auto simp: kn_def n_def)
      then have "(store q)(n \<mapsto> kn) = store q" by (simp add: fun_upd_idem)
      then show ?thesis using Some \<open>n = c\<close>
        by (simp add: next_out_chunk_def q1_def q2_def k'_def b_def Let_def)
    qed
    moreover have "mq_chain (store q2) (cs @ [n]) (in_pos q) 0 (xs @ [m])"
      by (rule mq_chain_extend [OF ch d _ True, of k _ _ _ kn])
        (use k n ends in \<open>auto simp: q2_def k'_def\<close>)
    moreover have "c < b" if "c \<in> set (cs @ [n])" for c
      using that br ca by (auto simp: b_def n_def less_Suc_eq split: option.splits)
    ultimately have "next_out_chunk q1 = Some q2" "mq_rep q2 (xs @ [m])"
      unfolding mq_rep_def using d ends n(1) ne cm len
      by (simp, intro exI [of _ "cs @ [n]"]) (auto simp: q2_def q1_def)
    with send True show ?thesis by (auto simp: q1_def q2_def)
  qed
qed

lemma recv_empty: "mq_rep q [] \<Longrightarrow> nn_msgqueue_recv q = Some (- EAGAIN, None, q)"
  using mq_count [of q "[]"] by (simp add: nn_msgqueue_recv_def)

lemma recv_Cons:
  assumes r: "mq_rep q (x # xs)"
  shows "\<exists>q'. nn_msgqueue_recv q = Some (0, Some x, q') \<and> mq_rep q' xs \<and> maxmem q' = maxmem q"
proof -
  from r obtain cs where ch: "mq_chain (store q) cs (in_pos q) (out_pos q) (x # xs)" and d: "distinct cs"
    and ends: "hd cs = in_chunk q" "last cs = out_chunk q"
    and ca: "\<And>c. cache q = Some c \<Longrightarrow> c \<notin> set cs \<and> c < brk q
          \<and> (\<exists>k. store q c = Some k \<and> length (msgs k) = NN_MSGQUEUE_GRANULARITY)"
    and br: "\<And>c. c \<in> set cs \<Longrightarrow> c < brk q" and len: "length (x # xs) < 2 ^ 64"
    and cnt: "count q = word_of_nat (length (x # xs))" and mm: "mem q = mq_mem (x # xs)"
    unfolding mq_rep_def by blast
  obtain k where k: "store q (in_chunk q) = Some k" "in_pos q < length (msgs k)"
    "length (msgs k) = NN_MSGQUEUE_GRANULARITY" "msgs k ! in_pos q = Some x"
    and stay: "Suc (in_pos q) < NN_MSGQUEUE_GRANULARITY \<Longrightarrow>
      mq_chain (store q) cs (Suc (in_pos q)) (out_pos q) xs"
    and move: "Suc (in_pos q) = NN_MSGQUEUE_GRANULARITY \<Longrightarrow> \<exists>c' cs'. cs = hd cs # c' # cs'
      \<and> mq_next k = Some c' \<and> mq_chain (store q) (c' # cs') 0 (out_pos q) xs"
    using mq_chain_read [OF ch] ends by auto
  have cm: "count q - 1 = word_of_nat (length xs)" "mem q - size_of_msg x = mq_mem xs"
    using cnt mm by (simp_all add: mq_mem_def)
  have ne: "count q \<noteq> 0" using mq_count [OF r] by simp
  define q1 where "q1 = q\<lparr>count := count q - 1, mem := mem q - size_of_msg x\<rparr>"
  show ?thesis
  proof (cases "Suc (in_pos q) = NN_MSGQUEUE_GRANULARITY")
    case False
    then have lt: "Suc (in_pos q) < NN_MSGQUEUE_GRANULARITY" using k by simp
    have "nn_msgqueue_recv q = Some (0, Some x, q1\<lparr>in_pos := in_pos q + 1\<rparr>)"
      using False ne k by (simp add: nn_msgqueue_recv_def q1_def peek_def)
    moreover have "mq_rep (q1\<lparr>in_pos := in_pos q + 1\<rparr>) xs"
      unfolding mq_rep_def using stay [OF lt] d ends ca br cm len
      by (intro exI [of _ cs]) (auto simp: q1_def)
    ultimately show ?thesis by (auto simp: q1_def)
  next
    case True
    from move [OF this] obtain c' cs' where c': "cs = in_chunk q # c' # cs'" "mq_next k = Some c'"
      "mq_chain (store q) (c' # cs') 0 (out_pos q) xs" using ends by auto
    define q2 where "q2 = (let q = q1\<lparr>in_chunk := c', in_pos := 0\<rparr> in
      if cache q = None then q\<lparr>cache := Some (in_chunk q1)\<rparr>
      else q\<lparr>store := (store q)(in_chunk q1 := None)\<rparr>)"
    have rc: "nn_msgqueue_recv q = Some (0, Some x, q2)"
      using True ne k c'(2) by (simp add: nn_msgqueue_recv_def q1_def q2_def peek_def Let_def)
    have notin: "in_chunk q \<notin> set (c' # cs')" using d c'(1) by auto
    then have "mq_chain ((store q)(in_chunk q := None)) (c' # cs') 0 (out_pos q) xs"
      using c'(3) by (subst mq_chain_cong [of _ _ "store q"]) auto
    then have "mq_rep q2 xs"
      unfolding mq_rep_def using c' d ends ca br cm len notin k
      by (intro exI [of _ "c' # cs'"]) (auto simp: q1_def q2_def Let_def)
    with rc show ?thesis by (auto simp: q1_def q2_def Let_def)
  qed
qed


section \<open>The interface of a bounded queue\<close>

text \<open>
  Any sequence of sends and receives, with what each of them answers; and the same on a sequence of
  messages, where \<open>full\<close> tells whether a message is refused.
\<close>

datatype 'a bq_op = Send 'a | Recv

fun run_bq :: "('s \<Rightarrow> 'a \<Rightarrow> (int \<times> 's) option) \<Rightarrow> ('s \<Rightarrow> (int \<times> 'a option \<times> 's) option) \<Rightarrow>
    's \<Rightarrow> 'a bq_op list \<Rightarrow> ((int \<times> 'a option) list \<times> 's) option" where
  "run_bq sn rc s [] = Some ([], s)"
| "run_bq sn rc s (Send m # ops) = do {
     (r, s) \<leftarrow> sn s m;
     (ans, s) \<leftarrow> run_bq sn rc s ops;
     Some ((r, None) # ans, s) }"
| "run_bq sn rc s (Recv # ops) = do {
     (r, m, s) \<leftarrow> rc s;
     (ans, s) \<leftarrow> run_bq sn rc s ops;
     Some ((r, m) # ans, s) }"

fun seq_bq :: "('a list \<Rightarrow> 'a \<Rightarrow> bool) \<Rightarrow> 'a list \<Rightarrow> 'a bq_op list \<Rightarrow> (int \<times> 'a option) list \<times> 'a list" where
  "seq_bq full xs [] = ([], xs)"
| "seq_bq full xs (Send m # ops) =
     (if full xs m then apfst ((#) (- EAGAIN, None)) (seq_bq full xs ops)
      else apfst ((#) (0, None)) (seq_bq full (xs @ [m]) ops))"
| "seq_bq full [] (Recv # ops) = apfst ((#) (- EAGAIN, None)) (seq_bq full [] ops)"
| "seq_bq full (x # xs) (Recv # ops) = apfst ((#) (0, Some x)) (seq_bq full xs ops)"

locale bounded_queue =
  fixes rep :: "'s \<Rightarrow> 'a list \<Rightarrow> bool"
    and full :: "'a list \<Rightarrow> 'a \<Rightarrow> bool"
    and cap :: nat
    and snd_op :: "'s \<Rightarrow> 'a \<Rightarrow> (int \<times> 's) option"
    and rcv_op :: "'s \<Rightarrow> (int \<times> 'a option \<times> 's) option"
  assumes snd_full: "rep s xs \<Longrightarrow> full xs m \<Longrightarrow> snd_op s m = Some (- EAGAIN, s)"
    and snd_room: "rep s xs \<Longrightarrow> \<not> full xs m \<Longrightarrow> Suc (length xs) < cap \<Longrightarrow>
      \<exists>s'. snd_op s m = Some (0, s') \<and> rep s' (xs @ [m])"
    and rcv_Nil: "rep s [] \<Longrightarrow> rcv_op s = Some (- EAGAIN, None, s)"
    and rcv_Cons: "rep s (x # xs) \<Longrightarrow> \<exists>s'. rcv_op s = Some (0, Some x, s') \<and> rep s' xs"
begin

text \<open>Every operation answers what the sequence answers.\<close>

lemma fifo:
  "rep s xs \<Longrightarrow> length xs + length ops < cap \<Longrightarrow>
   \<exists>s'. run_bq snd_op rcv_op s ops = Some (fst (seq_bq full xs ops), s') \<and> rep s' (snd (seq_bq full xs ops))"
proof (induction ops arbitrary: s xs)
  case (Cons x ops)
  show ?case
  proof (cases x)
    case (Send m)
    show ?thesis
    proof (cases "full xs m")
      case True
      from Cons.IH [OF Cons.prems(1)] Cons.prems(2) True Send snd_full [OF Cons.prems(1)] show ?thesis by auto
    next
      case False
      then obtain s' where s': "snd_op s m = Some (0, s')" "rep s' (xs @ [m])"
        using snd_room [OF Cons.prems(1)] Cons.prems(2) by auto
      from Cons.IH [OF s'(2)] Cons.prems(2) s'(1) False Send show ?thesis by auto
    qed
  next
    case Recv
    show ?thesis
    proof (cases xs)
      case Nil
      with Cons.prems(1) have "rep s []" by simp
      from Cons.IH [OF this] Cons.prems(2) Recv Nil rcv_Nil [OF this] show ?thesis by auto
    next
      case c: (Cons y ys)
      with Cons.prems(1) rcv_Cons obtain s' where "rcv_op s = Some (0, Some y, s')" "rep s' ys" by blast
      with Cons.IH [of s' ys] Cons.prems(2) Recv c show ?thesis by auto
    qed
  qed
qed simp

end

text \<open>A message is refused when there is one already and the limit would be reached.\<close>

definition mq_full :: "u64 \<Rightarrow> msg list \<Rightarrow> msg \<Rightarrow> bool" where
  "mq_full maxm xs m \<longleftrightarrow> xs \<noteq> [] \<and> maxm \<le> mq_mem xs + size_of_msg m"

interpretation msgqueue: bounded_queue "\<lambda>q xs. mq_rep q xs \<and> maxmem q = maxm"
  "mq_full maxm" "2 ^ 64" nn_msgqueue_send nn_msgqueue_recv for maxm
proof unfold_locales
  fix q :: nn_msgqueue and xs and m x :: msg
  have mem: "mem q = mq_mem xs" if "mq_rep q xs" using that by (auto simp: mq_rep_def)
  show "nn_msgqueue_send q m = Some (- EAGAIN, q)" if "mq_rep q xs \<and> maxmem q = maxm" "mq_full maxm xs m"
    using that mem by (intro send_full) (auto simp: mq_full_def)
  show "\<exists>q'. nn_msgqueue_send q m = Some (0, q') \<and> mq_rep q' (xs @ [m]) \<and> maxmem q' = maxm"
    if "mq_rep q xs \<and> maxmem q = maxm" "\<not> mq_full maxm xs m" "Suc (length xs) < 2 ^ 64"
    using send_room [of q xs m] that mem by (auto simp: mq_full_def not_le)
  show "mq_rep q [] \<and> maxmem q = maxm \<Longrightarrow> nn_msgqueue_recv q = Some (- EAGAIN, None, q)" by (simp add: recv_empty)
  show "mq_rep q (x # xs) \<and> maxmem q = maxm \<Longrightarrow> \<exists>q'. nn_msgqueue_recv q = Some (0, Some x, q') \<and> mq_rep q' xs \<and> maxmem q' = maxm"
    using recv_Cons by blast
qed

section \<open>Properties\<close>

text \<open>C18. The in-process message queue is a bounded sequence: for any sequence of sends and receives on
  a fresh queue with any limit, every operation ends, within the chunks it owns, whatever chunks are
  filled, emptied, cached and freed on the way, and it answers what the sequence of the messages
  answers: a send \<open>-EAGAIN\<close> if there is a message and the sizes would reach the limit, and else 0; a
  receive \<open>-EAGAIN\<close> if there is no message, and else the oldest one. At the end the queue holds what
  the sequence holds.\<close>

theorem nn_msgqueue_is_fifo:
  assumes "length ops < 2 ^ 64"
  shows "\<exists>q. run_bq nn_msgqueue_send nn_msgqueue_recv (nn_msgqueue_init maxm) ops = Some (fst (seq_bq (mq_full maxm) [] ops), q)
    \<and> mq_rep q (snd (seq_bq (mq_full maxm) [] ops))"
proof -
  have "length ([] :: msg list) + length ops < 2 ^ 64" using assms by simp
  from msgqueue.fifo [OF _ this, of "nn_msgqueue_init maxm" maxm] mq_rep_init [of maxm]
  show ?thesis by (auto simp: nn_msgqueue_init_def)
qed

theorem nn_msgqueue_is_fifo_witness:
  "\<exists>q. run_bq nn_msgqueue_send nn_msgqueue_recv (nn_msgqueue_init 3)
      [Send (plain_msg [1, 2]), Send (plain_msg [3]), Recv, Recv, Send (plain_msg [3])]
      = Some ([(0, None), (- EAGAIN, None), (0, Some (plain_msg [1, 2])), (- EAGAIN, None), (0, None)], q)
    \<and> mq_rep q [plain_msg [3]]"
  using nn_msgqueue_is_fifo [of "[Send (plain_msg [1, 2]), Send (plain_msg [3]), Recv, Recv, Send (plain_msg [3])]" 3]
  by (simp del: run_bq.simps add: mq_full_def mq_mem_def size_of_msg_def plain_msg_def)

end
