(* ===== verification/NN_Priolist.thy ===== *)
theory NN_Priolist
  imports NN_List "HOL-Library.Multiset"
begin

text \<open>
  \<open>protocols/utils/priolist.c\<close> of nanomsg: the prioritised, round-robin list of pipes that load
  balancing and fair queueing are built on. The lists are the sequences of \<open>NN_List\<close>; the fields
  of \<open>struct nn_priolist_data\<close> live in a store, \<open>pd_linked\<close> telling whether the list item is
  linked, which the assertions of the list operations look at. \<open>None\<close> is a failed assertion or a
  slot that does not exist.
\<close>

section \<open>The code\<close>

definition NN_PRIOLIST_SLOTS :: nat where "NN_PRIOLIST_SLOTS = 16"

record nn_priolist_data =
  pd_pipe :: nat
  pd_priority :: int
  pd_linked :: bool

type_synonym prio_store = "nat \<Rightarrow> nn_priolist_data option"

record nn_priolist_slot =
  slot_pipes :: "nat list"
  slot_current :: "nat option"

record nn_priolist =
  prio_slots :: "nn_priolist_slot list"
  prio_current :: int

definition nn_priolist_init :: nn_priolist where
  "nn_priolist_init = \<lparr>prio_slots = replicate NN_PRIOLIST_SLOTS \<lparr>slot_pipes = [], slot_current = None\<rparr>,
     prio_current = -1\<rparr>"

definition nn_priolist_term :: "nn_priolist \<Rightarrow> unit option" where
  "nn_priolist_term self =
     (if list_all (\<lambda>s. slot_pipes s = []) (prio_slots self) then Some () else None)"

definition nn_priolist_add :: "prio_store \<Rightarrow> nat \<Rightarrow> nat \<Rightarrow> int \<Rightarrow> prio_store" where
  "nn_priolist_add st data pipe priority =
     st(data \<mapsto> \<lparr>pd_pipe = pipe, pd_priority = priority, pd_linked = False\<rparr>)"

text \<open>\<open>self->slots [i - 1]\<close>\<close>

definition get_slot :: "nn_priolist \<Rightarrow> int \<Rightarrow> nn_priolist_slot option" where
  "get_slot self i = (if 0 < i then peek (prio_slots self) (nat (i - 1)) else None)"

definition set_slot :: "nn_priolist \<Rightarrow> int \<Rightarrow> nn_priolist_slot \<Rightarrow> nn_priolist" where
  "set_slot self i s = self\<lparr>prio_slots := (prio_slots self)[nat (i - 1) := s]\<rparr>"

text \<open>
  The loop that moves \<open>current\<close> to the next slot that is not empty, or to -1. It ends, because
  \<open>current\<close> grows to the number of slots.
\<close>

function skip_empty :: "nn_priolist \<Rightarrow> nn_priolist option" where
  "skip_empty self = do {
     s \<leftarrow> get_slot self (prio_current self);
     if slot_pipes s \<noteq> [] then Some self
     else if prio_current self + 1 > int NN_PRIOLIST_SLOTS
     then Some (self\<lparr>prio_current := -1\<rparr>)
     else skip_empty (self\<lparr>prio_current := prio_current self + 1\<rparr>) }"
  by pat_completeness auto
termination
  by (relation "measure (\<lambda>self. nat (int NN_PRIOLIST_SLOTS - prio_current self))")
    (auto simp: get_slot_def split: if_splits)

declare skip_empty.simps [simp del]

definition nn_priolist_rm ::
  "prio_store \<Rightarrow> nn_priolist \<Rightarrow> nat \<Rightarrow> (prio_store \<times> nn_priolist) option" where
  "nn_priolist_rm st self data = do {
     d \<leftarrow> st data;
     if \<not> pd_linked d then Some (st, self)
     else do {
       slot \<leftarrow> get_slot self (pd_priority d);
       let it = seq_next (slot_pipes slot) data;
       let st = st(data \<mapsto> d\<lparr>pd_linked := False\<rparr>);
       let pipes = seq_erase (slot_pipes slot) data;
       if slot_current slot \<noteq> Some data
       then Some (st, set_slot self (pd_priority d) (slot\<lparr>slot_pipes := pipes\<rparr>))
       else do {
         let cur = (if it = None then seq_begin pipes else it);
         let self = set_slot self (pd_priority d) \<lparr>slot_pipes = pipes, slot_current = cur\<rparr>;
         if prio_current self \<noteq> pd_priority d then Some (st, self)
         else do {
           self \<leftarrow> skip_empty self;
           Some (st, self) } } } }"

definition nn_priolist_activate ::
  "prio_store \<Rightarrow> nn_priolist \<Rightarrow> nat \<Rightarrow> (prio_store \<times> nn_priolist) option" where
  "nn_priolist_activate st self data = do {
     d \<leftarrow> st data;
     slot \<leftarrow> get_slot self (pd_priority d);
     if pd_linked d then None else do {
       let st = st(data \<mapsto> d\<lparr>pd_linked := True\<rparr>);
       let pipes = seq_insert (slot_pipes slot) data None;
       if slot_pipes slot \<noteq> []
       then Some (st, set_slot self (pd_priority d) (slot\<lparr>slot_pipes := pipes\<rparr>))
       else do {
         let self = set_slot self (pd_priority d) \<lparr>slot_pipes = pipes, slot_current = Some data\<rparr>;
         if prio_current self = -1 then Some (st, self\<lparr>prio_current := pd_priority d\<rparr>)
         else if prio_current self > pd_priority d
         then Some (st, self\<lparr>prio_current := pd_priority d\<rparr>)
         else Some (st, self) } } }"

definition nn_priolist_is_active :: "nn_priolist \<Rightarrow> bool" where
  "nn_priolist_is_active self = (prio_current self \<noteq> -1)"

definition nn_priolist_getpipe :: "prio_store \<Rightarrow> nn_priolist \<Rightarrow> nat option option" where
  "nn_priolist_getpipe st self =
     (if prio_current self = -1 then Some None
      else do {
        slot \<leftarrow> get_slot self (prio_current self);
        data \<leftarrow> slot_current slot;
        d \<leftarrow> st data;
        Some (Some (pd_pipe d)) })"

definition nn_priolist_advance ::
  "prio_store \<Rightarrow> nn_priolist \<Rightarrow> bool \<Rightarrow> (prio_store \<times> nn_priolist) option" where
  "nn_priolist_advance st self release = do {
     slot \<leftarrow> get_slot self (prio_current self);
     data \<leftarrow> slot_current slot;
     d \<leftarrow> st data;
     if \<not> pd_linked d then None else do {
       let it = seq_next (slot_pipes slot) data;
       let st = (if release then st(data \<mapsto> d\<lparr>pd_linked := False\<rparr>) else st);
       let pipes = (if release then seq_erase (slot_pipes slot) data else slot_pipes slot);
       let it = (if it = None then seq_begin pipes else it);
       self \<leftarrow> skip_empty
         (set_slot self (prio_current self) \<lparr>slot_pipes = pipes, slot_current = it\<rparr>);
       Some (st, self) } }"

definition nn_priolist_get_priority :: "nn_priolist \<Rightarrow> int" where
  "nn_priolist_get_priority self = prio_current self"

section \<open>The invariant\<close>

text \<open>
  A slot holds linked items of its priority, its current item is one of them, and the current slot
  is the non-empty slot of the highest priority (the lowest number).
\<close>

definition slot_ok :: "prio_store \<Rightarrow> nat \<Rightarrow> nn_priolist_slot \<Rightarrow> bool" where
  "slot_ok st i s \<longleftrightarrow> distinct (slot_pipes s)
     \<and> (\<forall>a \<in> set (slot_pipes s). \<exists>d. st a = Some d \<and> pd_linked d \<and> pd_priority d = int i + 1)
     \<and> (case slot_current s of None \<Rightarrow> slot_pipes s = [] | Some c \<Rightarrow> c \<in> set (slot_pipes s))"

definition slots_ok :: "prio_store \<Rightarrow> nn_priolist \<Rightarrow> bool" where
  "slots_ok st p \<longleftrightarrow> length (prio_slots p) = NN_PRIOLIST_SLOTS
     \<and> (\<forall>i < NN_PRIOLIST_SLOTS. slot_ok st i (prio_slots p ! i))
     \<and> (\<forall>a d. st a = Some d \<and> pd_linked d \<longrightarrow> 0 < pd_priority d \<and> pd_priority d \<le> int NN_PRIOLIST_SLOTS
          \<and> a \<in> set (slot_pipes (prio_slots p ! nat (pd_priority d - 1))))"

definition empty_below :: "nn_priolist \<Rightarrow> nat \<Rightarrow> bool" where
  "empty_below p n \<longleftrightarrow> (\<forall>j < n. slot_pipes (prio_slots p ! j) = [])"

definition current_ok :: "nn_priolist \<Rightarrow> bool" where
  "current_ok p \<longleftrightarrow> (prio_current p = -1 \<and> empty_below p NN_PRIOLIST_SLOTS)
     \<or> (0 < prio_current p \<and> prio_current p \<le> int NN_PRIOLIST_SLOTS
        \<and> empty_below p (nat (prio_current p - 1))
        \<and> slot_pipes (prio_slots p ! nat (prio_current p - 1)) \<noteq> [])"

definition prio_ok :: "prio_store \<Rightarrow> nn_priolist \<Rightarrow> bool" where
  "prio_ok st p \<longleftrightarrow> slots_ok st p \<and> current_ok p"

lemma get_slot_nth:
  "length (prio_slots p) = NN_PRIOLIST_SLOTS \<Longrightarrow> 0 < i \<Longrightarrow> i \<le> int NN_PRIOLIST_SLOTS \<Longrightarrow>
     get_slot p i = Some (prio_slots p ! nat (i - 1))"
  by (auto simp: get_slot_def peek_def)

lemma prio_slots_set_slot [simp]: "prio_slots (set_slot p i s) = (prio_slots p)[nat (i - 1) := s]"
  and prio_current_set_slot [simp]: "prio_current (set_slot p i s) = prio_current p"
  by (simp_all add: set_slot_def)

text \<open>The loop finds the next slot that is not empty.\<close>

lemma skip_empty_ok:
  "length (prio_slots p) = NN_PRIOLIST_SLOTS \<Longrightarrow> 0 < prio_current p \<Longrightarrow>
   prio_current p \<le> int NN_PRIOLIST_SLOTS \<Longrightarrow> empty_below p (nat (prio_current p - 1)) \<Longrightarrow>
   \<exists>c. skip_empty p = Some (p\<lparr>prio_current := c\<rparr>) \<and> current_ok (p\<lparr>prio_current := c\<rparr>)"
proof (induction p rule: skip_empty.induct)
  case (1 p)
  let ?s = "prio_slots p ! nat (prio_current p - 1)"
  have g: "get_slot p (prio_current p) = Some ?s" using "1.prems" by (simp add: get_slot_nth)
  show ?case
  proof (cases "slot_pipes ?s = []")
    case False
    then have "skip_empty p = Some (p\<lparr>prio_current := prio_current p\<rparr>)"
      using g by (subst skip_empty.simps) simp
    with False "1.prems" show ?thesis
      by (intro exI [of _ "prio_current p"]) (auto simp: current_ok_def)
  next
    case True
    have below: "empty_below p (Suc (nat (prio_current p - 1)))"
      using "1.prems"(4) True by (auto simp: empty_below_def less_Suc_eq)
    have nat_eq: "Suc (nat (prio_current p - 1)) = nat (prio_current p)" using "1.prems"(2) by simp
    show ?thesis
    proof (cases "prio_current p + 1 > int NN_PRIOLIST_SLOTS")
      case last: True
      then have "nat (prio_current p) = NN_PRIOLIST_SLOTS" using "1.prems"(3) by linarith
      then have "current_ok (p\<lparr>prio_current := -1\<rparr>)"
        using below nat_eq by (simp add: current_ok_def empty_below_def)
      moreover have "skip_empty p = Some (p\<lparr>prio_current := -1\<rparr>)"
        using g True last by (subst skip_empty.simps) simp
      ultimately show ?thesis by blast
    next
      case more: False
      let ?p = "p\<lparr>prio_current := prio_current p + 1\<rparr>"
      have "\<exists>c. skip_empty ?p = Some (?p\<lparr>prio_current := c\<rparr>) \<and> current_ok (?p\<lparr>prio_current := c\<rparr>)"
        by (rule "1.IH" [OF g _ more])
          (use "1.prems" True more below nat_eq in \<open>auto simp: empty_below_def\<close>)
      moreover have "skip_empty p = skip_empty ?p"
        using g True more by (subst skip_empty.simps) simp
      ultimately show ?thesis by simp
    qed
  qed
qed


lemma slots_ok_current [simp]: "slots_ok st (p\<lparr>prio_current := c\<rparr>) = slots_ok st p"
  by (simp add: slots_ok_def)

lemma slots_okD:
  assumes "slots_ok st p"
  shows "length (prio_slots p) = NN_PRIOLIST_SLOTS"
    and "i < NN_PRIOLIST_SLOTS \<Longrightarrow> slot_ok st i (prio_slots p ! i)"
    and "st a = Some d \<Longrightarrow> pd_linked d \<Longrightarrow> 0 < pd_priority d \<and> pd_priority d \<le> int NN_PRIOLIST_SLOTS
          \<and> a \<in> set (slot_pipes (prio_slots p ! nat (pd_priority d - 1)))"
  using assms by (auto simp: slots_ok_def)

lemma slots_ok_update:
  assumes ok: "slots_ok st p" and d: "st a = Some d" and pr: "0 < pd_priority d"
    "pd_priority d \<le> int NN_PRIOLIST_SLOTS"
    and s': "slot_ok (st(a \<mapsto> d\<lparr>pd_linked := b\<rparr>)) (nat (pd_priority d - 1)) s'"
    and mem: "\<And>x. x \<noteq> a \<Longrightarrow>
      x \<in> set (slot_pipes (prio_slots p ! nat (pd_priority d - 1))) \<Longrightarrow> x \<in> set (slot_pipes s')"
    and mem_a: "b \<Longrightarrow> a \<in> set (slot_pipes s')"
  shows "slots_ok (st(a \<mapsto> d\<lparr>pd_linked := b\<rparr>)) (set_slot p (pd_priority d) s')"
proof -
  let ?i = "nat (pd_priority d - 1)"
  let ?st = "st(a \<mapsto> d\<lparr>pd_linked := b\<rparr>)"
  have i: "?i < NN_PRIOLIST_SLOTS" "int ?i + 1 = pd_priority d" using pr by auto
  have len: "length (prio_slots p) = NN_PRIOLIST_SLOTS" using slots_okD(1) [OF ok] .
  have other: "slot_ok ?st j (prio_slots p ! j)" if j: "j < NN_PRIOLIST_SLOTS" "j \<noteq> ?i" for j
  proof -
    have sj: "slot_ok st j (prio_slots p ! j)" using slots_okD(2) [OF ok j(1)] .
    then have "a \<notin> set (slot_pipes (prio_slots p ! j))"
      using d j(2) i(2) by (fastforce simp: slot_ok_def)
    with sj show ?thesis by (auto simp: slot_ok_def)
  qed
  have "0 < pd_priority e \<and> pd_priority e \<le> int NN_PRIOLIST_SLOTS \<and>
      x \<in> set (slot_pipes ((prio_slots p)[?i := s'] ! nat (pd_priority e - 1)))"
    if e: "?st x = Some e" "pd_linked e" for x e
  proof (cases "x = a")
    case True
    then show ?thesis using e pr i(1) len mem_a by auto
  next
    case False
    with e have "st x = Some e" by simp
    from slots_okD(3) [OF ok this e(2)] False i len mem show ?thesis
      by (cases "nat (pd_priority e - 1) = ?i") auto
  qed
  then have lk: "\<forall>x e. ?st x = Some e \<and> pd_linked e \<longrightarrow> 0 < pd_priority e
      \<and> pd_priority e \<le> int NN_PRIOLIST_SLOTS
      \<and> x \<in> set (slot_pipes ((prio_slots p)[?i := s'] ! nat (pd_priority e - 1)))" by blast
  have "\<forall>j < NN_PRIOLIST_SLOTS. slot_ok ?st j ((prio_slots p)[?i := s'] ! j)"
  proof (intro allI impI)
    fix j
    assume "j < NN_PRIOLIST_SLOTS"
    then show "slot_ok ?st j ((prio_slots p)[?i := s'] ! j)"
      using other s' len by (cases "j = ?i") simp_all
  qed
  moreover have "length ((prio_slots p)[?i := s']) = NN_PRIOLIST_SLOTS" using len by simp
  ultimately show ?thesis using lk unfolding slots_ok_def prio_slots_set_slot by blast
qed

lemma current_slot:
  "current_ok p \<Longrightarrow> prio_current p \<noteq> -1 \<Longrightarrow> 0 < prio_current p \<and> prio_current p \<le> int NN_PRIOLIST_SLOTS"
  by (auto simp: current_ok_def)

lemma prio_ok_init:
  "(\<And>a d. st a = Some d \<Longrightarrow> \<not> pd_linked d) \<Longrightarrow> prio_ok st nn_priolist_init"
  by (auto simp: prio_ok_def slots_ok_def current_ok_def empty_below_def slot_ok_def
      nn_priolist_init_def)

lemma prio_ok_add:
  assumes ok: "prio_ok st p" and free: "\<forall>d. st a = Some d \<longrightarrow> \<not> pd_linked d"
  shows "prio_ok (nn_priolist_add st a pipe prio) p"
proof -
  have so: "slots_ok st p" using ok by (simp add: prio_ok_def)
  have "slot_ok (nn_priolist_add st a pipe prio) i (prio_slots p ! i)" if "i < NN_PRIOLIST_SLOTS" for i
  proof -
    have s: "slot_ok st i (prio_slots p ! i)" using slots_okD(2) [OF so that] .
    then have "a \<notin> set (slot_pipes (prio_slots p ! i))" using free by (fastforce simp: slot_ok_def)
    with s show ?thesis by (auto simp: slot_ok_def nn_priolist_add_def)
  qed
  with ok show ?thesis by (auto simp: prio_ok_def slots_ok_def nn_priolist_add_def split: if_splits)
qed

lemma seq_next_in: "seq_next xs a = Some b \<Longrightarrow> b \<in> set xs"
  by (induction xs a rule: seq_next.induct) (auto simp: seq_begin_def split: if_splits)

lemma seq_next_other: "distinct xs \<Longrightarrow> seq_next xs a = Some b \<Longrightarrow> b \<noteq> a"
  by (induction xs a rule: seq_next.induct) (auto simp: seq_begin_def split: if_splits)

lemma seq_begin_in: "seq_begin xs = Some b \<Longrightarrow> b \<in> set xs"
  by (auto simp: seq_begin_def split: if_splits)

lemma seq_begin_None [simp]: "seq_begin xs = None \<longleftrightarrow> xs = []"
  by (simp add: seq_begin_def)

text \<open>The successor of an item, wrapping round, after the item has been erased.\<close>

lemma next_or_begin:
  assumes "distinct xs" and "it = seq_next xs a"
  shows "case (if it = None then seq_begin (seq_erase xs a) else it) of
      None \<Rightarrow> seq_erase xs a = [] | Some c \<Rightarrow> c \<in> set (seq_erase xs a)"
  using assms seq_next_in [of xs a] seq_next_other [of xs a] seq_begin_in [of "seq_erase xs a"]
  by (auto simp: set_seq_erase split: option.splits)

lemma slot_ok_unlink:
  assumes s: "slot_ok st i s" and d: "st a = Some d"
    and cur: "case c of None \<Rightarrow> seq_erase (slot_pipes s) a = []
      | Some c \<Rightarrow> c \<in> set (seq_erase (slot_pipes s) a)"
  shows "slot_ok (st(a \<mapsto> d\<lparr>pd_linked := False\<rparr>)) i
    \<lparr>slot_pipes = seq_erase (slot_pipes s) a, slot_current = c\<rparr>"
  using assms by (auto simp: slot_ok_def distinct_seq_erase set_seq_erase split: option.splits)

lemma slot_eta: "s\<lparr>slot_pipes := x\<rparr> = \<lparr>slot_pipes = x, slot_current = slot_current s\<rparr>"
  by (cases s) simp

lemma prio_eta [simp]: "p\<lparr>prio_current := prio_current p\<rparr> = p"
  by simp

lemma empty_below_set_slot:
  "0 < i \<Longrightarrow> slot_pipes s = [] \<or> n \<le> nat (i - 1) \<Longrightarrow> empty_below p n \<Longrightarrow> empty_below (set_slot p i s) n"
  by (cases "nat (i - 1) < length (prio_slots p)")
    (auto simp: empty_below_def nth_list_update list_update_beyond)

text \<open>Every operation keeps the invariant and fails no assertion.\<close>

lemma activate_ok:
  assumes ok: "prio_ok st p" and d: "st a = Some d" "\<not> pd_linked d"
    and pr: "0 < pd_priority d" "pd_priority d \<le> int NN_PRIOLIST_SLOTS"
  shows "\<exists>p'. nn_priolist_activate st p a = Some (st(a \<mapsto> d\<lparr>pd_linked := True\<rparr>), p')
    \<and> prio_ok (st(a \<mapsto> d\<lparr>pd_linked := True\<rparr>)) p'
    \<and> (\<forall>i < NN_PRIOLIST_SLOTS. slot_pipes (prio_slots p' ! i) = slot_pipes (prio_slots p ! i)
         @ (if int i + 1 = pd_priority d then [a] else []))"
proof -
  let ?i = "nat (pd_priority d - 1)"
  let ?s = "prio_slots p ! ?i"
  let ?st = "st(a \<mapsto> d\<lparr>pd_linked := True\<rparr>)"
  have so: "slots_ok st p" and co: "current_ok p" using ok by (auto simp: prio_ok_def)
  have i: "?i < NN_PRIOLIST_SLOTS" "int ?i + 1 = pd_priority d" using pr by auto
  have len: "length (prio_slots p) = NN_PRIOLIST_SLOTS" using slots_okD(1) [OF so] .
  have g: "get_slot p (pd_priority d) = Some ?s" using get_slot_nth [OF len pr] .
  have si: "slot_ok st ?i ?s" using slots_okD(2) [OF so i(1)] .
  then have nin: "a \<notin> set (slot_pipes ?s)" using d by (fastforce simp: slot_ok_def)
  define cur where "cur = (if slot_pipes ?s \<noteq> [] then slot_current ?s else Some a)"
  define s' where "s' = \<lparr>slot_pipes = slot_pipes ?s @ [a], slot_current = cur\<rparr>"
  have s'ok: "slot_ok ?st ?i s'"
    using si nin d(1) i(2) by (auto simp: slot_ok_def s'_def cur_def split: option.splits)
  have so': "slots_ok ?st (set_slot p (pd_priority d) s')"
    by (rule slots_ok_update [OF so d(1) pr s'ok]) (auto simp: s'_def)
  define c where "c = (if slot_pipes ?s = [] \<and> (prio_current p = -1 \<or> prio_current p > pd_priority d)
    then pd_priority d else prio_current p)"
  let ?p = "set_slot p (pd_priority d) s'\<lparr>prio_current := c\<rparr>"
  have act: "nn_priolist_activate st p a = Some (?st, ?p)"
    using d g by (auto simp: nn_priolist_activate_def s'_def cur_def c_def Let_def set_slot_def slot_eta)
  have "current_ok ?p"
  proof (cases "prio_current p = -1")
    case True
    then have "empty_below p NN_PRIOLIST_SLOTS" using co by (auto simp: current_ok_def)
    then have e: "slot_pipes ?s = []" "empty_below p ?i" using i by (auto simp: empty_below_def)
    then have "empty_below (set_slot p (pd_priority d) s') ?i"
      by (intro empty_below_set_slot) (use pr in auto)
    with True e i pr len show ?thesis
      by (simp add: current_ok_def c_def s'_def empty_below_def)
  next
    case False
    then have cur: "0 < prio_current p" "prio_current p \<le> int NN_PRIOLIST_SLOTS"
      "empty_below p (nat (prio_current p - 1))"
      "slot_pipes (prio_slots p ! nat (prio_current p - 1)) \<noteq> []"
      using co by (auto simp: current_ok_def)
    show ?thesis
    proof (cases "prio_current p > pd_priority d")
      case True
      then have "?i < nat (prio_current p - 1)" using pr by linarith
      then have e: "slot_pipes ?s = []" "empty_below p ?i" using cur(3) by (auto simp: empty_below_def)
      then have "empty_below (set_slot p (pd_priority d) s') ?i"
        by (intro empty_below_set_slot) (use pr in auto)
      with True e i pr len show ?thesis by (simp add: current_ok_def c_def s'_def empty_below_def)
    next
      case le: False
      then have c: "c = prio_current p" using False by (simp add: c_def)
      have "empty_below (set_slot p (pd_priority d) s') (nat (prio_current p - 1))"
        by (rule empty_below_set_slot) (use le pr cur in auto)
      moreover have "slot_pipes ((prio_slots p)[?i := s'] ! nat (prio_current p - 1)) \<noteq> []"
        using cur i len by (auto simp: nth_list_update s'_def)
      ultimately show ?thesis using cur c by (simp add: current_ok_def empty_below_def)
    qed
  qed
  moreover have "slots_ok ?st ?p" using so' by simp
  ultimately have "prio_ok ?st ?p" by (simp add: prio_ok_def)
  moreover have "slot_pipes (prio_slots ?p ! j) = slot_pipes (prio_slots p ! j)
      @ (if int j + 1 = pd_priority d then [a] else [])" if "j < NN_PRIOLIST_SLOTS" for j
    using that len i(2) by (auto simp: nth_list_update s'_def)
  ultimately show ?thesis using act by blast
qed


text \<open>Taking an item out of a slot leaves the current slot current if the slot is not emptied.\<close>

lemma current_ok_shrink:
  assumes co: "current_ok p" and len: "length (prio_slots p) = NN_PRIOLIST_SLOTS" and i: "0 < i"
    and sub: "set (slot_pipes s) \<subseteq> set (slot_pipes (prio_slots p ! nat (i - 1)))"
    and ne: "prio_current p = i \<Longrightarrow> slot_pipes s \<noteq> []"
  shows "current_ok (set_slot p i s)"
proof -
  have below: "empty_below (set_slot p i s) n" if "empty_below p n" for n
  proof (rule empty_below_set_slot [OF i _ that])
    show "slot_pipes s = [] \<or> n \<le> nat (i - 1)"
      using that sub by (auto simp: empty_below_def not_le)
  qed
  show ?thesis
  proof (cases "prio_current p = -1")
    case True
    then show ?thesis using co below by (auto simp: current_ok_def)
  next
    case False
    then have c: "0 < prio_current p" "prio_current p \<le> int NN_PRIOLIST_SLOTS"
      "empty_below p (nat (prio_current p - 1))"
      "slot_pipes (prio_slots p ! nat (prio_current p - 1)) \<noteq> []"
      using co by (auto simp: current_ok_def)
    have "slot_pipes ((prio_slots p)[nat (i - 1) := s] ! nat (prio_current p - 1)) \<noteq> []"
    proof (cases "prio_current p = i")
      case True
      with ne c len show ?thesis by simp
    next
      case False
      then have "nat (i - 1) \<noteq> nat (prio_current p - 1)" using i c(1) by linarith
      with c show ?thesis by simp
    qed
    with c below show ?thesis by (simp add: current_ok_def)
  qed
qed

lemma skip_set_slot:
  assumes co: "current_ok p" and len: "length (prio_slots p) = NN_PRIOLIST_SLOTS"
    and cur: "prio_current p \<noteq> -1" and so: "slots_ok st (set_slot p (prio_current p) s)"
  shows "\<exists>c. skip_empty (set_slot p (prio_current p) s) = Some (set_slot p (prio_current p) s\<lparr>prio_current := c\<rparr>)
    \<and> prio_ok st (set_slot p (prio_current p) s\<lparr>prio_current := c\<rparr>)
    \<and> (slot_pipes s \<noteq> [] \<longrightarrow> c = prio_current p)"
proof -
  let ?p = "set_slot p (prio_current p) s"
  have c: "0 < prio_current p" "prio_current p \<le> int NN_PRIOLIST_SLOTS"
    "empty_below p (nat (prio_current p - 1))"
    using co cur by (auto simp: current_ok_def)
  have len': "length (prio_slots ?p) = NN_PRIOLIST_SLOTS" using len by simp
  have "empty_below ?p (nat (prio_current p - 1))"
    using empty_below_set_slot [OF c(1) _ c(3)] by simp
  then obtain k where k: "skip_empty ?p = Some (?p\<lparr>prio_current := k\<rparr>)" "current_ok (?p\<lparr>prio_current := k\<rparr>)"
    using skip_empty_ok [OF len'] c by auto
  have "k = prio_current p" if "slot_pipes s \<noteq> []"
  proof -
    have "get_slot ?p (prio_current p) = Some s" using c len by (simp add: get_slot_nth)
    then have "skip_empty ?p = Some ?p" using that by (subst skip_empty.simps) simp
    with k(1) have "?p\<lparr>prio_current := k\<rparr> = ?p" by simp
    then have "prio_current (?p\<lparr>prio_current := k\<rparr>) = prio_current ?p" by simp
    then show ?thesis by simp
  qed
  with k so show ?thesis by (auto simp: prio_ok_def)
qed

lemma rm_ok:
  assumes ok: "prio_ok st p" and d: "st a = Some d"
  shows "\<exists>p'. nn_priolist_rm st p a = Some (st(a \<mapsto> d\<lparr>pd_linked := False\<rparr>), p')
    \<and> prio_ok (st(a \<mapsto> d\<lparr>pd_linked := False\<rparr>)) p'
    \<and> (\<forall>i < NN_PRIOLIST_SLOTS. slot_pipes (prio_slots p' ! i) = seq_erase (slot_pipes (prio_slots p ! i)) a)"
proof -
  have so: "slots_ok st p" and co: "current_ok p" using ok by (auto simp: prio_ok_def)
  have len: "length (prio_slots p) = NN_PRIOLIST_SLOTS" using slots_okD(1) [OF so] .
  have notin: "a \<notin> set (slot_pipes (prio_slots p ! j))"
    if "j < NN_PRIOLIST_SLOTS" "\<not> (pd_linked d \<and> int j + 1 = pd_priority d)" for j
    using slots_okD(2) [OF so that(1)] d that(2) by (fastforce simp: slot_ok_def)
  show ?thesis
  proof (cases "pd_linked d")
    case False
    then have "d\<lparr>pd_linked := False\<rparr> = d" by (cases d) simp
    then have st: "st(a \<mapsto> d\<lparr>pd_linked := False\<rparr>) = st" using d by (simp add: fun_upd_idem)
    have "seq_erase (slot_pipes (prio_slots p ! j)) a = slot_pipes (prio_slots p ! j)"
      if "j < NN_PRIOLIST_SLOTS" for j
      using notin [OF that] False by (simp add: seq_erase_def remove1_idem)
    with False d ok show ?thesis by (simp add: st nn_priolist_rm_def)
  next
    case True
    let ?st = "st(a \<mapsto> d\<lparr>pd_linked := False\<rparr>)"
    have pr: "0 < pd_priority d" "pd_priority d \<le> int NN_PRIOLIST_SLOTS"
      using slots_okD(3) [OF so d True] by auto
    let ?i = "nat (pd_priority d - 1)"
    let ?s = "prio_slots p ! ?i"
    have i: "?i < NN_PRIOLIST_SLOTS" "int ?i + 1 = pd_priority d" using pr by auto
    have g: "get_slot p (pd_priority d) = Some ?s" using get_slot_nth [OF len pr] .
    have si: "slot_ok st ?i ?s" using slots_okD(2) [OF so i(1)] .
    then have dis: "distinct (slot_pipes ?s)" by (simp add: slot_ok_def)
    let ?it = "seq_next (slot_pipes ?s) a"
    define cur where "cur = (if slot_current ?s \<noteq> Some a then slot_current ?s
      else if ?it = None then seq_begin (seq_erase (slot_pipes ?s) a) else ?it)"
    let ?s' = "\<lparr>slot_pipes = seq_erase (slot_pipes ?s) a, slot_current = cur\<rparr>"
    have curok: "case cur of None \<Rightarrow> seq_erase (slot_pipes ?s) a = []
        | Some c \<Rightarrow> c \<in> set (seq_erase (slot_pipes ?s) a)"
      using next_or_begin [OF dis refl, of a] si dis
      by (auto simp: cur_def slot_ok_def set_seq_erase seq_erase_def split: option.splits)
    note s'ok = slot_ok_unlink [OF si d curok]
    have so': "slots_ok ?st (set_slot p (pd_priority d) ?s')"
      by (rule slots_ok_update [OF so d pr s'ok]) (auto simp: set_seq_erase [OF dis])
    have pipes: "slot_pipes ((prio_slots p)[?i := ?s'] ! j) = seq_erase (slot_pipes (prio_slots p ! j)) a"
      if j: "j < NN_PRIOLIST_SLOTS" for j
      using notin [OF j] i len j
      by (cases "j = ?i") (auto simp: seq_erase_def remove1_idem)
    show ?thesis
    proof (cases "slot_current ?s = Some a \<and> prio_current p = pd_priority d")
      case False
      have rm: "nn_priolist_rm st p a = Some (?st, set_slot p (pd_priority d) ?s')"
        using d True g False by (auto simp: nn_priolist_rm_def cur_def Let_def slot_eta)
      have "current_ok (set_slot p (pd_priority d) ?s')"
      proof (rule current_ok_shrink [OF co len pr(1)])
        assume "prio_current p = pd_priority d"
        with False have nc: "slot_current ?s \<noteq> Some a" by simp
        have "slot_pipes ?s \<noteq> []" using slots_okD(3) [OF so d True] by auto
        then show "slot_pipes ?s' \<noteq> []"
          using curok nc si by (auto simp: cur_def slot_ok_def split: option.splits)
      qed (auto simp: set_seq_erase [OF dis])
      with so' rm pipes show ?thesis by (auto simp: prio_ok_def)
    next
      case cc: True
      have "prio_current p \<noteq> -1" using cc pr by auto
      with skip_set_slot [OF co len _ so' [folded conjunct2 [OF cc]]] cc obtain c where
        "skip_empty (set_slot p (pd_priority d) ?s') = Some (set_slot p (pd_priority d) ?s'\<lparr>prio_current := c\<rparr>)"
        "prio_ok ?st (set_slot p (pd_priority d) ?s'\<lparr>prio_current := c\<rparr>)" by auto
      moreover from this cc d True g have "nn_priolist_rm st p a
          = Some (?st, set_slot p (pd_priority d) ?s'\<lparr>prio_current := c\<rparr>)"
        by (simp add: nn_priolist_rm_def cur_def Let_def)
      ultimately show ?thesis using pipes by auto
    qed
  qed
qed

lemma current_data:
  assumes ok: "prio_ok st p" and cur: "prio_current p \<noteq> -1"
  shows "\<exists>a d. slot_current (prio_slots p ! nat (prio_current p - 1)) = Some a \<and> st a = Some d
    \<and> pd_linked d \<and> pd_priority d = prio_current p
    \<and> a \<in> set (slot_pipes (prio_slots p ! nat (prio_current p - 1)))
    \<and> get_slot p (prio_current p) = Some (prio_slots p ! nat (prio_current p - 1))"
proof -
  have c: "0 < prio_current p" "prio_current p \<le> int NN_PRIOLIST_SLOTS"
    "slot_pipes (prio_slots p ! nat (prio_current p - 1)) \<noteq> []"
    using ok cur by (auto simp: prio_ok_def current_ok_def)
  have so: "slots_ok st p" using ok by (simp add: prio_ok_def)
  have "slot_ok st (nat (prio_current p - 1)) (prio_slots p ! nat (prio_current p - 1))"
    using slots_okD(2) [OF so] c by auto
  with c get_slot_nth [OF slots_okD(1) [OF so] c(1,2)] show ?thesis
    by (fastforce simp: slot_ok_def split: option.splits)
qed

lemma advance_ok:
  assumes ok: "prio_ok st p" and cur: "prio_current p \<noteq> -1"
    and a: "slot_current (prio_slots p ! nat (prio_current p - 1)) = Some a" "st a = Some d"
  shows "\<exists>st' p'. nn_priolist_advance st p rel = Some (st', p') \<and> prio_ok st' p'
    \<and> st' = (if rel then st(a \<mapsto> d\<lparr>pd_linked := False\<rparr>) else st)
    \<and> (\<forall>i < NN_PRIOLIST_SLOTS. slot_pipes (prio_slots p' ! i) =
         (if rel then seq_erase (slot_pipes (prio_slots p ! i)) a else slot_pipes (prio_slots p ! i)))
    \<and> (\<not> rel \<longrightarrow> prio_current p' = prio_current p
         \<and> slot_current (prio_slots p' ! nat (prio_current p - 1)) =
             (case seq_next (slot_pipes (prio_slots p ! nat (prio_current p - 1))) a of
                None \<Rightarrow> seq_begin (slot_pipes (prio_slots p ! nat (prio_current p - 1)))
              | Some b \<Rightarrow> Some b))"
proof -
  let ?i = "nat (prio_current p - 1)"
  let ?s = "prio_slots p ! ?i"
  have so: "slots_ok st p" and co: "current_ok p" using ok by (auto simp: prio_ok_def)
  have len: "length (prio_slots p) = NN_PRIOLIST_SLOTS" using slots_okD(1) [OF so] .
  have d: "pd_linked d" "pd_priority d = prio_current p" "a \<in> set (slot_pipes ?s)"
    "get_slot p (prio_current p) = Some ?s"
    using current_data [OF ok cur] a by auto
  have pr: "0 < pd_priority d" "pd_priority d \<le> int NN_PRIOLIST_SLOTS"
    using slots_okD(3) [OF so a(2) d(1)] by auto
  have i: "?i < NN_PRIOLIST_SLOTS" "int ?i + 1 = pd_priority d" using pr d(2) by auto
  have si: "slot_ok st ?i ?s" using slots_okD(2) [OF so i(1)] .
  then have dis: "distinct (slot_pipes ?s)" by (simp add: slot_ok_def)
  define st' where "st' = (if rel then st(a \<mapsto> d\<lparr>pd_linked := False\<rparr>) else st)"
  define ps where "ps = (if rel then seq_erase (slot_pipes ?s) a else slot_pipes ?s)"
  let ?it = "seq_next (slot_pipes ?s) a"
  let ?s' = "\<lparr>slot_pipes = ps, slot_current = if ?it = None then seq_begin ps else ?it\<rparr>"
  have stid: "st(a \<mapsto> d\<lparr>pd_linked := True\<rparr>) = st"
    using a(2) d(1) by (cases d) (auto simp: fun_upd_idem)
  have so': "slots_ok st' (set_slot p (prio_current p) ?s')"
  proof (cases rel)
    case True
    note s'ok = slot_ok_unlink [OF si a(2) next_or_begin [OF dis refl]]
    have "slots_ok (st(a \<mapsto> d\<lparr>pd_linked := False\<rparr>)) (set_slot p (pd_priority d) ?s')"
      by (rule slots_ok_update [OF so a(2) pr]) (use s'ok d(2) True dis in \<open>auto simp: ps_def set_seq_erase\<close>)
    with True d(2) show ?thesis by (simp add: st'_def)
  next
    case False
    have "slot_ok st ?i ?s'"
      using si False seq_next_in [of "slot_pipes ?s" a] seq_begin_in [of "slot_pipes ?s"]
      by (auto simp: slot_ok_def ps_def split: option.splits)
    then have "slots_ok (st(a \<mapsto> d\<lparr>pd_linked := True\<rparr>)) (set_slot p (pd_priority d) ?s')"
      by (intro slots_ok_update [OF so a(2) pr]) (use d False stid in \<open>auto simp: ps_def\<close>)
    with False d(2) show ?thesis by (simp add: st'_def stid)
  qed
  obtain c where c: "skip_empty (set_slot p (prio_current p) ?s')
      = Some (set_slot p (prio_current p) ?s'\<lparr>prio_current := c\<rparr>)"
    "prio_ok st' (set_slot p (prio_current p) ?s'\<lparr>prio_current := c\<rparr>)"
    "ps \<noteq> [] \<longrightarrow> c = prio_current p"
    using skip_set_slot [OF co len cur so'] by auto
  let ?p = "set_slot p (prio_current p) ?s'\<lparr>prio_current := c\<rparr>"
  have "nn_priolist_advance st p rel = Some (st', ?p)"
    using a d c(1)
    by (cases rel; cases ?it) (simp_all add: nn_priolist_advance_def Let_def st'_def ps_def)
  moreover have "slot_pipes (prio_slots ?p ! j) =
      (if rel then seq_erase (slot_pipes (prio_slots p ! j)) a else slot_pipes (prio_slots p ! j))"
    if j: "j < NN_PRIOLIST_SLOTS" for j
  proof (cases "j = ?i")
    case True
    with len i show ?thesis by (simp add: ps_def)
  next
    case False
    have "int j + 1 \<noteq> pd_priority d" using False i(2) by linarith
    then have "a \<notin> set (slot_pipes (prio_slots p ! j))"
      using slots_okD(2) [OF so j] a(2) by (fastforce simp: slot_ok_def)
    with False show ?thesis by (simp add: seq_erase_def remove1_idem)
  qed
  moreover have "\<not> rel \<Longrightarrow> ps \<noteq> []" using d(3) by (auto simp: ps_def)
  ultimately show ?thesis using c len i by (auto simp: st'_def ps_def split: option.splits)
qed


section \<open>Round robin\<close>

text \<open>The pipes of the current slot in the order of service: from the current one, wrapping round.\<close>

definition service_order :: "nn_priolist \<Rightarrow> nat list" where
  "service_order p = (case get_slot p (prio_current p) of
       None \<Rightarrow> []
     | Some s \<Rightarrow> (case slot_current s of None \<Rightarrow> []
         | Some c \<Rightarrow> dropWhile (\<lambda>a. a \<noteq> c) (slot_pipes s) @ takeWhile (\<lambda>a. a \<noteq> c) (slot_pipes s)))"

fun advance_times :: "nat \<Rightarrow> prio_store \<Rightarrow> nn_priolist \<Rightarrow> nn_priolist option" where
  "advance_times 0 st p = Some p"
| "advance_times (Suc n) st p =
     Option.bind (nn_priolist_advance st p False) (\<lambda>(st, p). advance_times n st p)"

lemma split_at: "c \<in> set xs \<Longrightarrow> xs = takeWhile (\<lambda>a. a \<noteq> c) xs @ c # tl (dropWhile (\<lambda>a. a \<noteq> c) xs)"
proof -
  assume c: "c \<in> set xs"
  then have "dropWhile (\<lambda>a. a \<noteq> c) xs \<noteq> []" by (auto simp: dropWhile_eq_Nil_conv)
  moreover from hd_dropWhile [OF this] have "hd (dropWhile (\<lambda>a. a \<noteq> c) xs) = c" by simp
  ultimately have "dropWhile (\<lambda>a. a \<noteq> c) xs = c # tl (dropWhile (\<lambda>a. a \<noteq> c) xs)"
    by (cases "dropWhile (\<lambda>a. a \<noteq> c) xs") auto
  then show ?thesis by (metis takeWhile_dropWhile_id)
qed

lemma order_at: "distinct (ys @ c # zs) \<Longrightarrow>
    dropWhile (\<lambda>a. a \<noteq> c) (ys @ c # zs) @ takeWhile (\<lambda>a. a \<noteq> c) (ys @ c # zs) = c # zs @ ys"
proof -
  assume "distinct (ys @ c # zs)"
  then have "\<And>a. a \<in> set ys \<Longrightarrow> a \<noteq> c" by auto
  then show ?thesis by (simp add: dropWhile_append2 takeWhile_append2)
qed

lemma advance_rotates:
  assumes ok: "prio_ok st p" and cur: "prio_current p \<noteq> -1"
  shows "\<exists>p'. nn_priolist_advance st p False = Some (st, p') \<and> prio_ok st p'
    \<and> prio_current p' = prio_current p \<and> service_order p' = rotate1 (service_order p)"
proof -
  let ?i = "nat (prio_current p - 1)"
  let ?s = "prio_slots p ! ?i"
  obtain a d where a: "slot_current ?s = Some a" "st a = Some d" "pd_linked d"
    "pd_priority d = prio_current p" "a \<in> set (slot_pipes ?s)" "get_slot p (prio_current p) = Some ?s"
    using current_data [OF ok cur] by auto
  obtain p' where p': "nn_priolist_advance st p False = Some (st, p')" "prio_ok st p'"
    "\<forall>i < NN_PRIOLIST_SLOTS. slot_pipes (prio_slots p' ! i) = slot_pipes (prio_slots p ! i)"
    "prio_current p' = prio_current p"
    "slot_current (prio_slots p' ! ?i) = (case seq_next (slot_pipes ?s) a of
        None \<Rightarrow> seq_begin (slot_pipes ?s) | Some b \<Rightarrow> Some b)"
    using advance_ok [OF ok cur a(1,2), of False] by auto
  have pr: "0 < prio_current p" "prio_current p \<le> int NN_PRIOLIST_SLOTS"
    using ok cur by (auto simp: prio_ok_def current_ok_def)
  then have i: "?i < NN_PRIOLIST_SLOTS" by auto
  have so': "slots_ok st p'" and so: "slots_ok st p" using p'(2) ok by (auto simp: prio_ok_def)
  have g': "get_slot p' (prio_current p') = Some (prio_slots p' ! ?i)"
    using get_slot_nth [OF slots_okD(1) [OF so']] pr p'(4) by simp
  obtain ys zs where sp: "slot_pipes ?s = ys @ a # zs" using a(5) by (meson split_list)
  have dis: "distinct (ys @ a # zs)" using slots_okD(2) [OF so i] sp by (simp add: slot_ok_def)
  have o: "service_order p = a # zs @ ys"
    using a(1,6) order_at [OF dis] by (simp add: service_order_def sp)
  have pipes': "slot_pipes (prio_slots p' ! ?i) = ys @ a # zs" using p'(3) i sp by simp
  have nx: "seq_next (ys @ a # zs) a = seq_begin zs" by (rule seq_next_split) (use dis in auto)
  have "service_order p' = zs @ ys @ [a]"
  proof (cases zs)
    case Nil
    have "slot_current (prio_slots p' ! ?i) = seq_begin (ys @ [a])"
      using p'(5) nx sp Nil by (simp add: seq_begin_def)
    then show ?thesis using g' pipes' Nil dis
      by (cases ys) (simp_all add: service_order_def seq_begin_def)
  next
    case (Cons z zs')
    then have "slot_current (prio_slots p' ! ?i) = Some z"
      using p'(5) nx sp by (simp add: seq_begin_def)
    moreover have "distinct ((ys @ [a]) @ z # zs')" using dis Cons by auto
    ultimately show ?thesis using g' pipes' Cons order_at [of "ys @ [a]" z zs']
      by (simp add: service_order_def)
  qed
  with p' o show ?thesis by auto
qed

lemma getpipe_ok:
  assumes ok: "prio_ok st p" and cur: "prio_current p \<noteq> -1"
  shows "service_order p \<noteq> [] \<and> (\<exists>d. st (hd (service_order p)) = Some d \<and> pd_linked d
    \<and> pd_priority d = prio_current p \<and> nn_priolist_getpipe st p = Some (Some (pd_pipe d)))"
proof -
  let ?s = "prio_slots p ! nat (prio_current p - 1)"
  obtain a d where a: "slot_current ?s = Some a" "st a = Some d" "pd_linked d"
    "pd_priority d = prio_current p" "a \<in> set (slot_pipes ?s)" "get_slot p (prio_current p) = Some ?s"
    using current_data [OF ok cur] by auto
  have "service_order p = a # tl (dropWhile (\<lambda>x. x \<noteq> a) (slot_pipes ?s))
      @ takeWhile (\<lambda>x. x \<noteq> a) (slot_pipes ?s)"
    using a(1,6) split_at [OF a(5)]
    by (auto simp: service_order_def) (metis append_Cons append_same_eq same_append_eq takeWhile_dropWhile_id)
  with a cur show ?thesis by (simp add: nn_priolist_getpipe_def)
qed

lemma advance_times_ok:
  "prio_ok st p \<Longrightarrow> prio_current p \<noteq> -1 \<Longrightarrow>
   \<exists>p'. advance_times n st p = Some p' \<and> prio_ok st p' \<and> prio_current p' = prio_current p
     \<and> service_order p' = rotate n (service_order p)"
proof (induction n arbitrary: p)
  case 0
  then show ?case by simp
next
  case (Suc n)
  obtain p1 where p1: "nn_priolist_advance st p False = Some (st, p1)" "prio_ok st p1"
    "prio_current p1 = prio_current p" "service_order p1 = rotate1 (service_order p)"
    using advance_rotates [OF Suc.prems] by blast
  obtain p2 where "advance_times n st p1 = Some p2" "prio_ok st p2" "prio_current p2 = prio_current p1"
    "service_order p2 = rotate n (service_order p1)"
    using Suc.IH [OF p1(2)] p1(3) Suc.prems(2) by auto
  with p1 show ?case by (auto simp: rotate1_rotate_swap rotate_Suc)
qed


section \<open>Properties\<close>

text \<open>The states of a list and of its data that calls respecting the interface lead to.\<close>

inductive prio_reach :: "prio_store \<Rightarrow> nn_priolist \<Rightarrow> bool" where
  reach_init: "prio_reach (\<lambda>_. None) nn_priolist_init"
| reach_add: "prio_reach st p \<Longrightarrow> \<forall>d. st a = Some d \<longrightarrow> \<not> pd_linked d \<Longrightarrow>
    prio_reach (nn_priolist_add st a pipe prio) p"
| reach_activate: "prio_reach st p \<Longrightarrow> st a = Some d \<Longrightarrow> \<not> pd_linked d \<Longrightarrow> 0 < pd_priority d \<Longrightarrow>
    pd_priority d \<le> int NN_PRIOLIST_SLOTS \<Longrightarrow> nn_priolist_activate st p a = Some (st', p') \<Longrightarrow>
    prio_reach st' p'"
| reach_rm: "prio_reach st p \<Longrightarrow> st a = Some d \<Longrightarrow> nn_priolist_rm st p a = Some (st', p') \<Longrightarrow>
    prio_reach st' p'"
| reach_advance: "prio_reach st p \<Longrightarrow> nn_priolist_is_active p \<Longrightarrow>
    nn_priolist_advance st p rel = Some (st', p') \<Longrightarrow> prio_reach st' p'"

lemma prio_reach_ok: "prio_reach st p \<Longrightarrow> prio_ok st p"
proof (induction rule: prio_reach.induct)
  case reach_init
  then show ?case by (rule prio_ok_init) simp
next
  case (reach_add st p a pipe prio)
  then show ?case by (intro prio_ok_add)
next
  case (reach_activate st p a d st' p')
  then show ?case using activate_ok [of st p a d] by (auto simp: fun_upd_def)
next
  case (reach_rm st p a d st' p')
  then show ?case using rm_ok [of st p a d] by (auto simp: fun_upd_def)
next
  case (reach_advance st p rel st' p')
  then have cur: "prio_current p \<noteq> -1" by (simp add: nn_priolist_is_active_def)
  obtain a d where "slot_current (prio_slots p ! nat (prio_current p - 1)) = Some a" "st a = Some d"
    using current_data [OF reach_advance.IH cur] by blast
  from advance_ok [OF reach_advance.IH cur this, of rel] reach_advance.hyps(3) show ?case by auto
qed

text \<open>The current priority is the best of all active pipes.\<close>

lemma current_best:
  assumes ok: "prio_ok st p"
  shows "(prio_current p \<noteq> -1 \<longleftrightarrow> (\<exists>b e. st b = Some e \<and> pd_linked e))
    \<and> (\<forall>b e. st b = Some e \<and> pd_linked e \<longrightarrow> prio_current p \<le> pd_priority e)"
proof -
  have so: "slots_ok st p" and co: "current_ok p" using ok by (auto simp: prio_ok_def)
  have best: "prio_current p \<le> pd_priority e \<and> prio_current p \<noteq> -1" if e: "st b = Some e" "pd_linked e" for b e
  proof -
    have in_slot: "0 < pd_priority e" "pd_priority e \<le> int NN_PRIOLIST_SLOTS"
      "slot_pipes (prio_slots p ! nat (pd_priority e - 1)) \<noteq> []"
      using slots_okD(3) [OF so e] by auto
    have "\<not> nat (pd_priority e - 1) < nat (prio_current p - 1)" "prio_current p \<noteq> -1"
      using co in_slot by (auto simp: current_ok_def empty_below_def)
    then show ?thesis using in_slot(1) by linarith
  qed
  have "\<exists>b e. st b = Some e \<and> pd_linked e" if "prio_current p \<noteq> -1"
    using current_data [OF ok that] by blast
  with best show ?thesis by blast
qed

text \<open>C14. The prioritised list always serves the best priority: in every state reached by adding,
  activating, removing and advancing pipes, no assertion of the list fails, a pipe is offered
  exactly if one is active, and the pipe offered is active and of a priority (a number from 1 to 16)
  that no active pipe undercuts.\<close>

theorem nn_priolist_serves_highest_priority:
  assumes "prio_reach st p"
  shows "(nn_priolist_is_active p \<longleftrightarrow> (\<exists>b e. st b = Some e \<and> pd_linked e))
    \<and> (\<not> nn_priolist_is_active p \<longrightarrow> nn_priolist_getpipe st p = Some None)
    \<and> (nn_priolist_is_active p \<longrightarrow> (\<exists>a d. st a = Some d \<and> pd_linked d
         \<and> nn_priolist_getpipe st p = Some (Some (pd_pipe d))
         \<and> nn_priolist_get_priority p = pd_priority d
         \<and> (\<forall>b e. st b = Some e \<and> pd_linked e \<longrightarrow> pd_priority d \<le> pd_priority e)))"
proof -
  note ok = prio_reach_ok [OF assms]
  have "\<not> nn_priolist_is_active p \<Longrightarrow> nn_priolist_getpipe st p = Some None"
    by (simp add: nn_priolist_is_active_def nn_priolist_getpipe_def)
  moreover have "\<exists>a d. st a = Some d \<and> pd_linked d \<and> pd_priority d = prio_current p
      \<and> nn_priolist_getpipe st p = Some (Some (pd_pipe d))" if "nn_priolist_is_active p"
    using getpipe_ok [OF ok] that by (auto simp: nn_priolist_is_active_def)
  ultimately show ?thesis
    using current_best [OF ok] unfolding nn_priolist_is_active_def nn_priolist_get_priority_def
    by metis
qed

text \<open>C15. Within a priority the service is round robin: the active pipes of the current priority can be
  put in an order, each once, such that after \<open>n\<close> calls of \<open>nn_priolist_advance\<close> the pipe offered is
  the one at position \<open>n\<close> modulo their number.\<close>

theorem nn_priolist_round_robin:
  assumes "prio_reach st p" and "nn_priolist_is_active p"
  shows "\<exists>order. distinct order
    \<and> set order = {a. \<exists>d. st a = Some d \<and> pd_linked d \<and> pd_priority d = nn_priolist_get_priority p}
    \<and> order \<noteq> [] \<and> (\<forall>n. \<exists>p' d. advance_times n st p = Some p' \<and> st (order ! (n mod length order)) = Some d
         \<and> nn_priolist_getpipe st p' = Some (Some (pd_pipe d)))"
proof -
  note ok = prio_reach_ok [OF assms(1)]
  have cur: "prio_current p \<noteq> -1" using assms(2) by (simp add: nn_priolist_is_active_def)
  have so: "slots_ok st p" using ok by (simp add: prio_ok_def)
  let ?i = "nat (prio_current p - 1)"
  let ?s = "prio_slots p ! ?i"
  let ?o = "service_order p"
  obtain a where a: "slot_current ?s = Some a" "a \<in> set (slot_pipes ?s)"
    "get_slot p (prio_current p) = Some ?s" using current_data [OF ok cur] by blast
  have pr: "0 < prio_current p" "prio_current p \<le> int NN_PRIOLIST_SLOTS"
    using ok cur by (auto simp: prio_ok_def current_ok_def)
  then have i: "?i < NN_PRIOLIST_SLOTS" "int ?i + 1 = prio_current p" by auto
  note si = slots_okD(2) [OF so i(1)]
  have o: "?o = dropWhile (\<lambda>x. x \<noteq> a) (slot_pipes ?s) @ takeWhile (\<lambda>x. x \<noteq> a) (slot_pipes ?s)"
    using a by (simp add: service_order_def)
  have "mset ?o = mset (takeWhile (\<lambda>x. x \<noteq> a) (slot_pipes ?s) @ dropWhile (\<lambda>x. x \<noteq> a) (slot_pipes ?s))"
    unfolding o by (simp only: mset_append add.commute)
  then have perm: "mset ?o = mset (slot_pipes ?s)" by (simp only: takeWhile_dropWhile_id)
  have dis: "distinct ?o" using si perm by (metis slot_ok_def mset_eq_imp_distinct_iff)
  have members: "set ?o = {a. \<exists>d. st a = Some d \<and> pd_linked d \<and> pd_priority d = prio_current p}"
  proof -
    have "set ?o = set (slot_pipes ?s)" using perm by (rule mset_eq_setD)
    also have "\<dots> = {a. \<exists>d. st a = Some d \<and> pd_linked d \<and> pd_priority d = prio_current p}"
      using si i(2) slots_okD(3) [OF so] by (fastforce simp: slot_ok_def)
    finally show ?thesis .
  qed
  have ne: "?o \<noteq> []" using getpipe_ok [OF ok cur] by blast
  have "\<exists>p' d. advance_times n st p = Some p' \<and> st (?o ! (n mod length ?o)) = Some d
      \<and> nn_priolist_getpipe st p' = Some (Some (pd_pipe d))" for n
  proof -
    obtain p' where p': "advance_times n st p = Some p'" "prio_ok st p'"
      "prio_current p' = prio_current p" "service_order p' = rotate n ?o"
      using advance_times_ok [OF ok cur] by blast
    have "hd (rotate n ?o) = ?o ! (n mod length ?o)" using ne by (simp add: hd_rotate_conv_nth)
    with getpipe_ok [OF p'(2)] p' cur show ?thesis by auto
  qed
  with dis members ne show ?thesis unfolding nn_priolist_get_priority_def by blast
qed

text \<open>Two pipes, of priorities 8 and 3, both active.\<close>

definition two_pipes :: prio_store where
  "two_pipes = [0 \<mapsto> \<lparr>pd_pipe = 10, pd_priority = 8, pd_linked = True\<rparr>,
     1 \<mapsto> \<lparr>pd_pipe = 11, pd_priority = 3, pd_linked = True\<rparr>]"

definition two_pipes_list :: nn_priolist where
  "two_pipes_list = snd (the (do {
     (st, p) \<leftarrow> nn_priolist_activate (nn_priolist_add (nn_priolist_add (\<lambda>_. None) 0 10 8) 1 11 3)
       nn_priolist_init 0;
     nn_priolist_activate st p 1 }))"

lemma two_pipes_reach: "prio_reach two_pipes two_pipes_list"
proof -
  let ?st = "nn_priolist_add (nn_priolist_add (\<lambda>_. None) 0 10 8) 1 11 3"
  have r0: "prio_reach ?st nn_priolist_init"
    by (intro reach_add reach_init) (auto simp: nn_priolist_add_def)
  note defs = nn_priolist_activate_def nn_priolist_add_def get_slot_def peek_def set_slot_def
    nn_priolist_init_def NN_PRIOLIST_SLOTS_def Let_def
  obtain st1 p1 where a1: "nn_priolist_activate ?st nn_priolist_init 0 = Some (st1, p1)"
    by (auto simp: defs)
  then have s1: "st1 = ?st(0 \<mapsto> \<lparr>pd_pipe = 10, pd_priority = 8, pd_linked = True\<rparr>)"
    by (auto simp: defs)
  have r1: "prio_reach st1 p1"
    by (rule reach_activate [OF r0 _ _ _ _ a1])
      (auto simp: nn_priolist_add_def NN_PRIOLIST_SLOTS_def)
  have d1: "st1 1 = Some \<lparr>pd_pipe = 11, pd_priority = 3, pd_linked = False\<rparr>"
    by (simp add: s1 nn_priolist_add_def)
  obtain p2 where a2: "nn_priolist_activate st1 p1 1
      = Some (st1(1 \<mapsto> \<lparr>pd_pipe = 11, pd_priority = 3, pd_linked = True\<rparr>), p2)"
    using activate_ok [OF prio_reach_ok [OF r1] d1] by (auto simp: NN_PRIOLIST_SLOTS_def)
  have "prio_reach (st1(1 \<mapsto> \<lparr>pd_pipe = 11, pd_priority = 3, pd_linked = True\<rparr>)) p2"
    by (rule reach_activate [OF r1 d1 _ _ _ a2]) (auto simp: NN_PRIOLIST_SLOTS_def)
  moreover have "two_pipes = st1(1 \<mapsto> \<lparr>pd_pipe = 11, pd_priority = 3, pd_linked = True\<rparr>)"
    by (auto simp: two_pipes_def s1 nn_priolist_add_def fun_upd_def fun_eq_iff)
  moreover have "two_pipes_list = p2"
    unfolding two_pipes_list_def by (simp only: a1 a2 bind.bind_lunit prod.case option.sel snd_conv)
  ultimately show ?thesis by simp
qed

theorem nn_priolist_serves_highest_priority_witness:
  "nn_priolist_is_active two_pipes_list \<and> nn_priolist_get_priority two_pipes_list = 3"
proof -
  have "\<exists>b e. two_pipes b = Some e \<and> pd_linked e"
    by (rule exI [of _ 0]) (simp add: two_pipes_def)
  then have act: "nn_priolist_is_active two_pipes_list"
    using nn_priolist_serves_highest_priority [OF two_pipes_reach] by blast
  then obtain a d where d: "two_pipes a = Some d" "nn_priolist_get_priority two_pipes_list = pd_priority d"
    "\<And>b e. two_pipes b = Some e \<Longrightarrow> pd_linked e \<Longrightarrow> pd_priority d \<le> pd_priority e"
    using nn_priolist_serves_highest_priority [OF two_pipes_reach] by blast
  have "pd_priority d \<le> 3" using d(3) [of 1] by (simp add: two_pipes_def)
  with d(1) have "pd_priority d = 3" by (auto simp: two_pipes_def split: if_splits)
  with act d(2) show ?thesis by simp
qed

theorem nn_priolist_round_robin_witness:
  "\<exists>order. distinct order \<and> order \<noteq> []
    \<and> set order = {a. \<exists>d. two_pipes a = Some d \<and> pd_linked d
         \<and> pd_priority d = nn_priolist_get_priority two_pipes_list}
    \<and> (\<exists>p'. advance_times 5 two_pipes two_pipes_list = Some p')"
proof -
  have "\<exists>b e. two_pipes b = Some e \<and> pd_linked e"
    by (rule exI [of _ 0]) (simp add: two_pipes_def)
  then have "nn_priolist_is_active two_pipes_list"
    using current_best [OF prio_reach_ok [OF two_pipes_reach]]
    by (simp add: nn_priolist_is_active_def)
  from nn_priolist_round_robin [OF two_pipes_reach this] show ?thesis by metis
qed

end
