(* ===== verification/NN_Pipe.thy ===== *)
theory NN_Pipe
  imports NN_Message
begin

text \<open>
  \<open>core/pipe.c\<close> of nanomsg: the state of a pipe on its two sides, between the transport below it and
  the protocol above it. The transport is a parameter (the \<open>vfptr\<close> of the pipe): a send or receive
  returns a code and tells whether the transport reported completion (\<open>nn_pipebase_sent\<close>,
  \<open>nn_pipebase_received\<close>) before it returned. \<open>None\<close> is a failed assertion. An event raised to the
  owner is part of the result.
\<close>

section \<open>The code\<close>

datatype pipe_state = P_IDLE | P_ACTIVE | P_FAILED
datatype pipe_instate = IN_DEACTIVATED | IN_IDLE | IN_RECEIVING | IN_RECEIVED | IN_ASYNC
datatype pipe_outstate = OUT_DEACTIVATED | OUT_IDLE | OUT_SENDING | OUT_SENT | OUT_ASYNC

datatype pipe_event = NN_PIPE_IN | NN_PIPE_OUT

record nn_pipebase =
  pb_state :: pipe_state
  pb_instate :: pipe_instate
  pb_outstate :: pipe_outstate
  pb_sndprio :: int
  pb_rcvprio :: int

definition NN_PIPE_RELEASE :: int where "NN_PIPE_RELEASE = 1"
definition NN_PIPE_PARSED :: int where "NN_PIPE_PARSED = 2"

text \<open>The transport of a pipe, on a world of its own.\<close>

record 'w transport =
  t_send :: "nat \<Rightarrow> msg \<Rightarrow> 'w \<Rightarrow> int \<times> bool \<times> 'w"
  t_recv :: "nat \<Rightarrow> 'w \<Rightarrow> int \<times> msg \<times> bool \<times> 'w"

text \<open>The pipes of a socket, and the world of their transports.\<close>

record 'w pipes =
  pipe_at :: "nat \<Rightarrow> nn_pipebase option"
  world :: 'w

definition set_pipe :: "'w pipes \<Rightarrow> nat \<Rightarrow> nn_pipebase \<Rightarrow> 'w pipes" where
  "set_pipe s p b = s\<lparr>pipe_at := (pipe_at s)(p \<mapsto> b)\<rparr>"

definition nn_pipebase_init :: "int \<Rightarrow> int \<Rightarrow> nn_pipebase" where
  "nn_pipebase_init sndprio rcvprio = \<lparr>pb_state = P_IDLE, pb_instate = IN_DEACTIVATED,
     pb_outstate = OUT_DEACTIVATED, pb_sndprio = sndprio, pb_rcvprio = rcvprio\<rparr>"

definition nn_pipebase_term :: "nn_pipebase \<Rightarrow> unit option" where
  "nn_pipebase_term self = (if pb_state self = P_IDLE then Some () else None)"

text \<open>\<open>add\<close> is \<open>nn_sock_add\<close>, which sees the pipe already active.\<close>

definition nn_pipebase_start ::
  "(nn_pipebase \<Rightarrow> int) \<Rightarrow> nn_pipebase \<Rightarrow> (int \<times> nn_pipebase \<times> pipe_event list) option" where
  "nn_pipebase_start add self =
     (if pb_state self \<noteq> P_IDLE then None
      else (
        let self = self\<lparr>pb_state := P_ACTIVE, pb_instate := IN_ASYNC, pb_outstate := OUT_IDLE\<rparr>;
            rc = add self in
        if rc < 0 then Some (rc, self\<lparr>pb_state := P_FAILED\<rparr>, [])
        else Some (0, self, [NN_PIPE_OUT])))"

text \<open>The flag tells whether \<open>nn_sock_rm\<close> is called.\<close>

definition nn_pipebase_stop :: "nn_pipebase \<Rightarrow> bool \<times> nn_pipebase" where
  "nn_pipebase_stop self = (pb_state self = P_ACTIVE, self\<lparr>pb_state := P_IDLE\<rparr>)"

definition nn_pipebase_received :: "nn_pipebase \<Rightarrow> (nn_pipebase \<times> pipe_event list) option" where
  "nn_pipebase_received self =
     (if pb_instate self = IN_RECEIVING then Some (self\<lparr>pb_instate := IN_RECEIVED\<rparr>, [])
      else if pb_instate self = IN_ASYNC then Some (self\<lparr>pb_instate := IN_IDLE\<rparr>, [NN_PIPE_IN])
      else None)"

definition nn_pipebase_sent :: "nn_pipebase \<Rightarrow> (nn_pipebase \<times> pipe_event list) option" where
  "nn_pipebase_sent self =
     (if pb_outstate self = OUT_SENDING then Some (self\<lparr>pb_outstate := OUT_SENT\<rparr>, [])
      else if pb_outstate self = OUT_ASYNC then Some (self\<lparr>pb_outstate := OUT_IDLE\<rparr>, [NN_PIPE_OUT])
      else None)"

definition nn_pipe_send :: "'w transport \<Rightarrow> nat \<Rightarrow> msg \<Rightarrow> 'w pipes \<Rightarrow> (int \<times> 'w pipes) option" where
  "nn_pipe_send T p m s = do {
     pipebase \<leftarrow> pipe_at s p;
     if pb_outstate pipebase \<noteq> OUT_IDLE then None else do {
       let pipebase = pipebase\<lparr>pb_outstate := OUT_SENDING\<rparr>;
       let (rc, fin, w) = t_send T p m (world s);
       pipebase \<leftarrow> (if fin then map_option fst (nn_pipebase_sent pipebase) else Some pipebase);
       if rc < 0 then None
       else if pb_outstate pipebase = OUT_SENT
       then Some (rc, set_pipe (s\<lparr>world := w\<rparr>) p (pipebase\<lparr>pb_outstate := OUT_IDLE\<rparr>))
       else if pb_outstate pipebase \<noteq> OUT_SENDING then None
       else Some (or rc NN_PIPE_RELEASE, set_pipe (s\<lparr>world := w\<rparr>) p (pipebase\<lparr>pb_outstate := OUT_ASYNC\<rparr>)) } }"

definition nn_pipe_recv :: "'w transport \<Rightarrow> nat \<Rightarrow> 'w pipes \<Rightarrow> (int \<times> msg \<times> 'w pipes) option" where
  "nn_pipe_recv T p s = do {
     pipebase \<leftarrow> pipe_at s p;
     if pb_instate pipebase \<noteq> IN_IDLE then None else do {
       let pipebase = pipebase\<lparr>pb_instate := IN_RECEIVING\<rparr>;
       let (rc, m, fin, w) = t_recv T p (world s);
       pipebase \<leftarrow> (if fin then map_option fst (nn_pipebase_received pipebase) else Some pipebase);
       if rc < 0 then None
       else if pb_instate pipebase = IN_RECEIVED
       then Some (rc, m, set_pipe (s\<lparr>world := w\<rparr>) p (pipebase\<lparr>pb_instate := IN_IDLE\<rparr>))
       else if pb_instate pipebase \<noteq> IN_RECEIVING then None
       else Some (or rc NN_PIPE_RELEASE, m, set_pipe (s\<lparr>world := w\<rparr>) p (pipebase\<lparr>pb_instate := IN_ASYNC\<rparr>)) } }"

section \<open>What the protocols rely on\<close>

text \<open>
  A transport is well behaved if its codes are flags: 0 or \<open>NN_PIPE_PARSED\<close>.
\<close>

definition sane_transport :: "'w transport \<Rightarrow> bool" where
  "sane_transport T \<longleftrightarrow> (\<forall>p m w. fst (t_send T p m w) \<in> {0, NN_PIPE_PARSED})
     \<and> (\<forall>p w. fst (t_recv T p w) \<in> {0, NN_PIPE_PARSED})"

abbreviation can_send :: "'w pipes \<Rightarrow> nat \<Rightarrow> bool" where
  "can_send s p \<equiv> \<exists>b. pipe_at s p = Some b \<and> pb_outstate b = OUT_IDLE"

abbreviation can_recv :: "'w pipes \<Rightarrow> nat \<Rightarrow> bool" where
  "can_recv s p \<equiv> \<exists>b. pipe_at s p = Some b \<and> pb_instate b = IN_IDLE"

definition released :: "int \<Rightarrow> bool" where
  "released rc \<longleftrightarrow> and rc NN_PIPE_RELEASE \<noteq> 0"

lemma released_simps [simp]:
  "released (or 0 NN_PIPE_RELEASE)" "released (or NN_PIPE_PARSED NN_PIPE_RELEASE)"
  "\<not> released 0" "\<not> released NN_PIPE_PARSED"
  by (simp_all add: released_def NN_PIPE_RELEASE_def NN_PIPE_PARSED_def)

lemma pipe_at_set_pipe [simp]: "pipe_at (set_pipe s p b) q = (if q = p then Some b else pipe_at s q)"
  by (simp add: set_pipe_def)

lemma world_set_pipe [simp]: "world (set_pipe s p b) = world s"
  by (simp add: set_pipe_def)

text \<open>
  A send on an idle pipe hands the message to the transport; the pipe stays idle exactly if the
  transport has completed, which is when the protocol is not told to release it. Nothing else
  changes on any pipe.
\<close>

lemma pipe_send_ok:
  assumes T: "sane_transport T" and c: "can_send s p"
  shows "\<exists>rc s'. nn_pipe_send T p m s = Some (rc, s') \<and> 0 \<le> rc \<and> (released rc \<longleftrightarrow> \<not> can_send s' p)
    \<and> and rc (not NN_PIPE_RELEASE) = fst (t_send T p m (world s))
    \<and> world s' = snd (snd (t_send T p m (world s)))
    \<and> (\<forall>q. q \<noteq> p \<longrightarrow> pipe_at s' q = pipe_at s q) \<and> (\<forall>q. can_recv s' q \<longleftrightarrow> can_recv s q)"
proof -
  obtain rc fin w where t: "t_send T p m (world s) = (rc, fin, w)" by (metis prod_cases3)
  have rc: "rc = 0 \<or> rc = NN_PIPE_PARSED"
    using T t by (auto simp: sane_transport_def) (metis fst_conv)
  have nn: "\<not> rc < 0" using rc by (auto simp: NN_PIPE_PARSED_def)
  have bits: "and (or rc NN_PIPE_RELEASE) (not NN_PIPE_RELEASE) = rc" "0 \<le> or rc NN_PIPE_RELEASE"
    "and rc (not NN_PIPE_RELEASE) = rc" "released (or rc NN_PIPE_RELEASE)" "\<not> released rc"
    using rc by (auto simp: NN_PIPE_PARSED_def NN_PIPE_RELEASE_def released_def)
  from c t nn bits show ?thesis
    by (cases fin) (auto simp: nn_pipe_send_def nn_pipebase_sent_def)
qed

lemma pipe_recv_ok:
  assumes T: "sane_transport T" and c: "can_recv s p"
  shows "\<exists>rc m s'. nn_pipe_recv T p s = Some (rc, m, s') \<and> 0 \<le> rc \<and> (released rc \<longleftrightarrow> \<not> can_recv s' p)
    \<and> and rc (not NN_PIPE_RELEASE) = fst (t_recv T p (world s)) \<and> m = fst (snd (t_recv T p (world s)))
    \<and> world s' = snd (snd (snd (t_recv T p (world s))))
    \<and> (\<forall>q. q \<noteq> p \<longrightarrow> pipe_at s' q = pipe_at s q) \<and> (\<forall>q. can_send s' q \<longleftrightarrow> can_send s q)"
proof -
  obtain rc m fin w where t: "t_recv T p (world s) = (rc, m, fin, w)" by (metis prod_cases4)
  have rc: "rc = 0 \<or> rc = NN_PIPE_PARSED"
    using T t by (auto simp: sane_transport_def) (metis fst_conv)
  have nn: "\<not> rc < 0" using rc by (auto simp: NN_PIPE_PARSED_def)
  have bits: "and (or rc NN_PIPE_RELEASE) (not NN_PIPE_RELEASE) = rc" "0 \<le> or rc NN_PIPE_RELEASE"
    "and rc (not NN_PIPE_RELEASE) = rc" "released (or rc NN_PIPE_RELEASE)" "\<not> released rc"
    using rc by (auto simp: NN_PIPE_PARSED_def NN_PIPE_RELEASE_def released_def)
  from c t nn bits show ?thesis
    by (cases fin) (auto simp: nn_pipe_recv_def nn_pipebase_received_def)
qed

text \<open>
  The inward and outward state of an active pipe: the transport reports completion only of an
  operation it was given (\<open>RECEIVING\<close> or \<open>ASYNC\<close>), the protocol calls only when told to.
\<close>

inductive pipe_run :: "nn_pipebase \<Rightarrow> bool" where
  run_start: "pb_state b = P_IDLE \<Longrightarrow> nn_pipebase_start add b = Some (0, b', ev) \<Longrightarrow> pipe_run b'"
| run_sent: "pipe_run b \<Longrightarrow> pb_outstate b = OUT_ASYNC \<Longrightarrow> nn_pipebase_sent b = Some (b', ev) \<Longrightarrow> pipe_run b'"
| run_received: "pipe_run b \<Longrightarrow> pb_instate b = IN_ASYNC \<Longrightarrow> nn_pipebase_received b = Some (b', ev)
    \<Longrightarrow> pipe_run b'"
| run_send: "pipe_run b \<Longrightarrow> pb_outstate b = OUT_IDLE \<Longrightarrow> o' \<in> {OUT_IDLE, OUT_ASYNC} \<Longrightarrow>
    pipe_run (b\<lparr>pb_outstate := o'\<rparr>)"
| run_recv: "pipe_run b \<Longrightarrow> pb_instate b = IN_IDLE \<Longrightarrow> i \<in> {IN_IDLE, IN_ASYNC} \<Longrightarrow>
    pipe_run (b\<lparr>pb_instate := i\<rparr>)"

lemma pipe_run_states:
  "pipe_run b \<Longrightarrow> pb_instate b \<in> {IN_IDLE, IN_ASYNC} \<and> pb_outstate b \<in> {OUT_IDLE, OUT_ASYNC}"
  by (induction rule: pipe_run.induct)
    (auto simp: nn_pipebase_start_def nn_pipebase_sent_def nn_pipebase_received_def Let_def split: if_splits)

end
