(* ===== verification/NN_Lb_Fq.thy ===== *)
theory NN_Lb_Fq
  imports NN_Priolist NN_Pipe
begin

text \<open>
  \<open>protocols/utils/lb.c\<close>, \<open>fq.c\<close> and \<open>excl.c\<close> of nanomsg: load balancing of outbound messages and fair
  queueing of inbound ones over a prioritised list of pipes, and the exclusive pipe of a pair. The
  interface \<open>pipe_schedule\<close> states what a load balancer or fair queue needs of its list;
  \<open>nn_priolist\<close> provides it. \<open>None\<close> is a failed assertion.
\<close>

section \<open>The code of lb.c and fq.c\<close>

record nn_lb =
  lb_data :: prio_store
  lb_list :: nn_priolist

record nn_fq =
  fq_data :: prio_store
  fq_list :: nn_priolist

definition nn_lb_init :: "prio_store \<Rightarrow> nn_lb" where
  "nn_lb_init st = \<lparr>lb_data = st, lb_list = nn_priolist_init\<rparr>"

definition nn_lb_term :: "nn_lb \<Rightarrow> unit option" where
  "nn_lb_term self = nn_priolist_term (lb_list self)"

definition nn_lb_add :: "nn_lb \<Rightarrow> nat \<Rightarrow> nat \<Rightarrow> int \<Rightarrow> nn_lb" where
  "nn_lb_add self data pipe priority =
     self\<lparr>lb_data := nn_priolist_add (lb_data self) data pipe priority\<rparr>"

definition nn_lb_rm :: "nn_lb \<Rightarrow> nat \<Rightarrow> nn_lb option" where
  "nn_lb_rm self data = do {
     (st, p) \<leftarrow> nn_priolist_rm (lb_data self) (lb_list self) data;
     Some \<lparr>lb_data = st, lb_list = p\<rparr> }"

definition nn_lb_out :: "nn_lb \<Rightarrow> nat \<Rightarrow> nn_lb option" where
  "nn_lb_out self data = do {
     (st, p) \<leftarrow> nn_priolist_activate (lb_data self) (lb_list self) data;
     Some \<lparr>lb_data = st, lb_list = p\<rparr> }"

definition nn_lb_can_send :: "nn_lb \<Rightarrow> bool" where
  "nn_lb_can_send self = nn_priolist_is_active (lb_list self)"

definition nn_lb_get_priority :: "nn_lb \<Rightarrow> int" where
  "nn_lb_get_priority self = nn_priolist_get_priority (lb_list self)"

definition nn_lb_send ::
  "'w transport \<Rightarrow> nn_lb \<Rightarrow> msg \<Rightarrow> 'w pipes \<Rightarrow> (int \<times> nat option \<times> nn_lb \<times> 'w pipes) option" where
  "nn_lb_send T self m s = do {
     pipe \<leftarrow> nn_priolist_getpipe (lb_data self) (lb_list self);
     case pipe of None \<Rightarrow> Some (- EAGAIN, None, self, s)
     | Some pipe \<Rightarrow> do {
         (rc, s) \<leftarrow> nn_pipe_send T pipe m s;
         if rc < 0 then None else do {
           (st, p) \<leftarrow> nn_priolist_advance (lb_data self) (lb_list self) (released rc);
           Some (and rc (not NN_PIPE_RELEASE), Some pipe, \<lparr>lb_data = st, lb_list = p\<rparr>, s) } } }"

definition nn_fq_init :: "prio_store \<Rightarrow> nn_fq" where
  "nn_fq_init st = \<lparr>fq_data = st, fq_list = nn_priolist_init\<rparr>"

definition nn_fq_term :: "nn_fq \<Rightarrow> unit option" where
  "nn_fq_term self = nn_priolist_term (fq_list self)"

definition nn_fq_add :: "nn_fq \<Rightarrow> nat \<Rightarrow> nat \<Rightarrow> int \<Rightarrow> nn_fq" where
  "nn_fq_add self data pipe priority =
     self\<lparr>fq_data := nn_priolist_add (fq_data self) data pipe priority\<rparr>"

definition nn_fq_rm :: "nn_fq \<Rightarrow> nat \<Rightarrow> nn_fq option" where
  "nn_fq_rm self data = do {
     (st, p) \<leftarrow> nn_priolist_rm (fq_data self) (fq_list self) data;
     Some \<lparr>fq_data = st, fq_list = p\<rparr> }"

definition nn_fq_in :: "nn_fq \<Rightarrow> nat \<Rightarrow> nn_fq option" where
  "nn_fq_in self data = do {
     (st, p) \<leftarrow> nn_priolist_activate (fq_data self) (fq_list self) data;
     Some \<lparr>fq_data = st, fq_list = p\<rparr> }"

definition nn_fq_can_recv :: "nn_fq \<Rightarrow> bool" where
  "nn_fq_can_recv self = nn_priolist_is_active (fq_list self)"

definition nn_fq_recv ::
  "'w transport \<Rightarrow> nn_fq \<Rightarrow> 'w pipes \<Rightarrow> (int \<times> (msg \<times> nat) option \<times> nn_fq \<times> 'w pipes) option" where
  "nn_fq_recv T self s = do {
     p \<leftarrow> nn_priolist_getpipe (fq_data self) (fq_list self);
     case p of None \<Rightarrow> Some (- EAGAIN, None, self, s)
     | Some p \<Rightarrow> do {
         (rc, m, s) \<leftarrow> nn_pipe_recv T p s;
         if rc < 0 then None else do {
           (st, l) \<leftarrow> nn_priolist_advance (fq_data self) (fq_list self) (released rc);
           Some (and rc (not NN_PIPE_RELEASE), Some (m, p), \<lparr>fq_data = st, fq_list = l\<rparr>, s) } } }"

section \<open>The interface of a schedule of pipes\<close>

text \<open>
  \<open>ready s\<close>: the pipes in the schedule. One step of service picks one, uses it, and takes it out of
  the schedule if told to.
\<close>

definition serve_step ::
  "('s \<Rightarrow> nat option option) \<Rightarrow> ('s \<Rightarrow> bool \<Rightarrow> 's option) \<Rightarrow> (nat \<Rightarrow> 'u \<Rightarrow> (int \<times> 'r \<times> 'u) option) \<Rightarrow>
   's \<Rightarrow> 'u \<Rightarrow> ((int \<times> 'r \<times> nat) option \<times> 's \<times> 'u) option" where
  "serve_step pick adv use s u = do {
     p \<leftarrow> pick s;
     case p of None \<Rightarrow> Some (None, s, u)
     | Some p \<Rightarrow> do {
         (rc, r, u) \<leftarrow> use p u;
         s \<leftarrow> adv s (released rc);
         Some (Some (rc, r, p), s, u) } }"

locale pipe_schedule =
  fixes ok :: "'s \<Rightarrow> bool"
    and ready :: "'s \<Rightarrow> nat set"
    and pick :: "'s \<Rightarrow> nat option option"
    and adv :: "'s \<Rightarrow> bool \<Rightarrow> 's option"
  assumes pick_none: "ok s \<Longrightarrow> ready s = {} \<Longrightarrow> pick s = Some None"
    and pick_some: "ok s \<Longrightarrow> ready s \<noteq> {} \<Longrightarrow> \<exists>p \<in> ready s. pick s = Some (Some p)"
    and adv_law: "ok s \<Longrightarrow> pick s = Some (Some p) \<Longrightarrow>
      \<exists>s'. adv s rel = Some s' \<and> ok s' \<and> ready s' = (if rel then ready s - {p} else ready s)"
begin

text \<open>
  If every pipe in the schedule is idle, a step serves one of them, and again every pipe in the
  schedule is idle: the schedule never hands out a busy pipe.
\<close>

lemma serve:
  assumes ok: "ok s" and inv: "\<forall>p \<in> ready s. idle u p"
    and use: "\<forall>p. idle u p \<longrightarrow> (\<exists>rc r u'. use p u = Some (rc, r, u') \<and> (released rc \<longleftrightarrow> \<not> idle u' p)
      \<and> (\<forall>q. q \<noteq> p \<longrightarrow> idle u' q = idle u q))"
  shows "(ready s = {} \<and> serve_step pick adv use s u = Some (None, s, u))
    \<or> (\<exists>p rc r s' u'. p \<in> ready s \<and> pick s = Some (Some p) \<and> use p u = Some (rc, r, u')
        \<and> serve_step pick adv use s u = Some (Some (rc, r, p), s', u')
        \<and> ok s' \<and> (\<forall>q \<in> ready s'. idle u' q)
        \<and> ready s' = (if released rc then ready s - {p} else ready s))"
proof (cases "ready s = {}")
  case True
  then show ?thesis using pick_none [OF ok] by (simp add: serve_step_def)
next
  case False
  then obtain p where p: "p \<in> ready s" "pick s = Some (Some p)" using pick_some [OF ok] by blast
  with inv use obtain rc r u' where u: "use p u = Some (rc, r, u')" "released rc \<longleftrightarrow> \<not> idle u' p"
    "\<forall>q. q \<noteq> p \<longrightarrow> idle u' q = idle u q" by blast
  obtain s' where s': "adv s (released rc) = Some s'" "ok s'"
    "ready s' = (if released rc then ready s - {p} else ready s)"
    using adv_law [OF ok p(2)] by blast
  have "serve_step pick adv use s u = Some (Some (rc, r, p), s', u')"
    using p(2) u(1) s'(1) by (simp add: serve_step_def)
  moreover have "\<forall>q \<in> ready s'. idle u' q" using inv u(2,3) s'(3) p(1) by auto
  ultimately show ?thesis using p u(1) s'(2,3) by blast
qed

end

text \<open>The prioritised list, as long as every pipe has one item.\<close>

definition one_item_each :: "prio_store \<Rightarrow> bool" where
  "one_item_each st \<longleftrightarrow> (\<forall>a b d e. st a = Some d \<and> st b = Some e \<and> pd_pipe d = pd_pipe e \<longrightarrow> a = b)"

definition sched_ok :: "prio_store \<times> nn_priolist \<Rightarrow> bool" where
  "sched_ok s \<longleftrightarrow> prio_ok (fst s) (snd s) \<and> one_item_each (fst s)"

definition sched_ready :: "prio_store \<times> nn_priolist \<Rightarrow> nat set" where
  "sched_ready s = {pd_pipe d | a d. fst s a = Some d \<and> pd_linked d}"

definition sched_pick :: "prio_store \<times> nn_priolist \<Rightarrow> nat option option" where
  "sched_pick s = nn_priolist_getpipe (fst s) (snd s)"

definition sched_adv :: "prio_store \<times> nn_priolist \<Rightarrow> bool \<Rightarrow> (prio_store \<times> nn_priolist) option" where
  "sched_adv s rel = nn_priolist_advance (fst s) (snd s) rel"

lemma sched_ready_active:
  "prio_ok st p \<Longrightarrow> sched_ready (st, p) = {} \<longleftrightarrow> prio_current p = -1"
  using current_best [of st p] by (auto simp: sched_ready_def)

lemma unlink_ready:
  assumes inj: "one_item_each st" and a: "st a = Some d"
  shows "sched_ready (st(a \<mapsto> d\<lparr>pd_linked := False\<rparr>), p') = sched_ready (st, p) - {pd_pipe d}"
proof (rule set_eqI, rule iffI)
  fix x
  assume "x \<in> sched_ready (st(a \<mapsto> d\<lparr>pd_linked := False\<rparr>), p')"
  then obtain b e where e: "(st(a \<mapsto> d\<lparr>pd_linked := False\<rparr>)) b = Some e" "pd_linked e" "x = pd_pipe e"
    by (auto simp: sched_ready_def)
  then have b: "b \<noteq> a" "st b = Some e" by (auto split: if_splits)
  then have "x \<noteq> pd_pipe d" using inj a e(3) unfolding one_item_each_def by metis
  with b e show "x \<in> sched_ready (st, p) - {pd_pipe d}" by (auto simp: sched_ready_def)
next
  fix x
  assume "x \<in> sched_ready (st, p) - {pd_pipe d}"
  then obtain b e where e: "st b = Some e" "pd_linked e" "x = pd_pipe e" "x \<noteq> pd_pipe d"
    by (auto simp: sched_ready_def)
  then have "(st(a \<mapsto> d\<lparr>pd_linked := False\<rparr>)) b = Some e" using a by auto
  with e show "x \<in> sched_ready (st(a \<mapsto> d\<lparr>pd_linked := False\<rparr>), p')"
    unfolding sched_ready_def fst_conv by blast
qed

lemma sched_adv_law:
  assumes ok: "sched_ok s" and pick: "sched_pick s = Some (Some q)"
  shows "\<exists>s'. sched_adv s rel = Some s' \<and> sched_ok s'
    \<and> sched_ready s' = (if rel then sched_ready s - {q} else sched_ready s)"
proof -
  obtain st p where s: "s = (st, p)" by (cases s)
  have pok: "prio_ok st p" and inj: "one_item_each st" using ok by (auto simp: sched_ok_def s)
  have cur: "prio_current p \<noteq> -1"
    using pick by (auto simp: sched_pick_def s nn_priolist_getpipe_def)
  obtain a d where a: "slot_current (prio_slots p ! nat (prio_current p - 1)) = Some a" "st a = Some d"
    "pd_linked d" "get_slot p (prio_current p) = Some (prio_slots p ! nat (prio_current p - 1))"
    using current_data [OF pok cur] by blast
  have q: "q = pd_pipe d" using pick a cur by (simp add: sched_pick_def s nn_priolist_getpipe_def)
  obtain st' p' where r: "nn_priolist_advance st p rel = Some (st', p')" "prio_ok st' p'"
    "st' = (if rel then st(a \<mapsto> d\<lparr>pd_linked := False\<rparr>) else st)"
    using advance_ok [OF pok cur a(1,2), of rel] by blast
  have "one_item_each st'" using inj r(3) a(2) by (auto simp: one_item_each_def split: if_splits)
  moreover have "sched_ready (st', p') = (if rel then sched_ready (st, p) - {q} else sched_ready (st, p))"
  proof (cases rel)
    case True
    with unlink_ready [OF inj a(2)] q r(3) show ?thesis by simp
  next
    case False
    with r(3) show ?thesis by (simp add: sched_ready_def)
  qed
  ultimately show ?thesis using r(1,2) by (auto simp: sched_adv_def sched_ok_def s)
qed

interpretation priolist: pipe_schedule sched_ok sched_ready sched_pick sched_adv
proof unfold_locales
  fix s :: "prio_store \<times> nn_priolist" and q rel
  obtain st p where s: "s = (st, p)" by (cases s)
  show "sched_ok s \<Longrightarrow> sched_ready s = {} \<Longrightarrow> sched_pick s = Some None"
    using sched_ready_active [of st p] by (simp add: s sched_ok_def sched_pick_def nn_priolist_getpipe_def)
  show "sched_ok s \<Longrightarrow> sched_ready s \<noteq> {} \<Longrightarrow> \<exists>p \<in> sched_ready s. sched_pick s = Some (Some p)"
    using sched_ready_active [of st p] getpipe_ok [of st p]
    by (auto simp: s sched_ok_def sched_pick_def sched_ready_def)
  show "sched_ok s \<Longrightarrow> sched_pick s = Some (Some q) \<Longrightarrow>
      \<exists>s'. sched_adv s rel = Some s' \<and> sched_ok s'
        \<and> sched_ready s' = (if rel then sched_ready s - {q} else sched_ready s)"
    by (rule sched_adv_law)
qed


section \<open>Load balancing and fair queueing\<close>

text \<open>Both are a step of service, of \<open>nn_pipe_send\<close> and of \<open>nn_pipe_recv\<close>.\<close>

lemma nn_lb_send_step:
  assumes "sane_transport T" and "sched_ok (lb_data lb, lb_list lb)"
    and "\<forall>p \<in> sched_ready (lb_data lb, lb_list lb). can_send s p"
  shows "(sched_ready (lb_data lb, lb_list lb) = {} \<and> nn_lb_send T lb m s = Some (- EAGAIN, None, lb, s))
    \<or> (\<exists>p rc lb' s'. p \<in> sched_ready (lb_data lb, lb_list lb)
        \<and> nn_priolist_getpipe (lb_data lb) (lb_list lb) = Some (Some p)
        \<and> nn_pipe_send T p m s = Some (rc, s')
        \<and> nn_lb_send T lb m s = Some (and rc (not NN_PIPE_RELEASE), Some p, lb', s')
        \<and> sched_ok (lb_data lb', lb_list lb')
        \<and> (\<forall>q \<in> sched_ready (lb_data lb', lb_list lb'). can_send s' q)
        \<and> sched_ready (lb_data lb', lb_list lb') = (if released rc
             then sched_ready (lb_data lb, lb_list lb) - {p} else sched_ready (lb_data lb, lb_list lb)))"
proof -
  let ?use = "\<lambda>p s. map_option (\<lambda>(rc, s). (rc, (), s)) (nn_pipe_send T p m s)"
  let ?st = "(lb_data lb, lb_list lb)"
  have use: "\<forall>p. can_send s p \<longrightarrow> (\<exists>rc r s'. ?use p s = Some (rc, r, s') \<and> (released rc \<longleftrightarrow> \<not> can_send s' p)
      \<and> (\<forall>q. q \<noteq> p \<longrightarrow> can_send s' q = can_send s q))"
    using pipe_send_ok [OF assms(1), of s _ m] by fastforce
  have step: "nn_lb_send T lb m s = map_option (\<lambda>(r, st, s). case r of
        None \<Rightarrow> (- EAGAIN, None, \<lparr>lb_data = fst st, lb_list = snd st\<rparr>, s)
      | Some (rc, _, p) \<Rightarrow> (and rc (not NN_PIPE_RELEASE), Some p, \<lparr>lb_data = fst st, lb_list = snd st\<rparr>, s))
      (serve_step sched_pick sched_adv ?use ?st s)" if "\<And>p rc s'. nn_pipe_send T p m s = Some (rc, s') \<Longrightarrow> 0 \<le> rc"
    using that by (auto simp: nn_lb_send_def serve_step_def sched_pick_def sched_adv_def map_option_case
        split: option.splits bind_splits dest: that)
  have nonneg: "0 \<le> rc" if "nn_pipe_send T p m s = Some (rc, s')" for p rc s'
    using that by (auto simp: nn_pipe_send_def Let_def NN_PIPE_RELEASE_def split: bind_splits if_splits prod.splits)
  from priolist.serve [where idle = "\<lambda>s p. can_send s p" and u = s and use = ?use, OF assms(2,3) use] show ?thesis
  proof (elim disjE conjE exE)
    assume "sched_ready ?st = {}" "serve_step sched_pick sched_adv ?use ?st s = Some (None, ?st, s)"
    with step [OF nonneg] show ?thesis by simp
  next
    fix p rc r st' s'
    assume a: "p \<in> sched_ready ?st" "sched_pick ?st = Some (Some p)" "?use p s = Some (rc, r, s')"
      "serve_step sched_pick sched_adv ?use ?st s = Some (Some (rc, r, p), st', s')"
      "sched_ok st'" "\<forall>q \<in> sched_ready st'. can_send s' q"
      "sched_ready st' = (if released rc then sched_ready ?st - {p} else sched_ready ?st)"
    let ?lb = "\<lparr>lb_data = fst st', lb_list = snd st'\<rparr>"
    have "nn_lb_send T lb m s = Some (and rc (not NN_PIPE_RELEASE), Some p, ?lb, s')"
      using step [OF nonneg] a(4) by simp
    with a show ?thesis by (intro disjI2 exI [of _ p] exI [of _ rc] exI [of _ ?lb] exI [of _ s'])
      (auto simp: sched_pick_def)
  qed
qed

lemma nn_fq_recv_step:
  assumes "sane_transport T" and "sched_ok (fq_data fq, fq_list fq)"
    and "\<forall>p \<in> sched_ready (fq_data fq, fq_list fq). can_recv s p"
  shows "(sched_ready (fq_data fq, fq_list fq) = {} \<and> nn_fq_recv T fq s = Some (- EAGAIN, None, fq, s))
    \<or> (\<exists>p rc m fq' s'. p \<in> sched_ready (fq_data fq, fq_list fq)
        \<and> nn_priolist_getpipe (fq_data fq) (fq_list fq) = Some (Some p)
        \<and> nn_pipe_recv T p s = Some (rc, m, s')
        \<and> nn_fq_recv T fq s = Some (and rc (not NN_PIPE_RELEASE), Some (m, p), fq', s')
        \<and> sched_ok (fq_data fq', fq_list fq')
        \<and> (\<forall>q \<in> sched_ready (fq_data fq', fq_list fq'). can_recv s' q)
        \<and> sched_ready (fq_data fq', fq_list fq') = (if released rc
             then sched_ready (fq_data fq, fq_list fq) - {p} else sched_ready (fq_data fq, fq_list fq)))"
proof -
  let ?st = "(fq_data fq, fq_list fq)"
  have use: "\<forall>p. can_recv s p \<longrightarrow> (\<exists>rc r s'. nn_pipe_recv T p s = Some (rc, r, s')
      \<and> (released rc \<longleftrightarrow> \<not> can_recv s' p) \<and> (\<forall>q. q \<noteq> p \<longrightarrow> can_recv s' q = can_recv s q))"
    using pipe_recv_ok [OF assms(1), of s] by fastforce
  have nonneg: "0 \<le> rc" if "nn_pipe_recv T p s = Some (rc, r, s')" for p rc r s'
    using that by (auto simp: nn_pipe_recv_def Let_def NN_PIPE_RELEASE_def split: bind_splits if_splits prod.splits)
  have step: "nn_fq_recv T fq s = map_option (\<lambda>(r, st, s). case r of
        None \<Rightarrow> (- EAGAIN, None, \<lparr>fq_data = fst st, fq_list = snd st\<rparr>, s)
      | Some (rc, m, p) \<Rightarrow> (and rc (not NN_PIPE_RELEASE), Some (m, p), \<lparr>fq_data = fst st, fq_list = snd st\<rparr>, s))
      (serve_step sched_pick sched_adv (nn_pipe_recv T) ?st s)"
    using nonneg by (auto simp: nn_fq_recv_def serve_step_def sched_pick_def sched_adv_def map_option_case
        split: option.splits bind_splits dest: nonneg)
  from priolist.serve [where idle = "\<lambda>s p. can_recv s p" and u = s and use = "nn_pipe_recv T", OF assms(2,3) use]
  show ?thesis
  proof (elim disjE conjE exE)
    assume "sched_ready ?st = {}" "serve_step sched_pick sched_adv (nn_pipe_recv T) ?st s = Some (None, ?st, s)"
    with step show ?thesis by simp
  next
    fix p rc r st' s'
    assume a: "p \<in> sched_ready ?st" "sched_pick ?st = Some (Some p)" "nn_pipe_recv T p s = Some (rc, r, s')"
      "serve_step sched_pick sched_adv (nn_pipe_recv T) ?st s = Some (Some (rc, r, p), st', s')"
      "sched_ok st'" "\<forall>q \<in> sched_ready st'. can_recv s' q"
      "sched_ready st' = (if released rc then sched_ready ?st - {p} else sched_ready ?st)"
    let ?fq = "\<lparr>fq_data = fst st', fq_list = snd st'\<rparr>"
    have "nn_fq_recv T fq s = Some (and rc (not NN_PIPE_RELEASE), Some (r, p), ?fq, s')"
      using step a(4) by simp
    with a show ?thesis
      by (intro disjI2 exI [of _ p] exI [of _ rc] exI [of _ r] exI [of _ ?fq] exI [of _ s'])
        (auto simp: sched_pick_def)
  qed
qed


section \<open>The exclusive pipe\<close>

record nn_excl =
  ex_pipe :: "nat option"
  ex_inpipe :: "nat option"
  ex_outpipe :: "nat option"

definition nn_excl_init :: nn_excl where
  "nn_excl_init = \<lparr>ex_pipe = None, ex_inpipe = None, ex_outpipe = None\<rparr>"

definition nn_excl_term :: "nn_excl \<Rightarrow> unit option" where
  "nn_excl_term self =
     (if ex_pipe self = None \<and> ex_inpipe self = None \<and> ex_outpipe self = None then Some () else None)"

definition nn_excl_add :: "nn_excl \<Rightarrow> nat \<Rightarrow> int \<times> nn_excl" where
  "nn_excl_add self pipe =
     (if ex_pipe self \<noteq> None then (- EISCONN, self) else (0, self\<lparr>ex_pipe := Some pipe\<rparr>))"

definition nn_excl_rm :: "nn_excl \<Rightarrow> nat \<Rightarrow> nn_excl option" where
  "nn_excl_rm self pipe =
     (if ex_pipe self = None then None
      else Some (self\<lparr>ex_pipe := None, ex_inpipe := None, ex_outpipe := None\<rparr>))"

definition nn_excl_in :: "nn_excl \<Rightarrow> nat \<Rightarrow> nn_excl option" where
  "nn_excl_in self pipe =
     (if ex_inpipe self \<noteq> None \<or> Some pipe \<noteq> ex_pipe self then None
      else Some (self\<lparr>ex_inpipe := Some pipe\<rparr>))"

definition nn_excl_out :: "nn_excl \<Rightarrow> nat \<Rightarrow> nn_excl option" where
  "nn_excl_out self pipe =
     (if ex_outpipe self \<noteq> None \<or> Some pipe \<noteq> ex_pipe self then None
      else Some (self\<lparr>ex_outpipe := Some pipe\<rparr>))"

definition nn_excl_send ::
  "'w transport \<Rightarrow> nn_excl \<Rightarrow> msg \<Rightarrow> 'w pipes \<Rightarrow> (int \<times> nn_excl \<times> 'w pipes) option" where
  "nn_excl_send T self m s = (case ex_outpipe self of
       None \<Rightarrow> Some (- EAGAIN, self, s)
     | Some p \<Rightarrow> do {
         (rc, s) \<leftarrow> nn_pipe_send T p m s;
         if rc < 0 then None
         else Some (and rc (not NN_PIPE_RELEASE),
           if released rc then self\<lparr>ex_outpipe := None\<rparr> else self, s) })"

definition nn_excl_recv ::
  "'w transport \<Rightarrow> nn_excl \<Rightarrow> 'w pipes \<Rightarrow> (int \<times> msg option \<times> nn_excl \<times> 'w pipes) option" where
  "nn_excl_recv T self s = (case ex_inpipe self of
       None \<Rightarrow> Some (- EAGAIN, None, self, s)
     | Some p \<Rightarrow> do {
         (rc, m, s) \<leftarrow> nn_pipe_recv T p s;
         if rc < 0 then None
         else Some (and rc (not NN_PIPE_RELEASE), Some m,
           if released rc then self\<lparr>ex_inpipe := None\<rparr> else self, s) })"

definition nn_excl_can_send :: "nn_excl \<Rightarrow> bool" where
  "nn_excl_can_send self = (ex_outpipe self \<noteq> None)"

definition nn_excl_can_recv :: "nn_excl \<Rightarrow> bool" where
  "nn_excl_can_recv self = (ex_inpipe self \<noteq> None)"

text \<open>
  The pipe in use, and agreement with its state: the inward (outward) pipe is set exactly if the
  pipe is idle inward (outward), as the events \<open>NN_PIPE_IN\<close> and \<open>NN_PIPE_OUT\<close> announce.
\<close>

definition excl_ok :: "nn_excl \<Rightarrow> 'w pipes \<Rightarrow> bool" where
  "excl_ok x s \<longleftrightarrow>
     (\<forall>p. ex_inpipe x = Some p \<longrightarrow> ex_pipe x = Some p \<and> can_recv s p)
     \<and> (\<forall>p. ex_outpipe x = Some p \<longrightarrow> ex_pipe x = Some p \<and> can_send s p)"

lemma excl_ok_send:
  assumes T: "sane_transport T" and ok: "excl_ok x s"
  shows "(ex_outpipe x = None \<and> nn_excl_send T x m s = Some (- EAGAIN, x, s))
    \<or> (\<exists>p rc x' s'. ex_outpipe x = Some p \<and> ex_pipe x = Some p
        \<and> nn_excl_send T x m s = Some (rc, x', s') \<and> 0 \<le> rc
        \<and> rc = fst (t_send T p m (world s)) \<and> world s' = snd (snd (t_send T p m (world s)))
        \<and> excl_ok x' s' \<and> ex_pipe x' = ex_pipe x)"
proof (cases "ex_outpipe x")
  case None
  then show ?thesis by (simp add: nn_excl_send_def)
next
  case (Some p)
  with ok have p: "ex_pipe x = Some p" "can_send s p" by (auto simp: excl_ok_def)
  obtain rc s' where r: "nn_pipe_send T p m s = Some (rc, s')" "0 \<le> rc" "released rc \<longleftrightarrow> \<not> can_send s' p"
    "and rc (not NN_PIPE_RELEASE) = fst (t_send T p m (world s))"
    "world s' = snd (snd (t_send T p m (world s)))" "\<forall>q. can_recv s' q \<longleftrightarrow> can_recv s q"
    using pipe_send_ok [OF T p(2), of m] by blast
  let ?x = "if released rc then x\<lparr>ex_outpipe := None\<rparr> else x"
  have "excl_ok ?x s'"
    using ok r(3,6) Some by (auto simp: excl_ok_def)
  moreover have "0 \<le> and rc (not NN_PIPE_RELEASE)" using r(2) by simp
  ultimately show ?thesis using Some p r by (auto simp: nn_excl_send_def)
qed

lemma excl_ok_recv:
  assumes T: "sane_transport T" and ok: "excl_ok x s"
  shows "(ex_inpipe x = None \<and> nn_excl_recv T x s = Some (- EAGAIN, None, x, s))
    \<or> (\<exists>p rc x' s'. ex_inpipe x = Some p \<and> ex_pipe x = Some p
        \<and> nn_excl_recv T x s = Some (rc, Some (fst (snd (t_recv T p (world s)))), x', s') \<and> 0 \<le> rc
        \<and> rc = fst (t_recv T p (world s)) \<and> world s' = snd (snd (snd (t_recv T p (world s))))
        \<and> excl_ok x' s' \<and> ex_pipe x' = ex_pipe x)"
proof (cases "ex_inpipe x")
  case None
  then show ?thesis by (simp add: nn_excl_recv_def)
next
  case (Some p)
  with ok have p: "ex_pipe x = Some p" "can_recv s p" by (auto simp: excl_ok_def)
  obtain rc m s' where r: "nn_pipe_recv T p s = Some (rc, m, s')" "0 \<le> rc" "released rc \<longleftrightarrow> \<not> can_recv s' p"
    "and rc (not NN_PIPE_RELEASE) = fst (t_recv T p (world s))" "m = fst (snd (t_recv T p (world s)))"
    "world s' = snd (snd (snd (t_recv T p (world s))))" "\<forall>q. can_send s' q \<longleftrightarrow> can_send s q"
    using pipe_recv_ok [OF T p(2)] by blast
  let ?x = "if released rc then x\<lparr>ex_inpipe := None\<rparr> else x"
  have "excl_ok ?x s'"
    using ok r(3,7) Some by (auto simp: excl_ok_def)
  moreover have "0 \<le> and rc (not NN_PIPE_RELEASE)" using r(2) by simp
  ultimately show ?thesis using Some p r by (auto simp: nn_excl_recv_def)
qed


section \<open>A load balancer and its pipes\<close>

text \<open>
  The load balancer together with the pipes it sends to, as the socket drives them: a pipe is added
  with a priority its endpoint allows (\<open>NN_SNDPRIO\<close> is 1 to 16), becomes ready when it starts and
  whenever the transport reports the end of a send, and is removed when it stops.
\<close>

inductive lb_run :: "'w transport \<Rightarrow> nn_lb \<Rightarrow> 'w pipes \<Rightarrow> bool" for T :: "'w transport" where
  lb_run_init: "lb_run T (nn_lb_init (\<lambda>_. None)) s"
| lb_run_add: "lb_run T lb s \<Longrightarrow> lb_data lb a = None \<Longrightarrow> (\<And>b d. lb_data lb b = Some d \<Longrightarrow> pd_pipe d \<noteq> p) \<Longrightarrow>
    0 < prio \<Longrightarrow> prio \<le> int NN_PRIOLIST_SLOTS \<Longrightarrow> lb_run T (nn_lb_add lb a p prio) s"
| lb_run_start: "lb_run T lb s \<Longrightarrow> lb_data lb a = Some d \<Longrightarrow> \<not> pd_linked d \<Longrightarrow>
    nn_pipebase_start add b = Some (0, b', [NN_PIPE_OUT]) \<Longrightarrow> nn_lb_out lb a = Some lb' \<Longrightarrow>
    lb_run T lb' (set_pipe s (pd_pipe d) b')"
| lb_run_sent: "lb_run T lb s \<Longrightarrow> lb_data lb a = Some d \<Longrightarrow> \<not> pd_linked d \<Longrightarrow> pipe_at s (pd_pipe d) = Some b \<Longrightarrow>
    nn_pipebase_sent b = Some (b', [NN_PIPE_OUT]) \<Longrightarrow> nn_lb_out lb a = Some lb' \<Longrightarrow>
    lb_run T lb' (set_pipe s (pd_pipe d) b')"
| lb_run_send: "lb_run T lb s \<Longrightarrow> nn_lb_send T lb m s = Some (rc, to, lb', s') \<Longrightarrow> lb_run T lb' s'"
| lb_run_rm: "lb_run T lb s \<Longrightarrow> lb_data lb a = Some d \<Longrightarrow> nn_lb_rm lb a = Some lb' \<Longrightarrow> lb_run T lb' s"

definition lb_ok :: "nn_lb \<Rightarrow> 'w pipes \<Rightarrow> bool" where
  "lb_ok lb s \<longleftrightarrow> sched_ok (lb_data lb, lb_list lb)
     \<and> (\<forall>a d. lb_data lb a = Some d \<longrightarrow> 0 < pd_priority d \<and> pd_priority d \<le> int NN_PRIOLIST_SLOTS)
     \<and> (\<forall>p \<in> sched_ready (lb_data lb, lb_list lb). can_send s p)"

lemma advance_store:
  "nn_priolist_advance st p rel = Some (st', p') \<Longrightarrow>
     (\<forall>a. map_option pd_priority (st' a) = map_option pd_priority (st a))"
  by (auto simp: nn_priolist_advance_def Let_def split: bind_splits if_splits)

lemma out_event:
  assumes ok: "lb_ok lb s" and a: "lb_data lb a = Some d" "\<not> pd_linked d"
    and out: "nn_lb_out lb a = Some lb'" and b: "pb_outstate b' = OUT_IDLE"
  shows "lb_ok lb' (set_pipe s (pd_pipe d) b')"
proof -
  let ?st = "(lb_data lb)(a \<mapsto> d\<lparr>pd_linked := True\<rparr>)"
  have pok: "prio_ok (lb_data lb) (lb_list lb)" and inj: "one_item_each (lb_data lb)"
    and pr: "0 < pd_priority d" "pd_priority d \<le> int NN_PRIOLIST_SLOTS"
    using ok a by (auto simp: lb_ok_def sched_ok_def)
  obtain p' where p': "nn_priolist_activate (lb_data lb) (lb_list lb) a = Some (?st, p')" "prio_ok ?st p'"
    using activate_ok [OF pok a pr] by blast
  have lb': "lb' = \<lparr>lb_data = ?st, lb_list = p'\<rparr>" using out p'(1) by (simp add: nn_lb_out_def)
  have "one_item_each ?st" using inj a(1) by (auto simp: one_item_each_def split: if_splits)
  moreover have "can_send (set_pipe s (pd_pipe d) b') q" if "q \<in> sched_ready (?st, p')" for q
  proof (cases "q = pd_pipe d")
    case True
    then show ?thesis using b by simp
  next
    case False
    then have "q \<in> sched_ready (lb_data lb, lb_list lb)"
      using that by (auto simp: sched_ready_def split: if_splits)
    with False ok show ?thesis by (auto simp: lb_ok_def)
  qed
  ultimately show ?thesis using ok p'(2) a pr by (auto simp: lb_ok_def lb' sched_ok_def)
qed

lemma lb_run_ok: "lb_run T lb s \<Longrightarrow> sane_transport T \<Longrightarrow> lb_ok lb s"
proof (induction rule: lb_run.induct)
  case (lb_run_init s)
  have "prio_ok (\<lambda>_. None) nn_priolist_init" by (rule prio_ok_init) simp
  then show ?case by (auto simp: lb_ok_def nn_lb_init_def sched_ok_def one_item_each_def sched_ready_def)
next
  case (lb_run_add lb s a p prio)
  then have ok: "lb_ok lb s" by simp
  have "prio_ok (nn_priolist_add (lb_data lb) a p prio) (lb_list lb)"
    by (rule prio_ok_add) (use ok lb_run_add.hyps(2) in \<open>auto simp: lb_ok_def sched_ok_def\<close>)
  moreover have "one_item_each (nn_priolist_add (lb_data lb) a p prio)"
    using ok lb_run_add.hyps(2,3)
    by (auto simp: lb_ok_def sched_ok_def one_item_each_def nn_priolist_add_def)
  moreover have "sched_ready (nn_priolist_add (lb_data lb) a p prio, lb_list lb)
      \<subseteq> sched_ready (lb_data lb, lb_list lb)"
    using lb_run_add.hyps(2) by (auto simp: sched_ready_def nn_priolist_add_def split: if_splits)
  ultimately show ?case using ok lb_run_add.hyps(4,5)
    by (auto simp: lb_ok_def nn_lb_add_def sched_ok_def nn_priolist_add_def)
next
  case (lb_run_start lb s a d add b b' lb')
  have "pb_outstate b' = OUT_IDLE"
    using lb_run_start.hyps(4) by (auto simp: nn_pipebase_start_def Let_def split: if_splits)
  with lb_run_start show ?case by (intro out_event [of lb s a d]) auto
next
  case (lb_run_sent lb s a d b b' lb')
  have "pb_outstate b' = OUT_IDLE"
    using lb_run_sent.hyps(5) by (auto simp: nn_pipebase_sent_def split: if_splits)
  with lb_run_sent show ?case by (intro out_event [of lb s a d]) auto
next
  case (lb_run_send lb s m rc to lb' s')
  then have ok: "lb_ok lb s" by simp
  then have pr: "\<forall>a d. lb_data lb a = Some d \<longrightarrow> 0 < pd_priority d \<and> pd_priority d \<le> int NN_PRIOLIST_SLOTS"
    by (simp add: lb_ok_def)
  have dom: "map_option pd_priority (lb_data lb' a) = map_option pd_priority (lb_data lb a)" for a
    using lb_run_send.hyps(2) advance_store
    by (auto simp: nn_lb_send_def split: bind_splits option.splits if_splits)
  have "0 < pd_priority d \<and> pd_priority d \<le> int NN_PRIOLIST_SLOTS" if "lb_data lb' a = Some d" for a d
    using dom [of a] that pr by (cases "lb_data lb a") auto
  moreover have "sched_ok (lb_data lb', lb_list lb')
      \<and> (\<forall>p \<in> sched_ready (lb_data lb', lb_list lb'). can_send s' p)"
    using nn_lb_send_step [OF lb_run_send.prems, of lb s m] ok lb_run_send.hyps(2)
    by (auto simp: lb_ok_def)
  ultimately show ?case by (simp add: lb_ok_def)
next
  case (lb_run_rm lb s a d lb')
  then have ok: "lb_ok lb s" by simp
  then have pok: "prio_ok (lb_data lb) (lb_list lb)" by (simp add: lb_ok_def sched_ok_def)
  let ?st = "(lb_data lb)(a \<mapsto> d\<lparr>pd_linked := False\<rparr>)"
  obtain p' where p': "nn_priolist_rm (lb_data lb) (lb_list lb) a = Some (?st, p')" "prio_ok ?st p'"
    using rm_ok [OF pok lb_run_rm.hyps(2)] by blast
  have lb': "lb' = \<lparr>lb_data = ?st, lb_list = p'\<rparr>" using lb_run_rm.hyps(3) p'(1) by (simp add: nn_lb_rm_def)
  have "one_item_each ?st"
    using ok lb_run_rm.hyps(2) by (auto simp: lb_ok_def sched_ok_def one_item_each_def split: if_splits)
  moreover have "sched_ready (?st, p') \<subseteq> sched_ready (lb_data lb, lb_list lb)"
    by (auto simp: sched_ready_def split: if_splits)
  ultimately show ?case using ok p'(2) lb_run_rm.hyps(2) by (auto simp: lb_ok_def lb' sched_ok_def)
qed

section \<open>Properties\<close>

text \<open>C13. Load balancing over live pipes: in every state the socket drives a load balancer and its
  pipes to, with any transport whose codes are flags, \<open>nn_lb_send\<close> ends without a failed
  assertion, in particular it never sends on a pipe whose last send is not over. It answers
  \<open>-EAGAIN\<close> exactly if no pipe is ready, and otherwise hands the message to one ready pipe, of the
  best priority among the ready ones.\<close>

theorem nn_lb_never_sends_on_a_busy_pipe:
  assumes "sane_transport T" and "lb_run T lb s"
  shows "(\<not> nn_lb_can_send lb \<and> nn_lb_send T lb m s = Some (- EAGAIN, None, lb, s))
    \<or> (\<exists>p a d rc lb' s'. nn_lb_can_send lb \<and> can_send s p
        \<and> nn_lb_send T lb m s = Some (rc, Some p, lb', s') \<and> 0 \<le> rc
        \<and> world s' = snd (snd (t_send T p m (world s)))
        \<and> lb_data lb a = Some d \<and> pd_linked d \<and> pd_pipe d = p
        \<and> (\<forall>b e. lb_data lb b = Some e \<and> pd_linked e \<longrightarrow> pd_priority d \<le> pd_priority e))"
proof -
  have ok: "lb_ok lb s" using lb_run_ok assms by blast
  then have pok: "prio_ok (lb_data lb) (lb_list lb)" and sok: "sched_ok (lb_data lb, lb_list lb)"
    and rdy: "\<forall>p \<in> sched_ready (lb_data lb, lb_list lb). can_send s p"
    by (auto simp: lb_ok_def sched_ok_def)
  have act: "sched_ready (lb_data lb, lb_list lb) = {} \<longleftrightarrow> \<not> nn_lb_can_send lb"
    using sched_ready_active [OF pok] by (simp add: nn_lb_can_send_def nn_priolist_is_active_def)
  from nn_lb_send_step [OF assms(1) sok rdy, of m] show ?thesis
  proof (elim disjE conjE exE)
    assume "sched_ready (lb_data lb, lb_list lb) = {}" "nn_lb_send T lb m s = Some (- EAGAIN, None, lb, s)"
    with act show ?thesis by blast
  next
    fix p rc lb' s'
    assume r: "p \<in> sched_ready (lb_data lb, lb_list lb)"
      "nn_priolist_getpipe (lb_data lb) (lb_list lb) = Some (Some p)"
      "nn_pipe_send T p m s = Some (rc, s')"
      "nn_lb_send T lb m s = Some (and rc (not NN_PIPE_RELEASE), Some p, lb', s')"
    have can: "nn_lb_can_send lb" using act r(1) by auto
    then have cur: "prio_current (lb_list lb) \<noteq> -1"
      by (simp add: nn_lb_can_send_def nn_priolist_is_active_def)
    obtain d where d: "lb_data lb (hd (service_order (lb_list lb))) = Some d" "pd_linked d"
      "pd_priority d = prio_current (lb_list lb)" "pd_pipe d = p"
      using getpipe_ok [OF pok cur] r(2) by auto
    have cs: "can_send s p" using rdy r(1) by blast
    obtain rc' s'' where "nn_pipe_send T p m s = Some (rc', s'')" "0 \<le> rc'"
      "world s'' = snd (snd (t_send T p m (world s)))"
      using pipe_send_ok [OF assms(1) cs, of m] by blast
    with r(3) have "0 \<le> rc" "world s' = snd (snd (t_send T p m (world s)))" by auto
    moreover have "0 \<le> and rc (not NN_PIPE_RELEASE)" using \<open>0 \<le> rc\<close> by simp
    ultimately show ?thesis
      using can cs r(4) d current_best [OF pok] by metis
  qed
qed

text \<open>A transport that completes every send at once, and counts them.\<close>

definition direct_transport :: "nat transport" where
  "direct_transport = \<lparr>t_send = (\<lambda>p m w. (0, True, w + 1)),
     t_recv = (\<lambda>p w. (0, plain_msg [], True, w + 1))\<rparr>"

lemma direct_sane: "sane_transport direct_transport"
  by (simp add: sane_transport_def direct_transport_def)

definition idle_pipe :: nn_pipebase where
  "idle_pipe = \<lparr>pb_state = P_ACTIVE, pb_instate = IN_ASYNC, pb_outstate = OUT_IDLE,
     pb_sndprio = 8, pb_rcvprio = 8\<rparr>"

definition one_pipe_lb :: nn_lb where
  "one_pipe_lb = the (nn_lb_out (nn_lb_add (nn_lb_init (\<lambda>_. None)) 0 7 8) 0)"

definition one_pipe :: "nat pipes" where
  "one_pipe = set_pipe \<lparr>pipe_at = (\<lambda>_. None), world = 0\<rparr> 7 idle_pipe"

lemma one_pipe_run: "lb_run direct_transport one_pipe_lb one_pipe" "nn_lb_can_send one_pipe_lb"
proof -
  let ?lb = "nn_lb_add (nn_lb_init (\<lambda>_. None)) 0 7 8"
  let ?d = "\<lparr>pd_pipe = 7, pd_priority = 8, pd_linked = False\<rparr>"
  have run: "lb_run direct_transport ?lb \<lparr>pipe_at = (\<lambda>_. None), world = 0\<rparr>"
    by (intro lb_run_add lb_run_init) (auto simp: nn_lb_init_def NN_PRIOLIST_SLOTS_def)
  have d: "lb_data ?lb 0 = Some ?d" by (simp add: nn_lb_add_def nn_priolist_add_def)
  obtain lb' where lb': "nn_lb_out ?lb 0 = Some lb'" "prio_current (lb_list lb') = 8"
    by (auto simp: nn_lb_out_def nn_lb_add_def nn_lb_init_def nn_priolist_add_def nn_priolist_init_def
        nn_priolist_activate_def get_slot_def peek_def set_slot_def NN_PRIOLIST_SLOTS_def Let_def)
  then have eq: "one_pipe_lb = lb'" by (simp add: one_pipe_lb_def)
  have "nn_pipebase_start (\<lambda>_. 0) (nn_pipebase_init 8 8) = Some (0, idle_pipe, [NN_PIPE_OUT])"
    by (simp add: nn_pipebase_start_def nn_pipebase_init_def idle_pipe_def)
  from lb_run_start [OF run d _ this lb'(1)] show "lb_run direct_transport one_pipe_lb one_pipe"
    by (simp add: eq one_pipe_def)
  show "nn_lb_can_send one_pipe_lb"
    using lb'(2) by (simp add: eq nn_lb_can_send_def nn_priolist_is_active_def)
qed

theorem nn_lb_never_sends_on_a_busy_pipe_witness:
  "\<exists>p rc lb' s'. can_send one_pipe p
    \<and> nn_lb_send direct_transport one_pipe_lb (plain_msg [1]) one_pipe = Some (rc, Some p, lb', s')
    \<and> world s' = 1"
proof -
  have w: "snd (snd (t_send direct_transport p m (world one_pipe))) = 1" for p m
    by (simp add: direct_transport_def one_pipe_def)
  show ?thesis
    using nn_lb_never_sends_on_a_busy_pipe [OF direct_sane one_pipe_run(1), of "plain_msg [1]"]
      one_pipe_run(2) unfolding w by blast
qed

end
