(* ===== verification/NN_Dist.thy ===== *)
theory NN_Dist
  imports NN_List NN_Pipe
begin

text \<open>
  \<open>protocols/utils/dist.c\<close> of nanomsg: distribution of a message to all pipes that can take one.
  The list is a sequence of \<open>NN_List\<close>; \<open>dd_linked\<close> tells whether an item is in it. The copies of
  the message are values. \<open>None\<close> is a failed assertion.
\<close>

section \<open>The code\<close>

record nn_dist_data =
  dd_pipe :: nat
  dd_linked :: bool

type_synonym dist_store = "nat \<Rightarrow> nn_dist_data option"

record nn_dist =
  dist_data :: dist_store
  dist_count :: u32
  dist_pipes :: "nat list"

definition nn_dist_init :: "dist_store \<Rightarrow> nn_dist" where
  "nn_dist_init st = \<lparr>dist_data = st, dist_count = 0, dist_pipes = []\<rparr>"

definition nn_dist_term :: "nn_dist \<Rightarrow> unit option" where
  "nn_dist_term self = (if dist_count self = 0 \<and> dist_pipes self = [] then Some () else None)"

definition nn_dist_add :: "nn_dist \<Rightarrow> nat \<Rightarrow> nat \<Rightarrow> nn_dist" where
  "nn_dist_add self data pipe =
     self\<lparr>dist_data := (dist_data self)(data \<mapsto> \<lparr>dd_pipe = pipe, dd_linked = False\<rparr>)\<rparr>"

definition nn_dist_rm :: "nn_dist \<Rightarrow> nat \<Rightarrow> nn_dist option" where
  "nn_dist_rm self data = do {
     d \<leftarrow> dist_data self data;
     Some (if dd_linked d
       then \<lparr>dist_data = (dist_data self)(data \<mapsto> d\<lparr>dd_linked := False\<rparr>),
         dist_count = dist_count self - 1, dist_pipes = seq_erase (dist_pipes self) data\<rparr>
       else self) }"

definition nn_dist_out :: "nn_dist \<Rightarrow> nat \<Rightarrow> nn_dist option" where
  "nn_dist_out self data = do {
     d \<leftarrow> dist_data self data;
     if dd_linked d then None
     else Some \<lparr>dist_data = (dist_data self)(data \<mapsto> d\<lparr>dd_linked := True\<rparr>),
       dist_count = dist_count self + 1, dist_pipes = seq_insert (dist_pipes self) data None\<rparr> }"

text \<open>
  The loop over the list. It only erases the item it stands on, so it visits the items of the list
  as it was; the result is the list of those that stay.
\<close>

fun dist_loop :: "'w transport \<Rightarrow> msg \<Rightarrow> nat option \<Rightarrow> dist_store \<Rightarrow> u32 \<Rightarrow> nat list \<Rightarrow> 'w pipes \<Rightarrow>
    (dist_store \<times> u32 \<times> nat list \<times> 'w pipes) option" where
  "dist_loop T m exclude st cnt [] s = Some (st, cnt, [], s)"
| "dist_loop T m exclude st cnt (it # rest) s = do {
     data \<leftarrow> st it;
     if Some (dd_pipe data) = exclude then do {
       (st, cnt, kept, s) \<leftarrow> dist_loop T m exclude st cnt rest s;
       Some (st, cnt, it # kept, s) }
     else do {
       (rc, s) \<leftarrow> nn_pipe_send T (dd_pipe data) m s;
       if rc < 0 then None
       else if released rc then
         if \<not> dd_linked data then None
         else dist_loop T m exclude (st(it \<mapsto> data\<lparr>dd_linked := False\<rparr>)) (cnt - 1) rest s
       else do {
         (st, cnt, kept, s) \<leftarrow> dist_loop T m exclude st cnt rest s;
         Some (st, cnt, it # kept, s) } } }"

definition nn_dist_send ::
  "'w transport \<Rightarrow> nn_dist \<Rightarrow> msg \<Rightarrow> nat option \<Rightarrow> 'w pipes \<Rightarrow> (int \<times> nn_dist \<times> 'w pipes) option" where
  "nn_dist_send T self m exclude s =
     (if dist_count self = 0 then Some (0, self, s)
      else do {
        (st, cnt, kept, s) \<leftarrow> dist_loop T m exclude (dist_data self) (dist_count self) (dist_pipes self) s;
        Some (0, \<lparr>dist_data = st, dist_count = cnt, dist_pipes = kept\<rparr>, s) })"

section \<open>What it does\<close>

text \<open>The pipes in the list, in order, and the pipes sent to.\<close>

definition dist_targets :: "nn_dist \<Rightarrow> nat list" where
  "dist_targets d = map (\<lambda>a. dd_pipe (the (dist_data d a))) (dist_pipes d)"

definition send_all :: "'w transport \<Rightarrow> msg \<Rightarrow> nat list \<Rightarrow> 'w \<Rightarrow> 'w" where
  "send_all T m ps w = fold (\<lambda>p w. snd (snd (t_send T p m w))) ps w"

lemma send_all_simps [simp]:
  "send_all T m [] w = w" "send_all T m (p # ps) w = send_all T m ps (snd (snd (t_send T p m w)))"
  by (simp_all add: send_all_def)

text \<open>Every linked item is in the list, once, and has a pipe of its own that is idle.\<close>

definition dist_ok :: "nn_dist \<Rightarrow> 'w pipes \<Rightarrow> bool" where
  "dist_ok d s \<longleftrightarrow> distinct (dist_pipes d)
     \<and> (\<forall>a. a \<in> set (dist_pipes d) \<longleftrightarrow> (\<exists>x. dist_data d a = Some x \<and> dd_linked x))
     \<and> (\<forall>a b x y. dist_data d a = Some x \<and> dist_data d b = Some y \<and> dd_pipe x = dd_pipe y \<longrightarrow> a = b)
     \<and> (\<forall>a x. a \<in> set (dist_pipes d) \<and> dist_data d a = Some x \<longrightarrow> can_send s (dd_pipe x))
     \<and> dist_count d = word_of_nat (length (dist_pipes d)) \<and> length (dist_pipes d) < 2 ^ 32"

definition items_ok :: "dist_store \<Rightarrow> nat list \<Rightarrow> 'w pipes \<Rightarrow> bool" where
  "items_ok st its s \<longleftrightarrow> distinct its
     \<and> (\<forall>a \<in> set its. \<exists>x. st a = Some x \<and> dd_linked x \<and> can_send s (dd_pipe x))
     \<and> (\<forall>a \<in> set its. \<forall>b \<in> set its. dd_pipe (the (st a)) = dd_pipe (the (st b)) \<longrightarrow> a = b)"

definition unlinked :: "nat set \<Rightarrow> dist_store \<Rightarrow> dist_store" where
  "unlinked S st = (\<lambda>a. if a \<in> S then map_option (\<lambda>x. x\<lparr>dd_linked := False\<rparr>) (st a) else st a)"

lemma unlinked_apply:
  "unlinked S st a = (if a \<in> S then map_option (\<lambda>x. x\<lparr>dd_linked := False\<rparr>) (st a) else st a)"
  by (simp add: unlinked_def)

text \<open>
  The loop sends to every pipe but the excluded one, unlinks those that are released, and keeps
  the rest, all idle.
\<close>

lemma dist_loop_ok:
  assumes T: "sane_transport T"
  shows "items_ok st its s \<Longrightarrow>
    \<exists>st' kept s'. dist_loop T m ex st cnt its s
        = Some (st', cnt - word_of_nat (length its - length kept), kept, s')
      \<and> items_ok st' kept s' \<and> set kept \<subseteq> set its \<and> length kept \<le> length its
      \<and> st' = unlinked (set its - set kept) st
      \<and> world s' = send_all T m (filter (\<lambda>p. Some p \<noteq> ex) (map (\<lambda>a. dd_pipe (the (st a))) its)) (world s)
      \<and> (\<forall>q. q \<notin> (\<lambda>a. dd_pipe (the (st a))) ` set its \<longrightarrow> pipe_at s' q = pipe_at s q)
      \<and> (\<forall>q. can_recv s' q \<longleftrightarrow> can_recv s q)"
proof (induction its arbitrary: st cnt s)
  case Nil
  have "unlinked {} st = st" by (simp add: unlinked_def)
  with Nil show ?case by (simp add: items_ok_def)
next
  case (Cons it rest)
  from Cons.prems obtain d where d: "st it = Some d" "dd_linked d" "can_send s (dd_pipe d)"
    and dis: "it \<notin> set rest" "distinct rest" by (auto simp: items_ok_def)
  have inj: "\<And>a. a \<in> set rest \<Longrightarrow> dd_pipe (the (st a)) \<noteq> dd_pipe d"
    using Cons.prems d(1) dis(1) by (fastforce simp: items_ok_def)
  have rest: "items_ok st rest s" using Cons.prems by (auto simp: items_ok_def)
  show ?case
  proof (cases "Some (dd_pipe d) = ex")
    case True
    obtain st' kept s' where r: "dist_loop T m ex st cnt rest s
        = Some (st', cnt - word_of_nat (length rest - length kept), kept, s')"
      "items_ok st' kept s'" "set kept \<subseteq> set rest" "length kept \<le> length rest"
      "st' = unlinked (set rest - set kept) st"
      "world s' = send_all T m (filter (\<lambda>p. Some p \<noteq> ex) (map (\<lambda>a. dd_pipe (the (st a))) rest)) (world s)"
      "\<forall>q. q \<notin> (\<lambda>a. dd_pipe (the (st a))) ` set rest \<longrightarrow> pipe_at s' q = pipe_at s q"
      "\<forall>q. can_recv s' q \<longleftrightarrow> can_recv s q"
      using Cons.IH [OF rest, of cnt] by blast
    have same: "dd_pipe (the (st' a)) = dd_pipe (the (st a))" if "a \<in> set kept" for a
      using that unfolding r(5) unlinked_apply by simp
    have it': "st' it = Some d" unfolding r(5) unlinked_apply using dis(1) d(1) by simp
    have "pipe_at s' (dd_pipe d) = pipe_at s (dd_pipe d)" using r(7) inj by force
    then have "items_ok st' (it # kept) s'"
      using r(2,3) d it' dis same inj by (fastforce simp: items_ok_def)
    moreover have "dist_loop T m ex st cnt (it # rest) s
        = Some (st', cnt - word_of_nat (length (it # rest) - length (it # kept)), it # kept, s')"
      using True d(1) r(1) by simp
    moreover have "st' = unlinked (set (it # rest) - set (it # kept)) st"
      unfolding r(5) using dis(1) by (auto simp: unlinked_def fun_eq_iff)
    moreover have "world s' = send_all T m (filter (\<lambda>p. Some p \<noteq> ex)
        (map (\<lambda>a. dd_pipe (the (st a))) (it # rest))) (world s)"
      using r(6) True d(1) by simp
    ultimately show ?thesis using r(3,4,7,8)
      by (intro exI [of _ st'] exI [of _ "it # kept"] exI [of _ s'] conjI) auto
  next
    case False
    obtain rc s1 where p: "nn_pipe_send T (dd_pipe d) m s = Some (rc, s1)" "0 \<le> rc"
      "released rc \<longleftrightarrow> \<not> can_send s1 (dd_pipe d)"
      "world s1 = snd (snd (t_send T (dd_pipe d) m (world s)))"
      "\<forall>q. q \<noteq> dd_pipe d \<longrightarrow> pipe_at s1 q = pipe_at s q" "\<forall>q. can_recv s1 q \<longleftrightarrow> can_recv s q"
      using pipe_send_ok [OF T d(3), of m] by blast
    define st1 where "st1 = (if released rc then st(it \<mapsto> d\<lparr>dd_linked := False\<rparr>) else st)"
    define cnt1 where "cnt1 = (if released rc then cnt - 1 else cnt)"
    have st1: "\<And>a. a \<in> set rest \<Longrightarrow> st1 a = st a" using dis(1) by (auto simp: st1_def)
    have "items_ok st1 rest s1"
      using rest st1 inj p(5) by (fastforce simp: items_ok_def)
    then obtain st' kept s' where r: "dist_loop T m ex st1 cnt1 rest s1
        = Some (st', cnt1 - word_of_nat (length rest - length kept), kept, s')"
      "items_ok st' kept s'" "set kept \<subseteq> set rest" "length kept \<le> length rest"
      "st' = unlinked (set rest - set kept) st1"
      "world s' = send_all T m (filter (\<lambda>p. Some p \<noteq> ex) (map (\<lambda>a. dd_pipe (the (st1 a))) rest)) (world s1)"
      "\<forall>q. q \<notin> (\<lambda>a. dd_pipe (the (st1 a))) ` set rest \<longrightarrow> pipe_at s' q = pipe_at s1 q"
      "\<forall>q. can_recv s' q \<longleftrightarrow> can_recv s1 q"
      using Cons.IH [of st1 s1 cnt1] by blast
    have mp: "map (\<lambda>a. dd_pipe (the (st1 a))) rest = map (\<lambda>a. dd_pipe (the (st a))) rest"
      "(\<lambda>a. dd_pipe (the (st1 a))) ` set rest = (\<lambda>a. dd_pipe (the (st a))) ` set rest"
      using st1 by auto
    have w: "world s' = send_all T m (filter (\<lambda>p. Some p \<noteq> ex)
        (map (\<lambda>a. dd_pipe (the (st a))) (it # rest))) (world s)"
      using r(6) p(4) False d(1) by (auto simp: mp)
    have frame: "\<forall>q. q \<notin> (\<lambda>a. dd_pipe (the (st a))) ` set (it # rest) \<longrightarrow> pipe_at s' q = pipe_at s q"
      using r(7) p(5) d(1) by (auto simp: mp)
    have recv: "\<forall>q. can_recv s' q \<longleftrightarrow> can_recv s q" using r(8) p(6) by simp
    show ?thesis
    proof (cases "released rc")
      case True
      have len: "length (it # rest) - length kept = Suc (length rest - length kept)" using r(4) by simp
      have "dist_loop T m ex st cnt (it # rest) s
          = Some (st', cnt - word_of_nat (length (it # rest) - length kept), kept, s')"
        using False True d p(1,2) r(1) unfolding len by (simp add: st1_def cnt1_def algebra_simps)
      moreover have "st' = unlinked (set (it # rest) - set kept) st"
        unfolding r(5) using r(3) True d(1) dis(1) by (auto simp: st1_def unlinked_def fun_eq_iff)
      ultimately show ?thesis using r(2,3,4) w frame recv by (intro exI [of _ st'] exI [of _ kept] exI [of _ s'] conjI) auto
    next
      case nrel: False
      then have cs: "can_send s1 (dd_pipe d)" using p(3) by simp
      have same: "dd_pipe (the (st' a)) = dd_pipe (the (st a))" if "a \<in> set kept" for a
        using r(3) that st1 unfolding r(5) unlinked_apply by auto
      have it': "st' it = Some d" unfolding r(5) unlinked_apply using dis(1) d(1) nrel by (simp add: st1_def)
      have "pipe_at s' (dd_pipe d) = pipe_at s1 (dd_pipe d)" using r(7) inj by (force simp: mp)
      then have "items_ok st' (it # kept) s'"
        using r(2,3) d it' dis same inj cs by (fastforce simp: items_ok_def)
      moreover have "dist_loop T m ex st cnt (it # rest) s
          = Some (st', cnt - word_of_nat (length (it # rest) - length (it # kept)), it # kept, s')"
        using False nrel d p(1,2) r(1) by (simp add: st1_def cnt1_def)
      moreover have "st' = unlinked (set (it # rest) - set (it # kept)) st"
        unfolding r(5) using nrel dis(1) by (auto simp: st1_def unlinked_def fun_eq_iff)
      ultimately show ?thesis using r(3,4) w frame recv
        by (intro exI [of _ st'] exI [of _ "it # kept"] exI [of _ s'] conjI) auto
    qed
  qed
qed


lemma dist_ok_init: "dist_ok (nn_dist_init (\<lambda>_. None)) s"
  by (simp add: dist_ok_def nn_dist_init_def)

lemma dist_ok_items: "dist_ok d s \<Longrightarrow> items_ok (dist_data d) (dist_pipes d) s"
proof -
  assume ok: "dist_ok d s"
  then have st: "\<And>a. a \<in> set (dist_pipes d) \<Longrightarrow> \<exists>x. dist_data d a = Some x \<and> dd_linked x \<and> can_send s (dd_pipe x)"
    by (fastforce simp: dist_ok_def)
  moreover have "a = b" if "a \<in> set (dist_pipes d)" "b \<in> set (dist_pipes d)"
    "dd_pipe (the (dist_data d a)) = dd_pipe (the (dist_data d b))" for a b
    using st [OF that(1)] st [OF that(2)] that(3) ok by (auto simp: dist_ok_def)
  ultimately show ?thesis using ok by (auto simp: items_ok_def dist_ok_def)
qed

lemma dist_ok_add:
  assumes "dist_ok d s" and "dist_data d a = None" and "\<And>b x. dist_data d b = Some x \<Longrightarrow> dd_pipe x \<noteq> p"
  shows "dist_ok (nn_dist_add d a p) s"
proof -
  have "a \<notin> set (dist_pipes d)" using assms(1,2) by (auto simp: dist_ok_def)
  with assms show ?thesis by (auto simp: dist_ok_def nn_dist_add_def)
qed

lemma dist_ok_rm:
  assumes ok: "dist_ok d s" and a: "dist_data d a = Some x"
  shows "\<exists>d'. nn_dist_rm d a = Some d' \<and> dist_ok d' s \<and> set (dist_pipes d') = set (dist_pipes d) - {a}
    \<and> (\<forall>b. map_option dd_pipe (dist_data d' b) = map_option dd_pipe (dist_data d b))"
proof (cases "dd_linked x")
  case False
  with ok a have "a \<notin> set (dist_pipes d)" by (auto simp: dist_ok_def)
  with False a ok show ?thesis by (simp add: nn_dist_rm_def)
next
  case True
  with ok a have inl: "a \<in> set (dist_pipes d)" and dis: "distinct (dist_pipes d)" by (auto simp: dist_ok_def)
  then have len: "Suc (length (seq_erase (dist_pipes d) a)) = length (dist_pipes d)"
    by (simp add: seq_erase_def length_remove1) (metis Suc_pred length_pos_if_in_set)
  have "dist_count d - 1 = word_of_nat (length (seq_erase (dist_pipes d) a))"
    using ok by (simp add: dist_ok_def flip: len)
  with True a ok dis len show ?thesis
    by (auto simp: nn_dist_rm_def dist_ok_def set_seq_erase distinct_seq_erase split: if_splits)
qed

lemma dist_ok_out:
  assumes ok: "dist_ok d s" and a: "dist_data d a = Some x" "\<not> dd_linked x"
    and s': "\<And>q. q \<noteq> dd_pipe x \<Longrightarrow> can_send s q \<Longrightarrow> can_send s' q" "can_send s' (dd_pipe x)"
    and len: "Suc (length (dist_pipes d)) < 2 ^ 32"
  shows "\<exists>d'. nn_dist_out d a = Some d' \<and> dist_ok d' s' \<and> dist_pipes d' = dist_pipes d @ [a]
    \<and> (\<forall>b. map_option dd_pipe (dist_data d' b) = map_option dd_pipe (dist_data d b))"
proof -
  have nin: "a \<notin> set (dist_pipes d)" using ok a by (auto simp: dist_ok_def)
  let ?d = "\<lparr>dist_data = (dist_data d)(a \<mapsto> x\<lparr>dd_linked := True\<rparr>),
    dist_count = dist_count d + 1, dist_pipes = dist_pipes d @ [a]\<rparr>"
  have "can_send s' (dd_pipe y)" if y: "b \<in> set (dist_pipes ?d)" "dist_data ?d b = Some y" for b y
  proof (cases "b = a")
    case True
    then have "y = x\<lparr>dd_linked := True\<rparr>" using y(2) by simp
    then show ?thesis using s'(2) by simp
  next
    case False
    then have b: "b \<in> set (dist_pipes d)" "dist_data d b = Some y" using y by auto
    then have "dd_pipe y \<noteq> dd_pipe x" using ok a(1) False unfolding dist_ok_def by metis
    with s'(1) b ok show ?thesis unfolding dist_ok_def by blast
  qed
  moreover have "b \<in> set (dist_pipes ?d) \<longleftrightarrow> (\<exists>y. dist_data ?d b = Some y \<and> dd_linked y)" for b
    using ok a(1) by (auto simp: dist_ok_def)
  moreover have "\<forall>b c y z. dist_data ?d b = Some y \<and> dist_data ?d c = Some z \<and> dd_pipe y = dd_pipe z \<longrightarrow> b = c"
    using ok a(1) by (auto simp: dist_ok_def split: if_splits)
  moreover have "distinct (dist_pipes ?d)" using ok nin by (simp add: dist_ok_def)
  moreover have "dist_count ?d = word_of_nat (length (dist_pipes ?d))" using ok by (simp add: dist_ok_def)
  moreover have "length (dist_pipes ?d) < 2 ^ 32" using len by simp
  ultimately have "dist_ok ?d s'" unfolding dist_ok_def by blast
  with a show ?thesis by (auto simp: nn_dist_out_def)
qed

lemma dist_send_ok:
  assumes T: "sane_transport T" and ok: "dist_ok d s"
  shows "\<exists>d' s'. nn_dist_send T d m ex s = Some (0, d', s') \<and> dist_ok d' s'
    \<and> set (dist_pipes d') \<subseteq> set (dist_pipes d)
    \<and> world s' = send_all T m (filter (\<lambda>p. Some p \<noteq> ex) (dist_targets d)) (world s)
    \<and> (\<forall>b. map_option dd_pipe (dist_data d' b) = map_option dd_pipe (dist_data d b))
    \<and> (\<forall>q. can_recv s' q \<longleftrightarrow> can_recv s q)
    \<and> (\<forall>q. q \<notin> set (dist_targets d) \<longrightarrow> pipe_at s' q = pipe_at s q)"
proof (cases "dist_pipes d = []")
  case True
  with ok show ?thesis by (simp add: nn_dist_send_def dist_ok_def dist_targets_def)
next
  case False
  have cnt: "dist_count d = word_of_nat (length (dist_pipes d))" "length (dist_pipes d) < 2 ^ 32"
    using ok by (auto simp: dist_ok_def)
  have "unat (dist_count d) = length (dist_pipes d)" using cnt by (simp add: unat_of_nat)
  then have nz: "dist_count d \<noteq> 0" using False by (auto simp: unsigned_eq_0_iff)
  obtain st' kept s' where r: "dist_loop T m ex (dist_data d) (dist_count d) (dist_pipes d) s
        = Some (st', dist_count d - word_of_nat (length (dist_pipes d) - length kept), kept, s')"
      "items_ok st' kept s'" "set kept \<subseteq> set (dist_pipes d)" "length kept \<le> length (dist_pipes d)"
      "st' = unlinked (set (dist_pipes d) - set kept) (dist_data d)"
      "world s' = send_all T m (filter (\<lambda>p. Some p \<noteq> ex) (dist_targets d)) (world s)"
      "\<forall>q. q \<notin> (\<lambda>a. dd_pipe (the (dist_data d a))) ` set (dist_pipes d) \<longrightarrow> pipe_at s' q = pipe_at s q"
      "\<forall>q. can_recv s' q \<longleftrightarrow> can_recv s q"
    using dist_loop_ok [OF T dist_ok_items [OF ok], of m ex "dist_count d"] unfolding dist_targets_def
    by blast
  let ?d = "\<lparr>dist_data = st', dist_count = dist_count d - word_of_nat (length (dist_pipes d) - length kept),
    dist_pipes = kept\<rparr>"
  have pipes: "map_option dd_pipe (st' b) = map_option dd_pipe (dist_data d b)" for b
    unfolding r(5) unlinked_apply by (cases "dist_data d b") auto
  have "a \<in> set kept \<longleftrightarrow> (\<exists>x. st' a = Some x \<and> dd_linked x)" for a
  proof -
    have "a \<in> set kept \<Longrightarrow> \<exists>x. st' a = Some x \<and> dd_linked x" using r(2) by (auto simp: items_ok_def)
    moreover have "a \<in> set kept" if "st' a = Some x" "dd_linked x" for x
      using that ok unfolding r(5) unlinked_apply by (auto simp: dist_ok_def split: if_splits)
    ultimately show ?thesis by blast
  qed
  moreover have "a = b" if "st' a = Some x" "st' b = Some y" "dd_pipe x = dd_pipe y" for a b x y
  proof -
    from that obtain x' y' where "dist_data d a = Some x'" "dist_data d b = Some y'" "dd_pipe x' = dd_pipe y'"
      using pipes [of a] pipes [of b] by (cases "dist_data d a"; cases "dist_data d b") auto
    with ok show ?thesis unfolding dist_ok_def by blast
  qed
  moreover have "can_send s' (dd_pipe x)" if "a \<in> set kept" "st' a = Some x" for a x
    using r(2) that by (auto simp: items_ok_def)
  moreover have "dist_count ?d = word_of_nat (length kept)"
    using cnt(1) r(4) by (simp add: of_nat_diff)
  moreover have "distinct kept" using r(2) by (simp add: items_ok_def)
  moreover have "length kept < 2 ^ 32" using cnt(2) r(4) by simp
  ultimately have "dist_ok ?d s'"
    unfolding dist_ok_def nn_dist.select_convs by blast
  with nz r pipes show ?thesis
    by (intro exI [of _ ?d] exI [of _ s']) (simp add: nn_dist_send_def dist_targets_def)
qed

section \<open>Properties\<close>

text \<open>C16. Distribution reaches every ready pipe once: for a distributor whose linked items have idle
  pipes of their own, and any transport whose codes are flags, \<open>nn_dist_send\<close> ends without a
  failed assertion, hands the message to exactly the pipes in its list, in order, except the
  excluded one, and leaves a distributor whose pipes are again all idle and counted right.\<close>

theorem nn_dist_reaches_all_but_excluded:
  assumes "sane_transport T" and "dist_ok d s"
  shows "\<exists>d' s'. nn_dist_send T d m ex s = Some (0, d', s') \<and> dist_ok d' s'
    \<and> world s' = send_all T m (filter (\<lambda>p. Some p \<noteq> ex) (dist_targets d)) (world s)
    \<and> set (dist_pipes d') \<subseteq> set (dist_pipes d)
    \<and> (\<forall>q. q \<notin> set (dist_targets d) \<longrightarrow> pipe_at s' q = pipe_at s q)"
  using dist_send_ok [OF assms, of m ex] by blast

text \<open>A transport that records where it sends what, and one distributor of three pipes.\<close>

definition log_transport :: "(nat \<times> msg) list transport" where
  "log_transport = \<lparr>t_send = (\<lambda>p m w. (0, p \<noteq> 2, w @ [(p, m)])),
     t_recv = (\<lambda>p w. (0, plain_msg [], True, w))\<rparr>"

definition three_pipes :: "(nat \<times> msg) list pipes" where
  "three_pipes = \<lparr>pipe_at = (\<lambda>p. if p < 3 then Some \<lparr>pb_state = P_ACTIVE, pb_instate = IN_ASYNC,
     pb_outstate = OUT_IDLE, pb_sndprio = 8, pb_rcvprio = 8\<rparr> else None), world = []\<rparr>"

definition three_dist :: nn_dist where
  "three_dist = \<lparr>dist_data = (\<lambda>a. if a < 3 then Some \<lparr>dd_pipe = a, dd_linked = True\<rparr> else None),
     dist_count = 3, dist_pipes = [0, 1, 2]\<rparr>"

theorem nn_dist_reaches_all_but_excluded_witness:
  "\<exists>d' s'. nn_dist_send log_transport three_dist (plain_msg [5]) (Some 1) three_pipes = Some (0, d', s')
    \<and> world s' = [(0, plain_msg [5]), (2, plain_msg [5])]"
proof -
  have "sane_transport log_transport" by (simp add: sane_transport_def log_transport_def)
  moreover have "dist_ok three_dist three_pipes"
    by (auto simp: dist_ok_def three_dist_def three_pipes_def split: if_splits)
  ultimately show ?thesis
    using nn_dist_reaches_all_but_excluded [of log_transport three_dist three_pipes "plain_msg [5]" "Some 1"]
    by (auto simp: dist_targets_def three_dist_def three_pipes_def log_transport_def)
qed

end
