(* ===== verification/NN_Trie.thy ===== *)
theory NN_Trie
  imports Getd_Prelude NN_Errno
begin

text \<open>
  The patricia trie of subscriptions, \<open>nanomsg-1.1.5/src/protocols/pubsub/trie.c\<close>.

  A node is the header \<open>nn_trie_node\<close> (reference count, prefix, and the union of the sparse and
  the dense form of its child index) together with the array of child pointers that follows it
  in memory. A pointer to a node is \<open>nn_trie_node option\<close>, \<open>None\<close> being NULL. The loops that walk
  down with a pointer to the slot of a node are recursions that put the new node back into its
  slot. A NULL that is dereferenced, a failed \<open>assert\<close> and a read outside an object give \<open>None\<close>.

  \<open>subs t s\<close> is the number of subscriptions to the string \<open>s\<close> that the trie \<open>t\<close> holds. The
  theorems say what subscribing, unsubscribing and matching do to it, and exactly where the code
  departs from it.
\<close>

section \<open>The trie\<close>

definition NN_TRIE_PREFIX_MAX :: nat where "NN_TRIE_PREFIX_MAX = 10"
definition NN_TRIE_SPARSE_MAX :: nat where "NN_TRIE_SPARSE_MAX = 8"

datatype trie_children =
  Sparse (sparse_children: "byte list")
| Dense (dense_min: byte) (dense_max: byte) (dense_nbr: "16 word")

datatype nn_trie_node =
  Node (refcount: u32) (prefix: "byte list") (children: trie_children)
    (child_ptrs: "nn_trie_node option list")

type_synonym nn_trie = "nn_trie_node option"

definition nn_trie_init :: nn_trie where
  "nn_trie_init = None"

definition nn_node_has_subscribers :: "nn_trie_node \<Rightarrow> bool" where
  "nn_node_has_subscribers node \<longleftrightarrow> refcount node \<noteq> 0"

fun nn_node_check_prefix :: "byte list \<Rightarrow> byte list \<Rightarrow> nat \<Rightarrow> nat option" where
  "nn_node_check_prefix [] data sz = Some 0"
| "nn_node_check_prefix (p # ps) data sz =
     (if sz = 0 then Some 0
      else case data of
        [] \<Rightarrow> None
      | d # ds \<Rightarrow>
          if p \<noteq> d then Some 0
          else do { i \<leftarrow> nn_node_check_prefix ps ds (sz - 1); Some (i + 1) })"

definition nn_node_child :: "nn_trie_node \<Rightarrow> nat \<Rightarrow> nn_trie option" where
  "nn_node_child self i = peek (child_ptrs self) i"

definition set_child :: "nn_trie_node \<Rightarrow> nat \<Rightarrow> nn_trie \<Rightarrow> nn_trie_node" where
  "set_child self i ch = Node (refcount self) (prefix self) (children self) ((child_ptrs self)[i := ch])"

fun index_of :: "byte \<Rightarrow> byte list \<Rightarrow> nat option" where
  "index_of c [] = None"
| "index_of c (d # ds) = (if d = c then Some 0 else map_option Suc (index_of c ds))"

fun node_next :: "trie_children \<Rightarrow> byte \<Rightarrow> nat option" where
  "node_next (Sparse cs) c = index_of c cs"
| "node_next (Dense mn mx nbr) c = (if c < mn \<or> c > mx then None else Some (unat c - unat mn))"

definition nn_node_next :: "nn_trie_node \<Rightarrow> byte \<Rightarrow> nat option" where
  "nn_node_next self c = node_next (children self) c"

definition nn_node_compact :: "nn_trie_node \<Rightarrow> nn_trie_node option" where
  "nn_node_compact self = (
     if nn_node_has_subscribers self then Some self
     else case children self of
       Sparse [c] \<Rightarrow> do {
         p \<leftarrow> nn_node_child self 0;
         ch \<leftarrow> p;
         if length (prefix self) + length (prefix ch) + 1 > NN_TRIE_PREFIX_MAX then Some self
         else Some (Node (refcount ch) (prefix self @ [c] @ prefix ch) (children ch) (child_ptrs ch)) }
     | _ \<Rightarrow> Some self)"

section \<open>Releasing the trie\<close>

fun child_count :: "trie_children \<Rightarrow> nat" where
  "child_count (Sparse cs) = length cs"
| "child_count (Dense mn mx nbr) = unat mx + 1 - unat mn"

text \<open>The result is the number of nodes given back to the allocator.\<close>

fun nn_node_term :: "nn_trie \<Rightarrow> nat option"
  and term_children :: "nat \<Rightarrow> nn_trie list \<Rightarrow> nat option" where
  "nn_node_term None = Some 0"
| "nn_node_term (Some (Node rc p ch ptrs)) =
     do { k \<leftarrow> term_children (child_count ch) ptrs; Some (k + 1) }"
| "term_children 0 ptrs = Some 0"
| "term_children (Suc n) [] = None"
| "term_children (Suc n) (x # xs) =
     do { k \<leftarrow> nn_node_term x; l \<leftarrow> term_children n xs; Some (k + l) }"

definition nn_trie_term :: "nn_trie \<Rightarrow> nat option" where
  "nn_trie_term self = nn_node_term self"

section \<open>Subscribing\<close>

text \<open>Step 5: the subscription as such, and whether it is a fresh one.\<close>

definition subscribe_here :: "nn_trie_node \<Rightarrow> int \<times> nn_trie_node" where
  "subscribe_here node = (
     let rc = refcount node + 1 in
     (if rc = 1 then 1 else 0, Node rc (prefix node) (children node) (child_ptrs node)))"

text \<open>Step 4: the nodes for what is left of the subscription.\<close>

function new_nodes :: "byte list \<Rightarrow> int \<times> nn_trie_node" where
  "new_nodes data = (
     let p = take NN_TRIE_PREFIX_MAX data; data' = drop NN_TRIE_PREFIX_MAX data in
     if length data > NN_TRIE_PREFIX_MAX then
       (let (r, node) = new_nodes (tl data') in (r, Node 0 p (Sparse [hd data']) [Some node]))
     else subscribe_here (Node 0 p (Sparse []) []))"
  by pat_completeness auto
termination
  by (relation "measure length") (auto simp: NN_TRIE_PREFIX_MAX_def)

declare new_nodes.simps [simp del]

text \<open>Step 3: a slot for the next character, in an array of children that grows.\<close>

definition grow_dense :: "byte \<Rightarrow> byte \<Rightarrow> byte \<Rightarrow> nn_trie list \<Rightarrow> byte \<times> byte \<times> nn_trie list" where
  "grow_dense mn mx c ptrs = (
     if c < mn \<or> c > mx then
       (let new_min = (if mn < c then mn else c);
            new_max = (if mx > c then mx else c);
            old_children = unat mx - unat mn + 1;
            new_children = unat new_max - unat new_min + 1 in
        if mn \<noteq> new_min
        then (new_min, new_max, replicate (unat mn - unat new_min) None @ take old_children ptrs)
        else (new_min, new_max, take old_children ptrs @ replicate (new_children - old_children) None))
     else (mn, mx, ptrs))"

definition sparse_range :: "byte list \<Rightarrow> byte \<Rightarrow> byte \<times> byte" where
  "sparse_range cs c = (
     let new_min = fold (\<lambda>c2 m. if m < c2 then m else c2) cs 255;
         new_max = fold (\<lambda>c2 m. if m > c2 then m else c2) cs 0 in
     (if new_min < c then new_min else c, if new_max > c then new_max else c))"

definition spread :: "byte \<Rightarrow> byte list \<Rightarrow> nn_trie list \<Rightarrow> nn_trie list \<Rightarrow> nn_trie list" where
  "spread mn cs ptrs dense = fold (\<lambda>(c, p) d. d[unat c - unat mn := p]) (zip cs ptrs) dense"

definition subscribe_child :: "nn_trie_node \<Rightarrow> byte list \<Rightarrow> int \<times> nn_trie_node" where
  "subscribe_child node data = (
     case data of
       [] \<Rightarrow> subscribe_here node
     | c # rest \<Rightarrow>
       (let (r, new) = new_nodes rest in
        case children node of
          Sparse cs \<Rightarrow>
            if length cs < NN_TRIE_SPARSE_MAX
            then (r, Node (refcount node) (prefix node) (Sparse (cs @ [c])) (child_ptrs node @ [Some new]))
            else
              (let (mn, mx) = sparse_range cs c;
                   ptrs = spread mn cs (child_ptrs node) (replicate (unat mx - unat mn + 1) None) in
               (r, Node 0 (prefix node) (Dense mn mx (word_of_nat (length cs) + 1))
                     (ptrs[unat c - unat mn := Some new])))
        | Dense mn mx nbr \<Rightarrow>
            (let (mn', mx', ptrs) = grow_dense mn mx c (child_ptrs node) in
             (r, Node (refcount node) (prefix node) (Dense mn' mx' (nbr + 1))
                   (ptrs[unat c - unat mn' := Some new])))))"

text \<open>Step 2: the prefix of a node is split after \<open>pos\<close> characters.\<close>

definition split_node :: "nn_trie_node \<Rightarrow> nat \<Rightarrow> nn_trie_node option" where
  "split_node ch pos = do {
     c \<leftarrow> peek (prefix ch) pos;
     ch' \<leftarrow> nn_node_compact (Node (refcount ch) (drop (pos + 1) (prefix ch)) (children ch) (child_ptrs ch));
     Some (Node 0 (take pos (prefix ch)) (Sparse [c]) [Some ch']) }"

text \<open>Step 1: the walk down to the node where the subscription ends or leaves the trie.\<close>

function subscribe_node :: "nn_trie \<Rightarrow> byte list \<Rightarrow> (int \<times> nn_trie_node) option" where
  "subscribe_node None data = Some (new_nodes data)"
| "subscribe_node (Some node) data = do {
     pos \<leftarrow> nn_node_check_prefix (prefix node) data (length data);
     let data' = drop pos data;
     if pos < length (prefix node)
     then do { node \<leftarrow> split_node node pos; Some (subscribe_child node data') }
     else case data' of
       [] \<Rightarrow> Some (subscribe_here node)
     | c # rest \<Rightarrow>
         (case nn_node_next node c of
            None \<Rightarrow> Some (subscribe_child node data')
          | Some i \<Rightarrow> do {
              p \<leftarrow> nn_node_child node i;
              if p = None then Some (subscribe_child node data')
              else do { (r, new) \<leftarrow> subscribe_node p rest; Some (r, set_child node i (Some new)) } }) }"
  by pat_completeness auto
termination
proof (relation "measure (length \<circ> snd)", simp)
  fix node data pos data' c rest i p y
  assume "data' = drop pos data" "data' = c # rest"
  then have "length (c # rest) \<le> length data" by (metis diff_le_self length_drop)
  then show "((p, rest), (Some node, data)) \<in> measure (length \<circ> snd)" by simp
qed

declare subscribe_node.simps(2) [simp del]

definition nn_trie_subscribe :: "nn_trie \<Rightarrow> byte list \<Rightarrow> (int \<times> nn_trie) option" where
  "nn_trie_subscribe self data = do { (r, node) \<leftarrow> subscribe_node self data; Some (r, Some node) }"

section \<open>Matching\<close>

text \<open>
  The message is the memory from \<open>data\<close> on to the end of its object, and its size, a \<open>size_t\<close>.
\<close>

function match_node :: "nn_trie \<Rightarrow> byte list \<Rightarrow> u64 \<Rightarrow> int option" where
  "match_node None data sz = Some 0"
| "match_node (Some node) data sz = do {
     pos \<leftarrow> nn_node_check_prefix (prefix node) data (unat sz);
     if pos \<noteq> length (prefix node) then Some 0
     else if nn_node_has_subscribers node then Some 1
     else case drop pos data of
       [] \<Rightarrow> None
     | c # rest \<Rightarrow>
         (case nn_node_next node c of
            None \<Rightarrow> match_node None rest (sz - word_of_nat pos - 1)
          | Some i \<Rightarrow> do { p \<leftarrow> nn_node_child node i; match_node p rest (sz - word_of_nat pos - 1) }) }"
  by pat_completeness auto
termination
proof (relation "measure (\<lambda>(_, data, _). length data)", simp)
  fix node data sz pos c rest
  assume "drop pos data = (c :: byte) # rest"
  then have "length (c # rest) \<le> length data" by (metis diff_le_self length_drop)
  then show "((None, rest, sz - word_of_nat pos - 1), (Some node, data, sz)) \<in> measure (\<lambda>(_, data, _). length data)"
    and "\<And>i p. ((p, rest, sz - word_of_nat pos - 1), (Some node, data, sz)) \<in> measure (\<lambda>(_, data, _). length data)"
    by simp_all
qed

declare match_node.simps(2) [simp del]

definition nn_trie_match :: "nn_trie \<Rightarrow> byte list \<Rightarrow> u64 \<Rightarrow> int option" where
  "nn_trie_match self data sz = match_node self data sz"

section \<open>Unsubscribing\<close>

definition unsubscribe_here :: "nn_trie \<Rightarrow> (int \<times> nn_trie) option" where
  "unsubscribe_here self = (
     case self of
       None \<Rightarrow> Some (- EINVAL, self)
     | Some node \<Rightarrow>
         if \<not> nn_node_has_subscribers node then Some (- EINVAL, self)
         else (let node = Node (refcount node - 1) (prefix node) (children node) (child_ptrs node) in
           if refcount node = 0 then
             (if children node = Sparse [] then Some (1, None)
              else do { node \<leftarrow> nn_node_compact node; Some (1, Some node) })
           else Some (0, Some node)))"

definition remove_nth :: "nat \<Rightarrow> 'a list \<Rightarrow> 'a list" where
  "remove_nth i xs = take i xs @ drop (i + 1) xs"

definition dense_to_sparse :: "byte \<Rightarrow> nn_trie list \<Rightarrow> (byte \<times> nn_trie) list" where
  "dense_to_sparse mn ptrs =
     filter (\<lambda>(c, p). p \<noteq> None) (map (\<lambda>(i, p). (word_of_nat i + mn, p)) (enumerate 0 ptrs))"

text \<open>The child for \<open>c\<close> is gone: its slot is removed, or the dense array is trimmed or converted.\<close>

definition prune :: "nn_trie_node \<Rightarrow> byte \<Rightarrow> (int \<times> nn_trie) option" where
  "prune node c = (
     case children node of
       Sparse cs \<Rightarrow> do {
         index \<leftarrow> index_of c cs;
         let node = Node (refcount node) (prefix node) (Sparse (remove_nth index cs))
                      (remove_nth index (child_ptrs node));
         if length cs = 1 \<and> \<not> nn_node_has_subscribers node then Some (1, None)
         else do { node \<leftarrow> nn_node_compact node; Some (1, Some node) } }
     | Dense mn mx nbr \<Rightarrow>
         if nbr > word_of_nat NN_TRIE_SPARSE_MAX + 1 then
           (if c = mn then
              (let i = length (takeWhile (\<lambda>p. p = None) (child_ptrs node)) in
               Some (1, Some (Node (refcount node) (prefix node) (Dense (word_of_nat i + mn) mx (nbr - 1))
                 (drop i (child_ptrs node)))))
            else if c = mx then
              (let i = length (dropWhile (\<lambda>p. p = None) (rev (child_ptrs node))) - 1 in
               Some (1, Some (Node (refcount node) (prefix node) (Dense mn (word_of_nat i + mn) (nbr - 1))
                 (take (i + 1) (child_ptrs node)))))
            else Some (1, Some (Node (refcount node) (prefix node) (Dense mn mx (nbr - 1)) (child_ptrs node))))
         else
           (let kids = dense_to_sparse mn (child_ptrs node) in
            if length kids = NN_TRIE_SPARSE_MAX
            then Some (1, Some (Node 0 (prefix node) (Sparse (map fst kids)) (map snd kids)))
            else None))"

function nn_node_unsubscribe :: "nn_trie \<Rightarrow> byte list \<Rightarrow> (int \<times> nn_trie) option" where
  "nn_node_unsubscribe self [] = unsubscribe_here self"
| "nn_node_unsubscribe None (d # ds) = None"
| "nn_node_unsubscribe (Some node) (d # ds) = do {
     pos \<leftarrow> nn_node_check_prefix (prefix node) (d # ds) (length (d # ds));
     if pos \<noteq> length (prefix node) then Some (0, Some node)
     else case drop pos (d # ds) of
       [] \<Rightarrow> unsubscribe_here (Some node)
     | c # rest \<Rightarrow>
         (case nn_node_next node c of
            None \<Rightarrow> Some (0, Some node)
          | Some i \<Rightarrow> do {
              p \<leftarrow> nn_node_child node i;
              (r, ch) \<leftarrow> nn_node_unsubscribe p rest;
              let node = set_child node i ch;
              if r = 0 then Some (0, Some node)
              else if ch \<noteq> None then Some (1, Some node)
              else prune node c }) }"
  by pat_completeness auto
termination
proof (relation "measure (length \<circ> snd)", simp)
  fix node and d :: byte and ds pos c rest i p
  assume "drop pos (d # ds) = c # rest"
  then have "length (c # rest) \<le> length (d # ds)" by (metis diff_le_self length_drop)
  then show "((p, rest), (Some node, d # ds)) \<in> measure (length \<circ> snd)" by simp
qed

declare nn_node_unsubscribe.simps(3) [simp del]

definition nn_trie_unsubscribe :: "nn_trie \<Rightarrow> byte list \<Rightarrow> (int \<times> nn_trie) option" where
  "nn_trie_unsubscribe self data = nn_node_unsubscribe self data"


section \<open>The children of a node\<close>

text \<open>The children as a function of the character, for both forms of the index.\<close>

definition kids :: "trie_children \<Rightarrow> nn_trie list \<Rightarrow> byte \<Rightarrow> nn_trie" where
  "kids ch ptrs c = (case node_next ch c of None \<Rightarrow> None | Some i \<Rightarrow> ptrs ! i)"

definition kid_set :: "(byte \<Rightarrow> nn_trie) \<Rightarrow> byte set" where
  "kid_set k = {c. k c \<noteq> None}"

fun shape_ok :: "trie_children \<Rightarrow> nn_trie list \<Rightarrow> bool" where
  "shape_ok (Sparse cs) ptrs \<longleftrightarrow>
     distinct cs \<and> length cs \<le> NN_TRIE_SPARSE_MAX \<and> length ptrs = length cs \<and> None \<notin> set ptrs"
| "shape_ok (Dense mn mx nbr) ptrs \<longleftrightarrow>
     mn \<le> mx \<and> length ptrs = unat mx - unat mn + 1 \<and>
     unat nbr = card (kid_set (kids (Dense mn mx nbr) ptrs)) \<and> NN_TRIE_SPARSE_MAX < unat nbr"

lemma index_of_eq_Some: "distinct cs \<Longrightarrow> index_of c cs = Some i \<longleftrightarrow> i < length cs \<and> cs ! i = c"
proof (induction cs arbitrary: i)
  case (Cons d ds)
  then show ?case by (cases i) (auto simp: in_set_conv_nth)
qed simp

lemma index_of_eq_None: "index_of c cs = None \<longleftrightarrow> c \<notin> set cs"
  by (induction cs) auto

lemma kids_sparse: "length ptrs = length cs \<Longrightarrow>
    kids (Sparse cs) ptrs c = (case map_of (zip cs ptrs) c of None \<Rightarrow> None | Some p \<Rightarrow> p)"
proof (induction cs ptrs rule: list_induct2')
  case (4 d ds p ps)
  then have IH: "kids (Sparse ds) ps c = (case map_of (zip ds ps) c of None \<Rightarrow> None | Some p \<Rightarrow> p)" by simp
  show ?case
  proof (cases "d = c")
    case False
    then have "kids (Sparse (d # ds)) (p # ps) c = kids (Sparse ds) ps c"
      by (simp add: kids_def split: option.split)
    with IH False show ?thesis by simp
  qed (simp add: kids_def)
qed (auto simp: kids_def)

lemma kids_dense: "kids (Dense mn mx nbr) ptrs c =
    (if mn \<le> c \<and> c \<le> mx then ptrs ! (unat c - unat mn) else None)"
  by (auto simp: kids_def not_less)

lemma kid_set_sparse:
  assumes "shape_ok (Sparse cs) ptrs"
  shows "kid_set (kids (Sparse cs) ptrs) = set cs"
proof -
  have "kids (Sparse cs) ptrs c \<noteq> None \<longleftrightarrow> c \<in> set cs" for c
  proof
    assume "c \<in> set cs"
    with assms obtain p where p: "map_of (zip cs ptrs) c = Some p"
      by (metis map_of_eq_None_iff map_fst_zip list.set_map not_None_eq shape_ok.simps(1))
    then have "p \<in> set ptrs" by (meson map_of_SomeD set_zip_rightD)
    with assms have "p \<noteq> None" by (metis shape_ok.simps(1))
    with assms p show "kids (Sparse cs) ptrs c \<noteq> None" by (simp add: kids_sparse)
  next
    assume "kids (Sparse cs) ptrs c \<noteq> None"
    then show "c \<in> set cs" by (auto simp: kids_def index_of_eq_None split: option.splits) (metis index_of_eq_None option.distinct(1))
  qed
  then show ?thesis by (auto simp: kid_set_def)
qed

lemma width_sparse: "shape_ok (Sparse cs) ptrs \<Longrightarrow> card (kid_set (kids (Sparse cs) ptrs)) = length cs"
  by (simp add: kid_set_sparse distinct_card)

lemma byte_index:
  assumes "mn \<le> mx" "length ptrs = unat mx - unat mn + 1" "mn \<le> (c :: byte)" "c \<le> mx"
  shows "unat c - unat mn < length ptrs"
  using assms by (simp add: word_le_nat_alt)

lemma shape_next:
  assumes "shape_ok ch ptrs" "node_next ch c = Some i"
  shows "i < length ptrs" "kids ch ptrs c = ptrs ! i"
proof -
  show "kids ch ptrs c = ptrs ! i" using assms(2) by (simp add: kids_def)
  show "i < length ptrs"
  proof (cases ch)
    case (Sparse cs)
    with assms show ?thesis by (simp add: index_of_eq_Some)
  next
    case (Dense mn mx nbr)
    with assms show ?thesis by (auto simp: word_le_nat_alt not_less split: if_splits)
  qed
qed

lemma node_next_None: "node_next ch c = None \<Longrightarrow> kids ch ptrs c = None"
  by (simp add: kids_def)

lemma kids_in_ptrs:
  assumes "shape_ok ch ptrs" "kids ch ptrs c = Some m"
  shows "Some m \<in> set ptrs"
proof -
  from assms(2) obtain i where "node_next ch c = Some i" "ptrs ! i = Some m"
    by (auto simp: kids_def split: option.splits)
  with shape_next[OF assms(1)] show ?thesis by (metis nth_mem)
qed

lemma ptrs_in_kids:
  assumes "shape_ok ch ptrs" "Some m \<in> set ptrs"
  shows "\<exists>c. kids ch ptrs c = Some m"
proof -
  from assms(2) obtain i where i: "i < length ptrs" "ptrs ! i = Some m" by (auto simp: in_set_conv_nth)
  show ?thesis
  proof (cases ch)
    case (Sparse cs)
    with assms(1) i have "index_of (cs ! i) cs = Some i" by (simp add: index_of_eq_Some)
    with Sparse i show ?thesis by (auto simp: kids_def intro: exI[of _ "cs ! i"])
  next
    case (Dense mn mx nbr)
    let ?c = "word_of_nat (unat mn + i) :: byte"
    have "unat mx < 2 ^ 8" using unsigned_less[of mx] by simp
    with assms(1) Dense i(1) have b: "unat mn + i \<le> unat mx" "unat mn + i < 2 ^ 8"
      by (auto simp: word_le_nat_alt)
    then have u: "unat ?c = unat mn + i" by (simp only: unat_of_nat take_bit_nat_eq_self_iff[THEN iffD2] unsigned_of_nat) (simp add: take_bit_nat_eq_self)
    have "unat mn + i \<le> unat mx" using b by simp
    then have "mn \<le> ?c" "?c \<le> mx" using u by (simp_all only: word_le_nat_alt)
    with Dense u i(2) show ?thesis by (intro exI[of _ ?c]) (simp add: kids_dense)
  qed
qed

lemma kids_update:
  assumes "shape_ok ch ptrs" "node_next ch c = Some i"
  shows "kids ch (ptrs[i := p]) = (kids ch ptrs)(c := p)"
proof
  fix d
  note i = shape_next(1)[OF assms]
  show "kids ch (ptrs[i := p]) d = ((kids ch ptrs)(c := p)) d"
  proof (cases "node_next ch d = Some i")
    case True
    have "d = c"
    proof (cases ch)
      case (Sparse cs)
      with assms True show ?thesis by (auto simp: index_of_eq_Some)
    next
      case (Dense mn mx nbr)
      with assms True have "unat c - unat mn = unat d - unat mn" "mn \<le> c" "mn \<le> d"
        by (auto split: if_splits)
      then show ?thesis by (metis le_add_diff_inverse word_le_nat_alt word_unat_eq_iff)
    qed
    with assms i show ?thesis by (simp add: kids_def)
  next
    case False
    with assms(2) show ?thesis by (auto simp: kids_def split: option.splits)
  qed
qed


section \<open>Adding and removing a child\<close>

definition dense_kids :: "byte \<Rightarrow> byte \<Rightarrow> nn_trie list \<Rightarrow> byte \<Rightarrow> nn_trie" where
  "dense_kids mn mx ptrs c = (if mn \<le> c \<and> c \<le> mx then ptrs ! (unat c - unat mn) else None)"

definition dense_shape :: "byte \<Rightarrow> byte \<Rightarrow> nn_trie list \<Rightarrow> bool" where
  "dense_shape mn mx ptrs \<longleftrightarrow> mn \<le> mx \<and> length ptrs = unat mx - unat mn + 1"

lemma kids_Dense: "kids (Dense mn mx nbr) ptrs = dense_kids mn mx ptrs"
  by (simp add: fun_eq_iff kids_dense dense_kids_def)

lemma shape_ok_Dense: "shape_ok (Dense mn mx nbr) ptrs \<longleftrightarrow>
    dense_shape mn mx ptrs \<and> unat nbr = card (kid_set (dense_kids mn mx ptrs)) \<and> NN_TRIE_SPARSE_MAX < unat nbr"
  by (simp add: kids_Dense dense_shape_def)

declare shape_ok.simps(2) [simp del]

lemma dense_update:
  assumes "dense_shape mn mx ptrs" "mn \<le> c" "c \<le> mx"
  shows "dense_kids mn mx (ptrs[unat c - unat mn := p]) = (dense_kids mn mx ptrs)(c := p)"
proof
  fix d
  have "unat c - unat mn = unat d - unat mn \<longleftrightarrow> c = d" if "mn \<le> d"
    using assms(2) that by (auto simp: word_le_nat_alt word_unat_eq_iff)
  with assms byte_index[of mn mx ptrs] show "dense_kids mn mx (ptrs[unat c - unat mn := p]) d = ((dense_kids mn mx ptrs)(c := p)) d"
    by (auto simp: dense_kids_def dense_shape_def nth_list_update)
qed

lemma dense_shape_update [simp]: "dense_shape mn mx (ptrs[i := p]) = dense_shape mn mx ptrs"
  by (simp add: dense_shape_def)

lemma card_kid_set_le: "card (kid_set k) \<le> 256"
proof -
  have "card (kid_set k) \<le> card (UNIV :: byte set)" by (rule card_mono) simp_all
  then show ?thesis by (simp add: card_word)
qed

lemma finite_kid_set [simp]: "finite (kid_set k)"
  by (rule finite_subset[OF subset_UNIV]) simp

lemma kid_set_add: "k c = None \<Longrightarrow> card (kid_set (k(c := Some m))) = card (kid_set k) + 1"
proof -
  assume "k c = None"
  then have "kid_set (k(c := Some m)) = insert c (kid_set k)" "c \<notin> kid_set k"
    by (auto simp: kid_set_def)
  then show ?thesis by simp
qed

lemma kid_set_del: "k c \<noteq> None \<Longrightarrow> card (kid_set (k(c := None))) = card (kid_set k) - 1"
proof -
  assume "k c \<noteq> None"
  then have "kid_set (k(c := None)) = kid_set k - {c}" "c \<in> kid_set k"
    by (auto simp: kid_set_def)
  then show ?thesis by simp
qed

lemma nbr_plus_one:
  assumes "unat (nbr :: 16 word) \<le> 256"
  shows "unat (nbr + 1) = unat nbr + 1"
proof -
  have "unat (1 :: 16 word) = 1" by simp
  with assms show ?thesis by (simp add: unat_word_ariths)
qed

lemma sparse_append:
  assumes "shape_ok (Sparse cs) ptrs" "kids (Sparse cs) ptrs c = None" "length cs < NN_TRIE_SPARSE_MAX"
  shows "shape_ok (Sparse (cs @ [c])) (ptrs @ [Some m])"
    and "kids (Sparse (cs @ [c])) (ptrs @ [Some m]) = (kids (Sparse cs) ptrs)(c := Some m)"
proof -
  have "c \<notin> kid_set (kids (Sparse cs) ptrs)" using assms(2) by (simp add: kid_set_def)
  then have c: "c \<notin> set cs" by (simp only: kid_set_sparse[OF assms(1)] not_False_eq_True)
  with assms show "shape_ok (Sparse (cs @ [c])) (ptrs @ [Some m])" by auto
  have l: "length ptrs = length cs" using assms(1) by simp
  have z: "map_of (zip cs ptrs) c = None" using c l by (simp add: map_of_zip_is_None)
  show "kids (Sparse (cs @ [c])) (ptrs @ [Some m]) = (kids (Sparse cs) ptrs)(c := Some m)"
  proof
    fix x
    have k: "kids (Sparse (cs @ [c])) (ptrs @ [Some m]) x =
        (case (map_of [(c, Some m)] ++ map_of (zip cs ptrs)) x of None \<Rightarrow> None | Some p \<Rightarrow> p)"
      using l by (subst kids_sparse) simp_all
    show "kids (Sparse (cs @ [c])) (ptrs @ [Some m]) x = ((kids (Sparse cs) ptrs)(c := Some m)) x"
      unfolding k using l z by (cases "x = c") (simp_all add: kids_sparse map_add_def del: map_of_zip_is_None map_of_eq_None_iff split: option.split)
  qed
qed

lemma grow_dense_spec:
  assumes "dense_shape mn mx ptrs" "grow_dense mn mx c ptrs = (mn', mx', ptrs')"
  shows "dense_shape mn' mx' ptrs'" "mn' \<le> c" "c \<le> mx'" "dense_kids mn' mx' ptrs' = dense_kids mn mx ptrs"
proof -
  consider (low) "c < mn" | (high) "mn \<le> c" "mx < c" | (inside) "mn \<le> c" "c \<le> mx" by (meson not_less)
  then have "dense_shape mn' mx' ptrs' \<and> mn' \<le> c \<and> c \<le> mx' \<and> dense_kids mn' mx' ptrs' = dense_kids mn mx ptrs"
  proof cases
    case low
    with assms have e: "mn' = c" "mx' = mx" "ptrs' = replicate (unat mn - unat c) None @ ptrs"
      by (auto simp: grow_dense_def dense_shape_def Let_def word_less_nat_alt word_le_nat_alt split: if_splits)
    have "dense_kids mn' mx' ptrs' d = dense_kids mn mx ptrs d" for d
      using low assms(1) unfolding e
      by (auto simp: dense_kids_def dense_shape_def nth_append word_less_nat_alt word_le_nat_alt)
    with low assms(1) e show ?thesis
      by (auto simp: dense_shape_def fun_eq_iff word_less_nat_alt word_le_nat_alt)
  next
    case high
    with assms have e: "mn' = mn" "mx' = c" "ptrs' = ptrs @ replicate (unat c - unat mx) None"
      by (auto simp: grow_dense_def dense_shape_def Let_def word_less_nat_alt word_le_nat_alt word_unat_eq_iff
          split: if_splits intro!: arg_cong[where f = "\<lambda>n. replicate n None"])
    have "dense_kids mn' mx' ptrs' d = dense_kids mn mx ptrs d" for d
      using high assms(1) unfolding e
      by (auto simp: dense_kids_def dense_shape_def nth_append word_less_nat_alt word_le_nat_alt)
    with high assms(1) e show ?thesis
      by (auto simp: dense_shape_def fun_eq_iff word_less_nat_alt word_le_nat_alt)
  next
    case inside
    then have "\<not> (c < mn \<or> c > mx)" by (simp add: not_less)
    with assms(2) have "mn' = mn" "mx' = mx" "ptrs' = ptrs" unfolding grow_dense_def by simp_all
    with inside assms(1) show ?thesis by simp
  qed
  then show "dense_shape mn' mx' ptrs'" "mn' \<le> c" "c \<le> mx'" "dense_kids mn' mx' ptrs' = dense_kids mn mx ptrs"
    by simp_all
qed

lemma fold_min_le: "(\<forall>d\<in>set cs. fold (\<lambda>c2 m. if m < c2 then m else c2) cs b \<le> d) \<and>
    fold (\<lambda>c2 m. if m < c2 then m else c2) cs b \<le> (b :: byte)"
proof (induction cs arbitrary: b)
  case (Cons d ds)
  from Cons.IH[of "if b < d then b else d"] show ?case by (auto split: if_splits)
qed simp

lemma fold_max_ge: "(\<forall>d\<in>set cs. d \<le> fold (\<lambda>c2 m. if m > c2 then m else c2) cs b) \<and>
    (b :: byte) \<le> fold (\<lambda>c2 m. if m > c2 then m else c2) cs b"
proof (induction cs arbitrary: b)
  case (Cons d ds)
  from Cons.IH[of "if b > d then b else d"] show ?case by (auto split: if_splits)
qed simp

lemma sparse_range_spec:
  assumes "sparse_range cs c = (mn, mx)"
  shows "mn \<le> c" "c \<le> mx" "\<forall>d\<in>set cs. mn \<le> d \<and> d \<le> mx"
  using assms fold_min_le[of cs 255] fold_max_ge[of cs 0]
  by (auto simp: sparse_range_def Let_def split: if_splits)

lemma spread_spec:
  assumes "length ptrs = length cs" "distinct cs" "\<forall>d\<in>set cs. mn \<le> d \<and> d \<le> mx" "dense_shape mn mx dense"
  shows "dense_shape mn mx (spread mn cs ptrs dense) \<and>
    (\<forall>c. dense_kids mn mx (spread mn cs ptrs dense) c =
      (case map_of (zip cs ptrs) c of None \<Rightarrow> dense_kids mn mx dense c | Some p \<Rightarrow> p))"
  using assms
proof (induction cs ptrs arbitrary: dense rule: list_induct2')
  case (4 d ds p ps)
  let ?dense = "dense[unat d - unat mn := p]"
  have s: "spread mn (d # ds) (p # ps) dense = spread mn ds ps ?dense" by (simp add: spread_def)
  have z: "map_of (zip ds ps) d = None" using 4 by (simp add: map_of_zip_is_None)
  have k: "dense_kids mn mx ?dense = (dense_kids mn mx dense)(d := p)" using 4 by (intro dense_update) auto
  have "dense_shape mn mx (spread mn ds ps ?dense) \<and> (\<forall>c. dense_kids mn mx (spread mn ds ps ?dense) c =
      (case map_of (zip ds ps) c of None \<Rightarrow> dense_kids mn mx ?dense c | Some p \<Rightarrow> p))"
    using 4 by (intro "4.IH") auto
  with s k z show ?case by (auto split: option.splits)
qed (simp_all add: spread_def)

section \<open>The subscriptions a trie holds\<close>

function subs :: "nn_trie \<Rightarrow> byte list \<Rightarrow> nat" where
  "subs None s = 0"
| "subs (Some node) s =
     (if take (length (prefix node)) s = prefix node
      then (case drop (length (prefix node)) s of
              [] \<Rightarrow> unat (refcount node)
            | c # r \<Rightarrow> subs (kids (children node) (child_ptrs node) c) r)
      else 0)"
  by pat_completeness auto
termination
proof (relation "measure (length \<circ> snd)", simp)
  fix node :: nn_trie_node and s :: "byte list" and c r
  assume "drop (length (prefix node)) s = c # r"
  then have "length (c # r) \<le> length s" by (metis diff_le_self length_drop)
  then show "((kids (children node) (child_ptrs node) c, r), (Some node, s)) \<in> measure (length \<circ> snd)"
    by simp
qed

declare subs.simps(2) [simp del]

definition subs_at :: "u32 \<Rightarrow> byte list \<Rightarrow> (byte \<Rightarrow> nn_trie) \<Rightarrow> byte list \<Rightarrow> nat" where
  "subs_at rc p k s = (if take (length p) s = p
     then (case drop (length p) s of [] \<Rightarrow> unat rc | c # r \<Rightarrow> subs (k c) r) else 0)"

lemma subs_Some: "subs (Some (Node rc p ch ptrs)) = subs_at rc p (kids ch ptrs)"
  by (rule ext) (simp add: subs.simps(2) subs_at_def cong: list.case_cong)

lemma subs_at_simps [simp]:
  "subs_at rc p k p = unat rc" "subs_at rc p k (p @ c # r) = subs (k c) r"
  by (simp_all add: subs_at_def)

lemma subs_at_cases [consumes 0, case_names here below off]:
  assumes "s = p \<Longrightarrow> P" "\<And>c r. s = p @ c # r \<Longrightarrow> P" "(\<And>k rc. subs_at rc p k s = 0) \<Longrightarrow> \<not> (\<exists>r. s = p @ r) \<Longrightarrow> P"
  shows P
proof (cases "take (length p) s = p")
  case True
  then have s: "s = p @ drop (length p) s" by (metis append_take_drop_id)
  show ?thesis
  proof (cases "drop (length p) s")
    case Nil
    with s assms(1) show ?thesis by simp
  next
    case (Cons c r)
    with s assms(2) show ?thesis by metis
  qed
next
  case False
  then show ?thesis by (intro assms(3)) (auto simp: subs_at_def)
qed

fun wf_node :: "nn_trie_node \<Rightarrow> bool" where
  "wf_node (Node rc p ch ptrs) \<longleftrightarrow>
     length p \<le> NN_TRIE_PREFIX_MAX \<and> shape_ok ch ptrs \<and> (rc \<noteq> 0 \<or> ptrs \<noteq> []) \<and>
     (\<forall>x\<in>set ptrs. \<forall>m\<in>set_option x. wf_node m)"

definition wf_trie :: "nn_trie \<Rightarrow> bool" where
  "wf_trie t \<longleftrightarrow> (\<forall>m\<in>set_option t. wf_node m)"

lemma wf_trie_simps [simp]: "wf_trie None" "wf_trie (Some n) = wf_node n"
  by (simp_all add: wf_trie_def)

lemma wf_kid: "wf_node (Node rc p ch ptrs) \<Longrightarrow> wf_trie (kids ch ptrs c)"
  using kids_in_ptrs[of ch ptrs c] by (cases "kids ch ptrs c") fastforce+

lemma wf_nodeI:
  assumes "length p \<le> NN_TRIE_PREFIX_MAX" "shape_ok ch ptrs" "rc \<noteq> 0 \<or> (\<exists>c. kids ch ptrs c \<noteq> None)"
    "\<And>c. wf_trie (kids ch ptrs c)"
  shows "wf_node (Node rc p ch ptrs)"
proof -
  have "rc \<noteq> 0 \<or> ptrs \<noteq> []" using assms(2,3) kids_in_ptrs by fastforce
  moreover have "wf_node m" if "Some m \<in> set ptrs" for m
    using ptrs_in_kids[OF assms(2) that] assms(4) by (metis wf_trie_simps(2))
  ultimately show ?thesis using assms(1,2) by fastforce
qed

lemma shape_has_kid:
  assumes "shape_ok ch ptrs" "ptrs \<noteq> []"
  shows "\<exists>c m. kids ch ptrs c = Some m"
proof (cases ch)
  case (Sparse cs)
  with assms obtain m where "Some m \<in> set ptrs" by (cases ptrs) (auto, metis not_None_eq)
  with ptrs_in_kids[OF assms(1)] show ?thesis by blast
next
  case (Dense mn mx nbr)
  with assms have "0 < card (kid_set (kids ch ptrs))" by (metis gr_zeroI shape_ok.simps(2) not_less0)
  then have "kid_set (kids ch ptrs) \<noteq> {}" by auto
  then show ?thesis by (auto simp: kid_set_def)
qed

lemma wf_has_kid:
  assumes "wf_node (Node rc p ch ptrs)" "rc = 0"
  shows "\<exists>c m. kids ch ptrs c = Some m"
  using assms shape_has_kid by simp

lemma wf_subs: "wf_node n \<Longrightarrow> \<exists>s. 0 < subs (Some n) s"
proof (induction n)
  case (Node rc p ch ptrs)
  show ?case
  proof (cases "rc = 0")
    case True
    then obtain c m where c: "kids ch ptrs c = Some m" using Node.prems wf_has_kid by blast
    have "shape_ok ch ptrs" using Node.prems by simp
    then have m: "Some m \<in> set ptrs" using c by (rule kids_in_ptrs)
    with Node.prems have "wf_node m" by fastforce
    with Node.IH m obtain s where "0 < subs (Some m) s" by fastforce
    with c show ?thesis by (intro exI[of _ "p @ c # s"]) (simp add: subs_Some)
  next
    case False
    then show ?thesis by (intro exI[of _ p]) (simp add: subs_Some unat_gt_0)
  qed
qed

lemma kids_empty [simp]: "kids (Sparse []) [] c = None"
  by (simp add: kids_def)

lemma kids_single [simp]: "kids (Sparse [c]) [p] d = (if d = c then p else None)"
  by (simp add: kids_def)

lemma new_nodes_spec: "new_nodes data = (r, n) \<Longrightarrow>
    r = 1 \<and> wf_node n \<and> (\<forall>s. subs (Some n) s = (if s = data then 1 else 0))"
proof (induction data arbitrary: r n rule: new_nodes.induct)
  case (1 data)
  let ?p = "take NN_TRIE_PREFIX_MAX data" and ?rest = "drop NN_TRIE_PREFIX_MAX data"
  show ?case
  proof (cases "NN_TRIE_PREFIX_MAX < length data")
    case True
    then obtain c d where d: "?rest = c # d" by (cases ?rest) auto
    obtain r' m where m: "new_nodes d = (r', m)" by fastforce
    have data: "data = ?p @ c # d" using d by (metis append_take_drop_id)
    have n: "r = r'" "n = Node 0 ?p (Sparse [c]) [Some m]"
      using "1.prems" True d m by (simp_all add: new_nodes.simps[of data])
    have IH: "r' = 1 \<and> wf_node m \<and> (\<forall>s. subs (Some m) s = (if s = d then 1 else 0))"
      using "1.IH"[of ?p ?rest r' m] True m d by simp
    have "subs (Some n) s = (if s = data then 1 else 0)" for s
    proof (cases rule: subs_at_cases[of s ?p])
      case here
      then have "length s < length data" using True by simp
      then have "s \<noteq> data" by blast
      with here show ?thesis by (simp add: n subs_Some del: length_take)
    next
      case (below e f)
      then have "s = data \<longleftrightarrow> e = c \<and> f = d" using data by (metis append_same_eq list.inject same_append_eq)
      with below IH show ?thesis by (simp add: n subs_Some)
    next
      case off
      then have "s \<noteq> data" using data by metis
      with off show ?thesis by (simp add: n subs_Some)
    qed
    moreover have "wf_node n" using IH True by (simp add: n NN_TRIE_SPARSE_MAX_def)
    ultimately show ?thesis using IH n by simp
  next
    case False
    then have "?p = data" by simp
    with "1.prems" False have n: "r = 1" "n = Node 1 data (Sparse []) []"
      by (auto simp: new_nodes.simps[of data] subscribe_here_def)
    have "subs (Some n) s = (if s = data then 1 else 0)" for s
      by (cases rule: subs_at_cases[of s data]) (auto simp: n subs_Some)
    moreover have "wf_node n" using False by (simp add: n NN_TRIE_SPARSE_MAX_def)
    ultimately show ?thesis using n by simp
  qed
qed

section \<open>Subscribing adds a subscription\<close>

lemma subs_at_join:
  assumes "subs (Some m) = subs_at rc q k"
  shows "subs_at 0 p (\<lambda>d. if d = c then Some m else None) = subs_at rc (p @ c # q) k"
proof
  fix s
  show "subs_at 0 p (\<lambda>d. if d = c then Some m else None) s = subs_at rc (p @ c # q) k s"
  proof (cases rule: subs_at_cases[of s p])
    case here
    have "subs_at rc (p @ c # q) k p = 0" by (simp add: subs_at_def)
    with here show ?thesis by simp
  next
    case (below d r)
    have "subs_at rc (p @ c # q) k (p @ d # r) = (if d = c then subs_at rc q k r else 0)"
      by (simp add: subs_at_def)
    with below assms show ?thesis by simp
  next
    case off
    then have "\<not> (\<exists>r. s = (p @ c # q) @ r)" by simp
    then have "subs_at rc (p @ c # q) k s = 0" by (metis subs_at_cases append_Nil2)
    with off show ?thesis by simp
  qed
qed

lemma nn_node_compact_spec:
  assumes "wf_node n"
  shows "\<exists>n'. nn_node_compact n = Some n' \<and> wf_node n' \<and> subs (Some n') = subs (Some n)"
proof (cases n)
  case (Node rc p ch ptrs)
  show ?thesis
  proof (cases "rc = 0 \<and> (\<exists>c. ch = Sparse [c])")
    case True
    then obtain c where c: "ch = Sparse [c]" by blast
    with assms Node obtain m where m: "ptrs = [Some m]" "wf_node m"
      by (cases ptrs) (auto, metis not_None_eq option.set_intros)
    obtain rcm pm chm ptrsm where n: "m = Node rcm pm chm ptrsm" by (cases m)
    let ?n' = "Node rcm (p @ [c] @ pm) chm ptrsm"
    show ?thesis
    proof (cases "length p + length pm + 1 > NN_TRIE_PREFIX_MAX")
      case True
      with assms Node c m n \<open>rc = 0 \<and> _\<close> show ?thesis
        by (simp add: nn_node_compact_def nn_node_has_subscribers_def nn_node_child_def peek_def)
    next
      case False
      with Node c m n \<open>rc = 0 \<and> _\<close> have "nn_node_compact (Node rc p ch ptrs) = Some ?n'"
        by (simp add: nn_node_compact_def nn_node_has_subscribers_def nn_node_child_def peek_def)
      moreover have "wf_node ?n'" using False m n by simp
      moreover have "subs (Some ?n') = subs (Some (Node rc p ch ptrs))"
      proof -
        have "kids (Sparse [c]) [Some m] = (\<lambda>d. if d = c then Some m else None)" by (rule ext) simp
        with subs_at_join[of m rcm pm "kids chm ptrsm" p c] n show ?thesis
          unfolding subs_Some m(1) c using \<open>rc = 0 \<and> _\<close> by (simp add: subs_Some)
      qed
      ultimately show ?thesis using Node by blast
    qed
  next
    case False
    then have "nn_node_compact n = Some n" using Node
      by (auto simp: nn_node_compact_def nn_node_has_subscribers_def split: trie_children.splits list.splits)
    with assms show ?thesis by blast
  qed
qed

lemma check_prefix_spec:
  assumes "sz \<le> length data"
  shows "\<exists>pos. nn_node_check_prefix p data sz = Some pos \<and> pos \<le> length p \<and> pos \<le> sz \<and>
    take pos p = take pos data \<and> (pos < length p \<longrightarrow> pos = sz \<or> p ! pos \<noteq> data ! pos)"
  using assms
proof (induction p data sz rule: nn_node_check_prefix.induct)
  case (2 p ps data sz)
  show ?case
  proof (cases "sz = 0")
    case False
    with "2.prems" obtain d ds where d: "data = d # ds" by (cases data) auto
    show ?thesis
    proof (cases "p = d")
      case True
      from False d "2.prems" have "sz - 1 \<le> length ds" by auto
      with "2.IH" False d True obtain pos where
        "nn_node_check_prefix ps ds (sz - 1) = Some pos" "pos \<le> length ps" "pos \<le> sz - 1"
        "take pos ps = take pos ds" "pos < length ps \<longrightarrow> pos = sz - 1 \<or> ps ! pos \<noteq> ds ! pos"
        by blast
      with False d True show ?thesis by (intro exI[of _ "pos + 1"]) auto
    next
      case f: False
      with False d show ?thesis by auto
    qed
  qed simp
qed simp

lemma check_prefix_full:
  assumes "nn_node_check_prefix p data (length data) = Some (length p)"
  shows "data = p @ drop (length p) data"
proof -
  from check_prefix_spec[of "length data" data p] assms have "take (length p) data = p" by auto
  then show ?thesis by (metis append_take_drop_id)
qed

lemma split_node_spec:
  assumes "wf_node n" "pos < length (prefix n)"
  shows "\<exists>m. split_node n pos = Some (Node 0 (take pos (prefix n)) (Sparse [prefix n ! pos]) [Some m]) \<and>
    wf_node m \<and> subs_at 0 (take pos (prefix n)) (\<lambda>d. if d = prefix n ! pos then Some m else None) = subs (Some n)"
proof (cases n)
  case (Node rc p ch ptrs)
  let ?n = "Node rc (drop (pos + 1) p) ch ptrs"
  have "wf_node ?n" using assms Node by auto
  then obtain m where m: "nn_node_compact ?n = Some m" "wf_node m" "subs (Some m) = subs (Some ?n)"
    using nn_node_compact_spec by blast
  have "take pos p @ p ! pos # drop (pos + 1) p = p" using assms Node by (simp add: Cons_nth_drop_Suc)
  with subs_at_join[of m rc "drop (pos + 1) p" "kids ch ptrs" "take pos p" "p ! pos"] m(3)
  have "subs_at 0 (take pos p) (\<lambda>d. if d = p ! pos then Some m else None) = subs (Some n)"
    by (simp add: subs_Some Node)
  moreover have "split_node n pos = Some (Node 0 (take pos p) (Sparse [p ! pos]) [Some m])"
    using assms Node m(1) by (simp add: split_node_def peek_def)
  ultimately show ?thesis using Node m(2) by auto
qed

lemma subscribe_child_spec:
  assumes wf: "shape_ok ch ptrs" and free: "kids ch ptrs c = None" and new: "new_nodes rest = (r, new)"
  shows "\<exists>ch' ptrs'. subscribe_child (Node rc p ch ptrs) (c # rest) =
      (r, Node (if card (kid_set (kids ch ptrs)) = NN_TRIE_SPARSE_MAX then 0 else rc) p ch' ptrs') \<and>
      shape_ok ch' ptrs' \<and> kids ch' ptrs' = (kids ch ptrs)(c := Some new)"
proof (cases ch)
  case (Sparse cs)
  have w: "card (kid_set (kids ch ptrs)) = length cs" using wf Sparse width_sparse by simp
  show ?thesis
  proof (cases "length cs < NN_TRIE_SPARSE_MAX")
    case True
    with Sparse wf free new w sparse_append[of cs ptrs c new] show ?thesis
      by (simp add: subscribe_child_def)
  next
    case False
    then have l: "length cs = NN_TRIE_SPARSE_MAX" using wf Sparse by simp
    obtain mn mx where r: "sparse_range cs c = (mn, mx)" by fastforce
    note r' = sparse_range_spec[OF r]
    define e where "e = replicate (Suc (unat mx - unat mn)) (None :: nn_trie)"
    let ?d = "spread mn cs ptrs e"
    let ?nbr = "word_of_nat (length cs) + 1 :: 16 word"
    have mn: "mn \<le> mx" using r' by order
    then have e: "dense_shape mn mx e" by (simp add: dense_shape_def e_def)
    have ek: "dense_kids mn mx e d = None" for d
    proof (cases "mn \<le> d \<and> d \<le> mx")
      case True
      then have "unat d - unat mn < Suc (unat mx - unat mn)" by (auto simp: word_le_nat_alt)
      then have "e ! (unat d - unat mn) = None" unfolding e_def by (rule nth_replicate)
      with True show ?thesis by (simp only: dense_kids_def if_True simp_thms)
    next
      case False
      then show ?thesis by (simp only: dense_kids_def if_False simp_thms)
    qed
    have lp: "length ptrs = length cs" and dc: "distinct cs" using wf Sparse by simp_all
    have sp: "dense_shape mn mx ?d" "dense_kids mn mx ?d = kids ch ptrs"
      using spread_spec[OF lp dc r'(3) e] lp by (simp_all add: fun_eq_iff kids_sparse Sparse ek cong: option.case_cong)
    let ?ptrs' = "?d[unat c - unat mn := Some new]"
    have k: "dense_kids mn mx ?ptrs' = (kids ch ptrs)(c := Some new)"
      using dense_update[OF sp(1) r'(1,2)] sp(2) by simp
    have nbr: "unat ?nbr = NN_TRIE_SPARSE_MAX + 1" by (simp add: l NN_TRIE_SPARSE_MAX_def)
    have "shape_ok (Dense mn mx ?nbr) ?ptrs'"
      using sp(1) nbr w l kid_set_add[where k = "kids ch ptrs" and m = new, OF free] by (simp add: shape_ok_Dense k)
    with l w r new k show ?thesis
      by (intro exI[of _ "Dense mn mx ?nbr"] exI[of _ ?ptrs']) (simp add: subscribe_child_def Sparse kids_Dense e_def del: replicate_Suc)
  qed
next
  case (Dense mn mx nbr)
  obtain mn' mx' ptrs1 where g: "grow_dense mn mx c ptrs = (mn', mx', ptrs1)" using prod_cases3 by blast
  have sh: "dense_shape mn mx ptrs" "unat nbr = card (kid_set (kids ch ptrs))" "NN_TRIE_SPARSE_MAX < unat nbr"
    using wf Dense by (simp_all add: shape_ok_Dense kids_Dense)
  note gs = grow_dense_spec[OF sh(1) g]
  let ?ptrs' = "ptrs1[unat c - unat mn' := Some new]"
  have k: "dense_kids mn' mx' ?ptrs' = (kids ch ptrs)(c := Some new)"
    using dense_update[OF gs(1-3)] gs(4) by (simp add: Dense kids_Dense)
  have "unat (nbr + 1) = unat nbr + 1" using sh(2) card_kid_set_le nbr_plus_one by simp
  then have "shape_ok (Dense mn' mx' (nbr + 1)) ?ptrs'"
    using gs(1) sh kid_set_add[where k = "kids ch ptrs" and m = new, OF free] by (simp add: shape_ok_Dense k)
  with sh new g k show ?thesis
    by (intro exI[of _ "Dense mn' mx' (nbr + 1)"] exI[of _ ?ptrs']) (simp add: subscribe_child_def Dense kids_Dense)
qed

text \<open>The characters that follow \<open>p\<close> in the strings of \<open>S\<close>.\<close>

definition next_bytes :: "(byte list \<Rightarrow> nat) \<Rightarrow> byte list \<Rightarrow> byte set" where
  "next_bytes S p = {c. \<exists>s. 0 < S (p @ c # s)}"

text \<open>A new string adds a ninth character after a string that is itself subscribed.\<close>

definition outgrows :: "(byte list \<Rightarrow> nat) \<Rightarrow> byte list \<Rightarrow> bool" where
  "outgrows S data \<longleftrightarrow> (\<exists>q c r. data = q @ c # r \<and> 0 < S q \<and>
     card (next_bytes S q) = NN_TRIE_SPARSE_MAX \<and> c \<notin> next_bytes S q)"

lemma next_bytes_here:
  assumes "\<And>c. wf_trie (k c)"
  shows "next_bytes (subs_at rc p k) p = kid_set k"
proof -
  have "(\<exists>s. 0 < subs (k c) s) \<longleftrightarrow> k c \<noteq> None" for c
    using assms[of c] wf_subs by (cases "k c") auto
  then show ?thesis by (simp add: next_bytes_def kid_set_def)
qed

lemma outgrows_here:
  assumes "\<And>c. wf_trie (k c)" "\<not> outgrows (subs_at rc p k) (p @ c # r)"
    "k c = None" "card (kid_set k) = NN_TRIE_SPARSE_MAX"
  shows "rc = 0"
proof -
  have "c \<notin> kid_set k" using assms(3) by (simp add: kid_set_def)
  with assms have "\<not> 0 < unat rc" unfolding outgrows_def
    by (metis next_bytes_here subs_at_simps(1))
  then show ?thesis by (simp add: unsigned_eq_0_iff)
qed

lemma outgrows_below:
  assumes "\<not> outgrows S (p @ c # r)"
  shows "\<not> outgrows (\<lambda>s. S (p @ c # s)) r"
proof
  assume "outgrows (\<lambda>s. S (p @ c # s)) r"
  then obtain q d s where q: "r = q @ d # s" "0 < S (p @ c # q)"
      "card (next_bytes (\<lambda>s. S (p @ c # s)) q) = NN_TRIE_SPARSE_MAX" "d \<notin> next_bytes (\<lambda>s. S (p @ c # s)) q"
    by (auto simp: outgrows_def)
  have "next_bytes (\<lambda>s. S (p @ c # s)) q = next_bytes S (p @ c # q)" by (simp add: next_bytes_def)
  with q have "outgrows S (p @ c # r)"
    unfolding outgrows_def by (intro exI[of _ "p @ c # q"] exI[of _ d] exI[of _ s]) simp
  with assms show False by blast
qed

lemma subs_at_update:
  assumes "subs x = (subs (k c))(r := v)"
  shows "subs_at rc p (k(c := x)) = (subs_at rc p k)(p @ c # r := v)"
proof
  fix s
  show "subs_at rc p (k(c := x)) s = ((subs_at rc p k)(p @ c # r := v)) s"
    by (cases rule: subs_at_cases[of s p]) (auto simp: assms)
qed

lemma subs_at_refcount: "unat rc' = v \<Longrightarrow> subs_at rc' p k = (subs_at rc p k)(p := v)"
proof
  fix s
  assume "unat rc' = v"
  then show "subs_at rc' p k s = ((subs_at rc p k)(p := v)) s"
    by (cases rule: subs_at_cases[of s p]) auto
qed

lemma subs_new_nodes: "new_nodes rest = (r, new) \<Longrightarrow> subs (Some new) = (subs None)(rest := 1)"
  using new_nodes_spec[of rest r new] by (auto simp: fun_eq_iff)

lemma subscribe_here_spec:
  assumes "wf_node (Node rc p ch ptrs)" "unat rc + 1 < 2 ^ 32"
  shows "\<exists>n'. subscribe_here (Node rc p ch ptrs) = (if rc = 0 then 1 else 0, n') \<and> wf_node n' \<and>
    subs (Some n') = (subs_at rc p (kids ch ptrs))(p := unat rc + 1)"
proof -
  have u: "unat (rc + 1) = unat rc + 1" using assms(2) by (simp add: unat_word_ariths)
  then have "rc + 1 \<noteq> 0" by (metis add_is_0 one_neq_zero unsigned_0)
  with assms(1) have "wf_node (Node (rc + 1) p ch ptrs)" by simp
  moreover have "subs (Some (Node (rc + 1) p ch ptrs)) = (subs_at rc p (kids ch ptrs))(p := unat rc + 1)"
    unfolding subs_Some by (rule subs_at_refcount[OF u])
  ultimately show ?thesis by (simp add: subscribe_here_def)
qed

lemma subscribe_child_adds:
  assumes wf: "shape_ok ch ptrs" "length p \<le> NN_TRIE_PREFIX_MAX" "\<And>c. wf_trie (kids ch ptrs c)"
    and free: "kids ch ptrs c = None"
    and keep: "card (kid_set (kids ch ptrs)) = NN_TRIE_SPARSE_MAX \<Longrightarrow> rc = 0"
  shows "\<exists>n'. subscribe_child (Node rc p ch ptrs) (c # rest) = (1, n') \<and> wf_node n' \<and>
    subs (Some n') = (subs_at rc p (kids ch ptrs))(p @ c # rest := 1)"
proof -
  obtain r new where new: "new_nodes rest = (r, new)" by fastforce
  have n: "r = 1" "wf_node new" "subs (Some new) = (subs (kids ch ptrs c))(rest := 1)"
    using new_nodes_spec[OF new] subs_new_nodes[OF new] free by simp_all
  have rc: "(if card (kid_set (kids ch ptrs)) = NN_TRIE_SPARSE_MAX then 0 else rc) = rc" using keep by simp
  obtain ch' ptrs' where s: "subscribe_child (Node rc p ch ptrs) (c # rest) = (r, Node rc p ch' ptrs')"
      "shape_ok ch' ptrs'" "kids ch' ptrs' = (kids ch ptrs)(c := Some new)"
    using subscribe_child_spec[OF wf(1) free new, of rc p] unfolding rc by blast
  have "wf_node (Node rc p ch' ptrs')"
    using wf n(2) s by (intro wf_nodeI) (auto simp: s(3))
  moreover have "subs (Some (Node rc p ch' ptrs')) = (subs_at rc p (kids ch ptrs))(p @ c # rest := 1)"
    unfolding subs_Some s(3) by (rule subs_at_update[where k = "kids ch ptrs", OF n(3)])
  ultimately show ?thesis using s(1) n(1) by simp
qed

lemma child_of_shape:
  assumes "shape_ok ch ptrs" "node_next ch c = Some i"
  shows "nn_node_child (Node rc p ch ptrs) i = Some (kids ch ptrs c)"
  using shape_next[OF assms] by (simp add: nn_node_child_def peek_def)

lemma shape_ok_replace:
  assumes "shape_ok ch ptrs" "node_next ch c = Some i" "kids ch ptrs c \<noteq> None"
  shows "shape_ok ch (ptrs[i := Some m])"
proof (cases ch)
  case (Sparse cs)
  with assms(1) set_update_subset_insert[of ptrs i "Some m"] show ?thesis by auto
next
  case (Dense mn mx nbr)
  have "kid_set ((kids ch ptrs)(c := Some m)) = kid_set (kids ch ptrs)"
    using assms(3) by (auto simp: kid_set_def)
  then have "card (kid_set (kids ch (ptrs[i := Some m]))) = card (kid_set (kids ch ptrs))"
    by (simp add: kids_update[OF assms(1,2)])
  with assms(1) Dense show ?thesis by (simp add: shape_ok_Dense kids_Dense)
qed

lemma set_child_wf:
  assumes "wf_node (Node rc p ch ptrs)" "node_next ch c = Some i" "kids ch ptrs c \<noteq> None" "wf_node m"
  shows "wf_node (set_child (Node rc p ch ptrs) i (Some m))"
proof -
  have sh: "shape_ok ch ptrs" using assms(1) by simp
  have k: "kids ch (ptrs[i := Some m]) = (kids ch ptrs)(c := Some m)" by (rule kids_update[OF sh assms(2)])
  have "wf_node (Node rc p ch (ptrs[i := Some m]))"
    using assms wf_kid[OF assms(1)] shape_ok_replace[OF sh assms(2,3)] k
    by (intro wf_nodeI) (auto intro: exI[of _ c])
  then show ?thesis by (simp add: set_child_def)
qed

lemma subs_set_child:
  assumes "shape_ok ch ptrs" "node_next ch c = Some i" "subs x = (subs (kids ch ptrs c))(r := v)"
  shows "subs (Some (set_child (Node rc p ch ptrs) i x)) = (subs_at rc p (kids ch ptrs))(p @ c # r := v)"
  using subs_at_update[where k = "kids ch ptrs" and c = c, OF assms(3)] kids_update[OF assms(1,2)]
  by (simp add: set_child_def subs_Some)

lemma subscribe_node_adds:
  assumes "wf_trie t" "\<not> outgrows (subs t) data" "subs t data + 1 < 2 ^ 32"
  shows "\<exists>n'. subscribe_node t data = Some (if subs t data = 0 then 1 else 0, n') \<and> wf_node n' \<and>
    subs (Some n') = (subs t)(data := subs t data + 1)"
  using assms
proof (induction t data rule: subscribe_node.induct)
  case (1 data)
  obtain r new where new: "new_nodes data = (r, new)" by fastforce
  with new_nodes_spec[OF new] show ?case by (auto simp: fun_eq_iff)
next
  case (2 node data)
  obtain rc p ch ptrs where n: "node = Node rc p ch ptrs" by (cases node)
  let ?k = "kids ch ptrs"
  have wf: "wf_node (Node rc p ch ptrs)" and sh: "shape_ok ch ptrs" and lp: "length p \<le> NN_TRIE_PREFIX_MAX"
    using "2.prems"(1) n by simp_all
  have subs: "subs (Some node) = subs_at rc p ?k" by (simp add: n subs_Some)
  obtain pos where pos: "nn_node_check_prefix p data (length data) = Some pos" "pos \<le> length p" "pos \<le> length data"
      "take pos p = take pos data" "pos < length p \<longrightarrow> pos = length data \<or> p ! pos \<noteq> data ! pos"
    using check_prefix_spec[of "length data" data p] by auto
  have data: "data = take pos p @ drop pos data" using pos(4) by (metis append_take_drop_id)
  show ?case
  proof (cases "pos < length p")
    case True
    let ?q = "take pos p"
    obtain m where m: "split_node node pos = Some (Node 0 ?q (Sparse [p ! pos]) [Some m])" "wf_node m"
        "subs_at 0 ?q (\<lambda>d. if d = p ! pos then Some m else None) = subs (Some node)"
      using split_node_spec[of node pos] wf n True by auto
    let ?n = "Node 0 ?q (Sparse [p ! pos]) [Some m]"
    have k: "kids (Sparse [p ! pos]) [Some m] = (\<lambda>d. if d = p ! pos then Some m else None)" by (rule ext) simp
    have wfn: "wf_node ?n" using m(2) lp True by (simp add: NN_TRIE_SPARSE_MAX_def)
    have subsn: "subs (Some node) = subs_at 0 ?q (kids (Sparse [p ! pos]) [Some m])" using m(3) k by simp
    have step: "subscribe_node (Some node) data = Some (subscribe_child ?n (drop pos data))"
      using True pos(1) m(1) by (simp add: subscribe_node.simps(2) n)
    show ?thesis
    proof (cases "drop pos data")
      case Nil
      then have d: "data = ?q" using data by simp
      then have z: "subs (Some node) data = 0" by (simp add: subsn del: take_append)
      have u: "unat (0 :: u32) + 1 < 2 ^ 32" by simp
      have "\<exists>n'. subscribe_here ?n = (1, n') \<and> wf_node n' \<and> subs (Some n') = (subs (Some node))(data := 0 + 1)"
        using subscribe_here_spec[OF wfn u] unfolding subsn d[symmetric] by simp
      then show ?thesis unfolding step z by (auto simp: Nil subscribe_child_def)
    next
      case (Cons c rest)
      have "data ! pos = c" using Cons by (metis nth_via_drop)
      then have c: "c \<noteq> p ! pos" using pos(3,5) True Cons by (metis drop_eq_Nil le_refl list.distinct(1))
      have d: "data = ?q @ c # rest" using data Cons by simp
      have z: "subs (Some node) data = 0" using c by (simp add: subsn d k del: take_append)
      have sh1: "shape_ok (Sparse [p ! pos]) [Some m]" by (simp add: NN_TRIE_SPARSE_MAX_def)
      have w: "card (kid_set (kids (Sparse [p ! pos]) [Some m])) \<noteq> NN_TRIE_SPARSE_MAX"
        using width_sparse[OF sh1] by (simp add: NN_TRIE_SPARSE_MAX_def)
      have "\<exists>n'. subscribe_child ?n (c # rest) = (1, n') \<and> wf_node n' \<and>
          subs (Some n') = (subs_at 0 ?q (kids (Sparse [p ! pos]) [Some m]))(?q @ c # rest := 1)"
        using c w m(2) lp True sh1 by (intro subscribe_child_adds) auto
      then show ?thesis unfolding step z subsn[symmetric] d[symmetric] Cons by auto
    qed
  next
    case False
    then have lpos: "pos = length p" using pos(2) by simp
    show ?thesis
    proof (cases "drop pos data")
      case Nil
      then have d: "data = p" using data lpos by simp
      have step: "subscribe_node (Some node) data = Some (subscribe_here node)"
        using pos(1) lpos Nil by (simp add: subscribe_node.simps(2) n)
      have rc: "subs (Some node) data = unat rc" by (simp add: subs d)
      then have "\<exists>n'. subscribe_here node = (if subs (Some node) data = 0 then 1 else 0, n') \<and> wf_node n' \<and>
          subs (Some n') = (subs (Some node))(data := subs (Some node) data + 1)"
        using subscribe_here_spec[OF wf] "2.prems"(3) unfolding rc unfolding d n by (auto simp: unsigned_eq_0_iff subs_Some)
      then show ?thesis unfolding step by (auto simp: fun_eq_iff)
    next
      case (Cons c rest)
      have d: "data = p @ c # rest" using data lpos Cons by simp
      have og: "\<not> outgrows (subs (?k c)) rest" using outgrows_below[of "subs (Some node)" p c rest] "2.prems"(2) by (simp add: subs d)
      have og': "card (kid_set ?k) = NN_TRIE_SPARSE_MAX \<Longrightarrow> ?k c = None \<Longrightarrow> rc = 0"
        using "2.prems"(2) outgrows_here[of ?k, OF wf_kid[OF wf]] by (simp add: subs d)
      have sd: "subs (Some node) data = subs (?k c) rest" by (simp add: subs d)
      show ?thesis
      proof (cases "?k c")
        case None
        have step: "subscribe_node (Some node) data = Some (subscribe_child (Node rc p ch ptrs) (c # rest))"
        proof (cases "node_next ch c")
          case (Some i)
          have "nn_node_child (Node rc p ch ptrs) i = Some None" using child_of_shape[OF sh Some] None by simp
          with Some None pos(1) lpos Cons show ?thesis
            by (simp add: subscribe_node.simps(2) n nn_node_next_def)
        qed (use pos(1) lpos Cons in \<open>simp add: subscribe_node.simps(2) n nn_node_next_def\<close>)
        have "\<exists>n'. subscribe_child (Node rc p ch ptrs) (c # rest) = (1, n') \<and> wf_node n' \<and>
            subs (Some n') = (subs_at rc p ?k)(p @ c # rest := 1)"
          using None og' sh lp wf_kid[OF wf] by (intro subscribe_child_adds) auto
        with None show ?thesis unfolding step sd by (auto simp: subs d)
      next
        case (Some m)
        then obtain i where i: "node_next ch c = Some i" by (metis kids_def option.case_eq_if option.distinct(1) option.exhaust)
        have child: "nn_node_child (Node rc p ch ptrs) i = Some (Some m)" using child_of_shape[OF sh i] Some by simp
        have "wf_trie (Some m)" using wf_kid[OF wf, of c] Some by simp
        moreover have "subs (Some m) rest + 1 < 2 ^ 32" using "2.prems"(3) sd Some by simp
        ultimately obtain n' where n': "subscribe_node (Some m) rest = Some (if subs (Some m) rest = 0 then 1 else 0, n')"
            "wf_node n'" "subs (Some n') = (subs (Some m))(rest := subs (Some m) rest + 1)"
          using "2.IH"[of pos "drop pos data" c rest i "Some m"] og Some pos(1) lpos Cons i child
          by (auto simp: fun_eq_iff n nn_node_next_def)
        have step: "subscribe_node (Some node) data =
            Some (if subs (Some m) rest = 0 then 1 else 0, set_child (Node rc p ch ptrs) i (Some n'))"
          using pos(1) lpos Cons i child n'(1) unfolding n by (subst subscribe_node.simps(2)) (simp add: nn_node_next_def)
        have "subs (Some (set_child (Node rc p ch ptrs) i (Some n'))) =
            (subs_at rc p ?k)(p @ c # rest := subs (Some m) rest + 1)"
          by (rule subs_set_child[OF sh i]) (simp add: Some n'(3))
        moreover have "wf_node (set_child (Node rc p ch ptrs) i (Some n'))"
          by (rule set_child_wf[OF wf i _ n'(2)]) (simp add: Some)
        ultimately show ?thesis unfolding step sd by (simp add: subs d Some fun_eq_iff)
      qed
    qed
  qed
qed

section \<open>Unsubscribing removes a subscription\<close>

lemma kids_split:
  assumes "length xs = length us" "length ys = length vs"
  shows "kids (Sparse (xs @ c # ys)) (us @ q # vs) d =
      (if d \<in> set xs then kids (Sparse xs) us d else if d = c then q else kids (Sparse ys) vs d)"
    and "kids (Sparse (xs @ ys)) (us @ vs) d =
      (if d \<in> set xs then kids (Sparse xs) us d else kids (Sparse ys) vs d)"
proof -
  have i: "index_of d (xs @ zs) = (case index_of d xs of Some j \<Rightarrow> Some j
      | None \<Rightarrow> map_option (\<lambda>j. length xs + j) (index_of d zs))" for zs
    by (cases "index_of d zs"; induction xs) (auto split: option.splits)
  have l: "j < length us" if "index_of d xs = Some j" for j
    using that assms(1) by (induction xs arbitrary: j us) (auto split: if_splits, metis Suc_length_conv not_less_eq)
  show "kids (Sparse (xs @ c # ys)) (us @ q # vs) d =
      (if d \<in> set xs then kids (Sparse xs) us d else if d = c then q else kids (Sparse ys) vs d)"
    using l assms index_of_eq_None[of d xs]
    by (auto simp: kids_def i nth_append split: option.splits)
  show "kids (Sparse (xs @ ys)) (us @ vs) d =
      (if d \<in> set xs then kids (Sparse xs) us d else kids (Sparse ys) vs d)"
    using l assms index_of_eq_None[of d xs]
    by (auto simp: kids_def i nth_append split: option.splits)
qed

lemma remove_nth_append [simp]: "remove_nth (length xs) (xs @ y # ys) = xs @ ys"
  by (simp add: remove_nth_def)

lemma sparse_remove:
  assumes sh: "shape_ok (Sparse cs) ptrs" and i: "index_of c cs = Some i"
  shows "shape_ok (Sparse (remove_nth i cs)) (remove_nth i (ptrs[i := p]))"
    "kids (Sparse (remove_nth i cs)) (remove_nth i (ptrs[i := p])) = (kids (Sparse cs) ptrs)(c := None)"
proof -
  have ii: "i < length cs" "cs ! i = c" using sh i by (simp_all add: index_of_eq_Some)
  define xs ys us vs q where "xs = take i cs" "ys = drop (Suc i) cs" "us = take i ptrs" "vs = drop (Suc i) ptrs" "q = ptrs ! i"
  note defs = this
  have cs: "cs = xs @ c # ys" and ptrs: "ptrs = us @ q # vs"
    using ii sh id_take_nth_drop[of i cs] id_take_nth_drop[of i ptrs] by (simp_all add: defs)
  have l: "length xs = i" "length us = i" "length ys = length vs" using ii sh by (simp_all add: defs)
  have r: "remove_nth i cs = xs @ ys" "remove_nth i (ptrs[i := p]) = us @ vs"
    using l by (simp_all add: cs ptrs remove_nth_def)
  show "shape_ok (Sparse (remove_nth i cs)) (remove_nth i (ptrs[i := p]))"
    using sh l unfolding r by (simp add: cs ptrs) 
  have "c \<notin> set xs" "c \<notin> set ys" using sh cs by auto
  moreover have "kids (Sparse ys) vs c = None" using \<open>c \<notin> set ys\<close> index_of_eq_None[of c ys] by (simp add: kids_def)
  ultimately show "kids (Sparse (remove_nth i cs)) (remove_nth i (ptrs[i := p])) = (kids (Sparse cs) ptrs)(c := None)"
    using kids_split(1)[of xs us ys vs c q] kids_split(2)[of xs us ys vs] l
    unfolding r by (auto simp: fun_eq_iff cs ptrs)
qed

lemma takeWhile_short: "\<not> (\<forall>x\<in>set xs. P x) \<Longrightarrow> length (takeWhile P xs) < length xs"
  by (induction xs) auto

lemma takeWhile_holds: "j < length (takeWhile P xs) \<Longrightarrow> P (xs ! j)"
  by (metis nth_mem set_takeWhileD takeWhile_nth)

lemma trim_left:
  assumes "dense_shape mn mx ptrs" "\<exists>c. dense_kids mn mx ptrs c \<noteq> None" "i = length (takeWhile (\<lambda>p. p = None) ptrs)"
  shows "dense_shape (word_of_nat i + mn) mx (drop i ptrs)"
    "dense_kids (word_of_nat i + mn) mx (drop i ptrs) = dense_kids mn mx ptrs"
proof -
  obtain c where c: "mn \<le> c" "c \<le> mx" "ptrs ! (unat c - unat mn) \<noteq> None"
    using assms(2) by (auto simp: dense_kids_def split: if_splits)
  have l: "length ptrs = unat mx - unat mn + 1" using assms(1) by (simp add: dense_shape_def)
  have mx: "unat mx < 2 ^ 8" using unsigned_less[of mx] by simp
  have "unat c - unat mn < length ptrs" using c l by (simp add: word_le_nat_alt)
  then have "\<not> (\<forall>x\<in>set ptrs. x = None)" using c(3) by (metis nth_mem)
  then have i: "i < length ptrs" unfolding assms(3) by (rule takeWhile_short)
  have none: "ptrs ! j = None" if "j < i" for j using that takeWhile_holds unfolding assms(3) by fast
  have b: "unat mn + i \<le> unat mx" "unat mn + i < 2 ^ 8" using i l assms(1) mx by (auto simp: dense_shape_def word_le_nat_alt)
  have "word_of_nat i + mn = (word_of_nat (unat mn + i) :: byte)" by simp
  then have u: "unat (word_of_nat i + mn) = unat mn + i"
    using b(2) by (simp only: unsigned_of_nat) (simp add: take_bit_nat_eq_self)
  show "dense_shape (word_of_nat i + mn) mx (drop i ptrs)"
    unfolding dense_shape_def word_le_nat_alt u using b l by simp
  have "(if unat mn + i \<le> unat d \<and> unat d \<le> unat mx then drop i ptrs ! (unat d - (unat mn + i)) else None) =
      (if unat mn \<le> unat d \<and> unat d \<le> unat mx then ptrs ! (unat d - unat mn) else None)" for d :: byte
    using none[of "unat d - unat mn"] i by auto
  then show "dense_kids (word_of_nat i + mn) mx (drop i ptrs) = dense_kids mn mx ptrs"
    unfolding fun_eq_iff dense_kids_def word_le_nat_alt u by blast
qed

lemma trim_right:
  assumes "dense_shape mn mx ptrs" "\<exists>c. dense_kids mn mx ptrs c \<noteq> None"
    "i = length (dropWhile (\<lambda>p. p = None) (rev ptrs)) - 1"
  shows "dense_shape mn (word_of_nat i + mn) (take (i + 1) ptrs)"
    "dense_kids mn (word_of_nat i + mn) (take (i + 1) ptrs) = dense_kids mn mx ptrs"
proof -
  let ?t = "length (takeWhile (\<lambda>p. p = None) (rev ptrs))"
  obtain c where c: "mn \<le> c" "c \<le> mx" "ptrs ! (unat c - unat mn) \<noteq> None"
    using assms(2) by (auto simp: dense_kids_def split: if_splits)
  have l: "length ptrs = unat mx - unat mn + 1" using assms(1) by (simp add: dense_shape_def)
  have mx: "unat mx < 2 ^ 8" using unsigned_less[of mx] by simp
  have "unat c - unat mn < length ptrs" using c l by (simp add: word_le_nat_alt)
  then have "\<not> (\<forall>x\<in>set (rev ptrs). x = None)" using c(3) by (metis nth_mem set_rev)
  from takeWhile_short[OF this] have t: "?t < length ptrs" by (simp only: length_rev)
  have "length (dropWhile (\<lambda>p. p = None) (rev ptrs)) = length ptrs - ?t"
    by (simp add: dropWhile_eq_drop)
  then have it: "i + 1 + ?t = length ptrs" using t assms(3) by simp
  have none: "ptrs ! j = None" if "i < j" "j < length ptrs" for j
  proof -
    have "length ptrs - 1 - j < ?t" using that it by simp
    then have "rev ptrs ! (length ptrs - 1 - j) = None" by (rule takeWhile_holds)
    then show ?thesis using that by (simp add: rev_nth)
  qed
  have b: "unat mn + i \<le> unat mx" "unat mn + i < 2 ^ 8" using it l assms(1) mx by (auto simp: dense_shape_def word_le_nat_alt)
  have "word_of_nat i + mn = (word_of_nat (unat mn + i) :: byte)" by simp
  then have u: "unat (word_of_nat i + mn) = unat mn + i"
    using b(2) by (simp only: unsigned_of_nat) (simp add: take_bit_nat_eq_self)
  show "dense_shape mn (word_of_nat i + mn) (take (i + 1) ptrs)"
    unfolding dense_shape_def word_le_nat_alt u using b l by simp
  have "(if unat mn \<le> unat d \<and> unat d \<le> unat mn + i then take (i + 1) ptrs ! (unat d - unat mn) else None) =
      (if unat mn \<le> unat d \<and> unat d \<le> unat mx then ptrs ! (unat d - unat mn) else None)" for d :: byte
    using none[of "unat d - unat mn"] it l b by auto
  then show "dense_kids mn (word_of_nat i + mn) (take (i + 1) ptrs) = dense_kids mn mx ptrs"
    unfolding fun_eq_iff dense_kids_def word_le_nat_alt u by blast
qed

lemma dense_to_sparse_spec:
  assumes "dense_shape mn mx ptrs"
  shows dense_to_sparse_distinct: "distinct (map fst (dense_to_sparse mn ptrs))"
    and dense_to_sparse_set: "(c, p) \<in> set (dense_to_sparse mn ptrs) \<longleftrightarrow> p \<noteq> None \<and> dense_kids mn mx ptrs c = p"
proof -
  have l: "length ptrs = unat mx - unat mn + 1" "unat mn \<le> unat mx" using assms by (simp_all add: dense_shape_def word_le_nat_alt)
  have mx: "unat mx < 2 ^ 8" using unsigned_less[of mx] by simp
  have u: "unat (word_of_nat i + mn) = unat mn + i" if "i < length ptrs" for i
  proof -
    have "word_of_nat i + mn = (word_of_nat (unat mn + i) :: byte)" by simp
    moreover have "unat mn + i < 2 ^ 8" using that l mx by simp
    ultimately show ?thesis by (simp only: unsigned_of_nat) (simp add: take_bit_nat_eq_self)
  qed
  have "inj_on (\<lambda>i. word_of_nat i + mn) {0..<length ptrs}"
    by (rule inj_onI) (metis add_left_cancel atLeastLessThan_iff u)
  then have "distinct (map (\<lambda>i. word_of_nat i + mn) [0..<length ptrs])" by (simp add: distinct_map)
  then have "distinct (map fst (map (\<lambda>(i, p). (word_of_nat i + mn, p)) (enumerate 0 ptrs)))"
  proof -
    assume "distinct (map (\<lambda>i. word_of_nat i + mn) [0..<length ptrs])"
    moreover have "map fst (map (\<lambda>(i, p). (word_of_nat i + mn, p)) (enumerate 0 ptrs)) =
        map (\<lambda>i. word_of_nat i + mn) (map fst (zip [0..<length ptrs] ptrs))"
      by (simp add: enumerate_eq_zip comp_def case_prod_beta del: map_fst_zip)
    ultimately show ?thesis by simp
  qed
  then show "distinct (map fst (dense_to_sparse mn ptrs))"
    unfolding dense_to_sparse_def by (rule distinct_map_filter)
  have "(\<exists>i<length ptrs. c = word_of_nat i + mn \<and> p = ptrs ! i) \<longleftrightarrow> mn \<le> c \<and> c \<le> mx \<and> ptrs ! (unat c - unat mn) = p"
  proof
    assume "\<exists>i<length ptrs. c = word_of_nat i + mn \<and> p = ptrs ! i"
    then show "mn \<le> c \<and> c \<le> mx \<and> ptrs ! (unat c - unat mn) = p" using l by (auto simp: word_le_nat_alt u)
  next
    assume a: "mn \<le> c \<and> c \<le> mx \<and> ptrs ! (unat c - unat mn) = p"
    then have "unat c - unat mn < length ptrs" using l by (auto simp: word_le_nat_alt)
    moreover have "c = word_of_nat (unat c - unat mn) + mn"
      using a u[OF calculation] by (simp add: word_unat_eq_iff word_le_nat_alt)
    ultimately show "\<exists>i<length ptrs. c = word_of_nat i + mn \<and> p = ptrs ! i" using a by blast
  qed
  moreover have "(c, p) \<in> set (dense_to_sparse mn ptrs) \<longleftrightarrow>
      p \<noteq> None \<and> (\<exists>i<length ptrs. c = word_of_nat i + mn \<and> p = ptrs ! i)"
  proof -
    have "(c, p) \<in> set (dense_to_sparse mn ptrs) \<longleftrightarrow>
        p \<noteq> None \<and> (\<exists>i q. (i, q) \<in> set (enumerate 0 ptrs) \<and> c = word_of_nat i + mn \<and> p = q)"
      unfolding dense_to_sparse_def by force
    then show ?thesis by (simp add: in_set_enumerate_eq)
  qed
  ultimately show "(c, p) \<in> set (dense_to_sparse mn ptrs) \<longleftrightarrow> p \<noteq> None \<and> dense_kids mn mx ptrs c = p"
    by (auto simp: dense_kids_def)
qed

lemma convert_sparse:
  assumes "dense_shape mn mx ptrs" "card (kid_set (dense_kids mn mx ptrs)) = NN_TRIE_SPARSE_MAX"
  shows "length (dense_to_sparse mn ptrs) = NN_TRIE_SPARSE_MAX"
    "shape_ok (Sparse (map fst (dense_to_sparse mn ptrs))) (map snd (dense_to_sparse mn ptrs))"
    "kids (Sparse (map fst (dense_to_sparse mn ptrs))) (map snd (dense_to_sparse mn ptrs)) = dense_kids mn mx ptrs"
proof -
  let ?l = "dense_to_sparse mn ptrs"
  note d = dense_to_sparse_distinct[OF assms(1)]
  note m = dense_to_sparse_set[OF assms(1)]
  have "fst ` set ?l = kid_set (dense_kids mn mx ptrs)"
  proof (intro set_eqI iffI)
    fix x
    assume "x \<in> kid_set (dense_kids mn mx ptrs)"
    then have "(x, dense_kids mn mx ptrs x) \<in> set ?l" by (simp add: m kid_set_def)
    then show "x \<in> fst ` set ?l" by force
  qed (auto simp: m kid_set_def)
  then show l: "length ?l = NN_TRIE_SPARSE_MAX" using distinct_card[OF d] assms(2) by simp
  show "shape_ok (Sparse (map fst ?l)) (map snd ?l)" using d l m by auto
  have "kids (Sparse (map fst ?l)) (map snd ?l) c = dense_kids mn mx ptrs c" for c
  proof -
    have "kids (Sparse (map fst ?l)) (map snd ?l) c = (case map_of ?l c of None \<Rightarrow> None | Some p \<Rightarrow> p)"
      by (subst kids_sparse) (simp_all add: zip_map_fst_snd)
    also have "\<dots> = dense_kids mn mx ptrs c"
    proof (cases "map_of ?l c")
      case None
      then have "c \<notin> fst ` set ?l" by (simp add: map_of_eq_None_iff)
      then have "dense_kids mn mx ptrs c = None" using m by force
      with None show ?thesis by simp
    next
      case (Some p)
      then have "(c, p) \<in> set ?l" by (rule map_of_SomeD)
      with m Some show ?thesis by simp
    qed
    finally show ?thesis .
  qed
  then show "kids (Sparse (map fst ?l)) (map snd ?l) = dense_kids mn mx ptrs" by blast
qed

lemma subs_at_none: "kid_set k = {} \<Longrightarrow> subs_at 0 p k = subs None"
proof
  fix s
  assume "kid_set k = {}"
  then have "k c = None" for c by (auto simp: kid_set_def)
  then show "subs_at 0 p k s = subs None s"
    by (cases rule: subs_at_cases[of s p]) auto
qed

lemma prune_spec:
  assumes wf: "wf_node (Node rc p ch ptrs)" and i: "node_next ch c = Some i" and kid: "kids ch ptrs c \<noteq> None"
    and keep: "card (kid_set ((kids ch ptrs)(c := None))) = NN_TRIE_SPARSE_MAX \<Longrightarrow> rc = 0"
  shows "\<exists>t'. prune (set_child (Node rc p ch ptrs) i None) c = Some (1, t') \<and> wf_trie t' \<and>
    subs t' = subs_at rc p ((kids ch ptrs)(c := None))"
proof -
  let ?k = "(kids ch ptrs)(c := None)"
  have sh: "shape_ok ch ptrs" and lp: "length p \<le> NN_TRIE_PREFIX_MAX" using wf by simp_all
  have wfk: "wf_trie (?k d)" for d using wf_kid[OF wf, of d] by simp
  have w: "card (kid_set ?k) = card (kid_set (kids ch ptrs)) - 1" by (rule kid_set_del[where k = "kids ch ptrs", OF kid])
  have node: "set_child (Node rc p ch ptrs) i None = Node rc p ch (ptrs[i := None])" by (simp add: set_child_def)
  have built: "wf_node (Node rc p ch' ptrs')" if "shape_ok ch' ptrs'" "kids ch' ptrs' = ?k" "rc \<noteq> 0 \<or> kid_set ?k \<noteq> {}"
    for ch' ptrs' using that lp wfk by (intro wf_nodeI) (auto simp: kid_set_def)
  show ?thesis
  proof (cases ch)
    case (Sparse cs)
    have ix: "index_of c cs = Some i" using i Sparse by simp
    have len: "card (kid_set (kids ch ptrs)) = length cs" using sh Sparse width_sparse by simp
    have r: "shape_ok (Sparse (remove_nth i cs)) (remove_nth i (ptrs[i := None]))"
        "kids (Sparse (remove_nth i cs)) (remove_nth i (ptrs[i := None])) = ?k"
      using sparse_remove[of cs ptrs c i None] sh ix Sparse by simp_all
    show ?thesis
    proof (cases "length cs = 1 \<and> rc = 0")
      case True
      then have "kid_set ?k = {}" using w len by simp
      with True subs_at_none show ?thesis
        unfolding node by (simp add: prune_def Sparse ix nn_node_has_subscribers_def)
    next
      case False
      have "length cs \<noteq> 0" using ix by auto
      with False w len have "rc \<noteq> 0 \<or> kid_set ?k \<noteq> {}"
        by (metis One_nat_def Suc_pred card.empty gr0I)
      then have "wf_node (Node rc p (Sparse (remove_nth i cs)) (remove_nth i (ptrs[i := None])))"
        using r built by blast
      then obtain n' where n': "nn_node_compact (Node rc p (Sparse (remove_nth i cs)) (remove_nth i (ptrs[i := None]))) = Some n'"
          "wf_node n'" "subs (Some n') = subs_at rc p ?k"
        using nn_node_compact_spec r(2) by (metis subs_Some)
      with False show ?thesis
        unfolding node by (auto simp: prune_def Sparse ix nn_node_has_subscribers_def)
    qed
  next
    case (Dense mn mx nbr)
    have sh': "dense_shape mn mx ptrs" "unat nbr = card (kid_set (kids ch ptrs))" "NN_TRIE_SPARSE_MAX < unat nbr"
      using sh Dense by (simp_all add: shape_ok_Dense kids_Dense)
    let ?ptrs = "ptrs[i := None]"
    have d: "dense_shape mn mx ?ptrs" "dense_kids mn mx ?ptrs = ?k"
      using sh'(1) kids_update[OF sh i, of None] by (simp_all add: Dense kids_Dense)
    have n8: "word_of_nat NN_TRIE_SPARSE_MAX + 1 = (9 :: 16 word)" by (simp add: NN_TRIE_SPARSE_MAX_def)
    have nbr: "nbr > 9 \<longleftrightarrow> unat nbr > 9" by (simp add: word_less_nat_alt)
    show ?thesis
    proof (cases "unat nbr > 9")
      case True
      have u: "unat (nbr - 1) = unat nbr - 1" 
      proof (rule unat_minus_one)
        show "nbr \<noteq> 0" using True by (metis not_less_zero unsigned_0)
      qed
      have some: "\<exists>c. dense_kids mn mx ?ptrs c \<noteq> None"
      proof -
        have "card (kid_set ?k) \<noteq> 0" using w sh'(2) True by simp
        then have "kid_set ?k \<noteq> {}" by auto
        then show ?thesis unfolding d(2) by (auto simp: kid_set_def)
      qed
      have ok: "wf_node (Node rc p (Dense mn' mx' (nbr - 1)) ptrs') \<and>
          subs (Some (Node rc p (Dense mn' mx' (nbr - 1)) ptrs')) = subs_at rc p ?k"
        if "dense_shape mn' mx' ptrs'" "dense_kids mn' mx' ptrs' = ?k" for mn' mx' ptrs'
      proof -
        have "kids (Dense mn' mx' (nbr - 1)) ptrs' = ?k" using that(2) by (simp add: kids_Dense)
        moreover have "shape_ok (Dense mn' mx' (nbr - 1)) ptrs'"
          using that u w sh'(2) True by (simp add: shape_ok_Dense NN_TRIE_SPARSE_MAX_def)
        moreover have "kid_set ?k \<noteq> {}" using some d(2) by (auto simp: kid_set_def)
        ultimately show ?thesis using built by (simp add: subs_Some)
      qed
      have "\<exists>mn' mx' ptrs'. prune (set_child (Node rc p ch ptrs) i None) c =
            Some (1, Some (Node rc p (Dense mn' mx' (nbr - 1)) ptrs')) \<and>
          dense_shape mn' mx' ptrs' \<and> dense_kids mn' mx' ptrs' = ?k"
        using True nbr n8 trim_left[OF d(1) some refl] trim_right[OF d(1) some refl] d
        unfolding node by (simp add: prune_def Dense Let_def)
      then obtain mn' mx' ptrs' where pr: "prune (set_child (Node rc p ch ptrs) i None) c =
            Some (1, Some (Node rc p (Dense mn' mx' (nbr - 1)) ptrs'))"
          and "dense_shape mn' mx' ptrs'" "dense_kids mn' mx' ptrs' = ?k" by blast
      from ok[OF this(2,3)] show ?thesis unfolding pr by (simp del: wf_node.simps)
    next
      case False
      then have n9: "unat nbr = 9" using sh'(3) by (simp add: NN_TRIE_SPARSE_MAX_def)
      then have c8: "card (kid_set ?k) = NN_TRIE_SPARSE_MAX" using w sh'(2) by (simp add: NN_TRIE_SPARSE_MAX_def)
      then have rc: "rc = 0" by (rule keep)
      note cs = convert_sparse[OF d(1), unfolded d(2), OF c8]
      have "kid_set ?k \<noteq> {}" using c8 by (auto simp: NN_TRIE_SPARSE_MAX_def)
      with built cs rc have "wf_node (Node 0 p (Sparse (map fst (dense_to_sparse mn ?ptrs))) (map snd (dense_to_sparse mn ?ptrs)))"
        by metis
      with False nbr n8 cs rc show ?thesis
        unfolding node by (simp add: prune_def Dense Let_def subs_Some del: wf_node.simps)
    qed
  qed
qed

lemma unsubscribe_here_spec:
  assumes wf: "wf_node (Node rc p ch ptrs)" and rc: "rc \<noteq> 0"
  shows "\<exists>t'. unsubscribe_here (Some (Node rc p ch ptrs)) = Some (if unat rc = 1 then 1 else 0, t') \<and> wf_trie t' \<and>
    subs t' = (subs_at rc p (kids ch ptrs))(p := unat rc - 1)"
proof -
  have u: "unat (rc - 1) = unat rc - 1" using rc by (rule unat_minus_one)
  then have s: "subs_at (rc - 1) p (kids ch ptrs) = (subs_at rc p (kids ch ptrs))(p := unat rc - 1)"
    by (rule subs_at_refcount)
  have one: "unat rc = 1 \<longleftrightarrow> rc - 1 = 0"
    by (metis One_nat_def Suc_pred' diff_self_eq_0 rc u unat_1 unat_gt_0 unat_eq_zero word_unat_eq_iff)
  show ?thesis
  proof (cases "rc - 1 = 0 \<and> ch = Sparse []")
    case True
    then have "ptrs = []" using wf by simp
    then have "kid_set (kids ch ptrs) = {}" using True by (simp add: kid_set_def)
    then have "subs_at (rc - 1) p (kids ch ptrs) = subs None" using True subs_at_none by simp
    with True s one rc show ?thesis by (simp add: unsubscribe_here_def nn_node_has_subscribers_def)
  next
    case False
    show ?thesis
    proof (cases "rc - 1 = 0")
      case True
      with False wf have "ptrs \<noteq> []" by (cases ch) (auto simp: dense_shape_def shape_ok_Dense)
      with wf True have "wf_node (Node (rc - 1) p ch ptrs)" by simp
      then obtain n' where "nn_node_compact (Node (rc - 1) p ch ptrs) = Some n'" "wf_node n'"
          "subs (Some n') = subs_at (rc - 1) p (kids ch ptrs)"
        using nn_node_compact_spec by (metis subs_Some)
      with True False s one rc show ?thesis
        by (simp add: unsubscribe_here_def nn_node_has_subscribers_def)
    next
      case f: False
      with wf have "wf_node (Node (rc - 1) p ch ptrs)" by simp
      with f s one rc show ?thesis
        by (simp add: unsubscribe_here_def nn_node_has_subscribers_def subs_Some)
    qed
  qed
qed

lemma kids_next:
  assumes "kids ch ptrs c = Some m"
  obtains i where "node_next ch c = Some i"
  using assms by (auto simp: kids_def split: option.splits)

lemma unsubscribe_removes:
  assumes "wf_trie t" "0 < subs t data" "\<not> outgrows ((subs t)(data := subs t data - 1)) data"
  shows "\<exists>t'. nn_node_unsubscribe t data = Some (if subs t data = 1 then 1 else 0, t') \<and> wf_trie t' \<and>
    subs t' = (subs t)(data := subs t data - 1)"
  using assms
proof (induction t data rule: nn_node_unsubscribe.induct)
  case (1 self)
  then obtain rc p ch ptrs where n: "self = Some (Node rc p ch ptrs)"
    by (metis nn_trie_node.exhaust not_None_eq subs.simps(1) less_irrefl)
  with "1.prems"(2) have p: "p = []" by (auto simp: subs_Some subs_at_def split: if_splits)
  have S: "subs self = subs_at rc [] (kids ch ptrs)" and c: "subs_at rc [] (kids ch ptrs) [] = unat rc"
    by (simp_all add: n p subs_Some subs_at_def)
  have "wf_node (Node rc [] ch ptrs)" "rc \<noteq> 0" using "1.prems"(1,2) n p c unfolding S by auto
  from unsubscribe_here_spec[OF this] show ?case unfolding S c nn_node_unsubscribe.simps(1) by (simp only: n p)
next
  case (2 d ds)
  then show ?case by simp
next
  case (3 node d ds)
  let ?data = "d # ds"
  obtain rc p ch ptrs where n: "node = Node rc p ch ptrs" by (cases node)
  let ?k = "kids ch ptrs"
  have wf: "wf_node (Node rc p ch ptrs)" and sh: "shape_ok ch ptrs" using "3.prems"(1) n by simp_all
  have subs: "subs (Some node) = subs_at rc p ?k" by (simp add: n subs_Some)
  have pre: "take (length p) ?data = p" using "3.prems"(2) by (auto simp: subs subs_at_def split: if_splits)
  then have data: "?data = p @ drop (length p) ?data" by (metis append_take_drop_id)
  obtain pos where pos: "nn_node_check_prefix p ?data (length ?data) = Some pos" "pos \<le> length p"
      "pos < length p \<longrightarrow> pos = length ?data \<or> p ! pos \<noteq> ?data ! pos"
    using check_prefix_spec[of "length ?data" ?data p] by auto
  have lpos: "pos = length p"
  proof (rule ccontr)
    assume "pos \<noteq> length p"
    then have "pos < length p" using pos(2) by simp
    moreover have "length p \<le> length ?data" using pre by (metis length_take min.bounded_iff order_refl)
    ultimately show False using pos(3) pre by (metis less_le_not_le nth_take)
  qed
  show ?case
  proof (cases "drop (length p) ?data")
    case Nil
    then have dp: "?data = p" using data by simp
    have step: "nn_node_unsubscribe (Some node) ?data = unsubscribe_here (Some node)"
      using pos(1) lpos Nil by (simp add: nn_node_unsubscribe.simps(3) n)
    have rc: "subs (Some node) ?data = unat rc" unfolding dp by (simp add: subs)
    then have "rc \<noteq> 0" using "3.prems"(2) by auto
    from unsubscribe_here_spec[OF wf this] show ?thesis unfolding step rc unfolding dp by (simp only: n subs_Some)
  next
    case (Cons c rest)
    have dp: "?data = p @ c # rest" using data Cons by simp
    have cnt: "subs (Some node) ?data = subs (?k c) rest" unfolding dp by (simp add: subs)
    then obtain m where m: "?k c = Some m" using "3.prems"(2) by (cases "?k c") auto
    then obtain i where i: "node_next ch c = Some i" by (rule kids_next)
    have child: "nn_node_child (Node rc p ch ptrs) i = Some (?k c)" by (rule child_of_shape[OF sh i])
    have S': "(subs (Some node))(?data := subs (Some node) ?data - 1) = (subs_at rc p ?k)(p @ c # rest := subs (?k c) rest - 1)"
      unfolding dp by (simp add: subs)
    have "\<not> outgrows (\<lambda>s. ((subs_at rc p ?k)(p @ c # rest := subs (?k c) rest - 1)) (p @ c # s)) rest"
      using "3.prems"(3) unfolding S' unfolding dp by (rule outgrows_below)
    moreover have "(\<lambda>s. ((subs_at rc p ?k)(p @ c # rest := subs (?k c) rest - 1)) (p @ c # s)) =
        (subs (?k c))(rest := subs (?k c) rest - 1)" by auto
    ultimately have og: "\<not> outgrows ((subs (?k c))(rest := subs (?k c) rest - 1)) rest" by simp
    have "\<exists>x. nn_node_unsubscribe (?k c) rest = Some (if subs (?k c) rest = 1 then 1 else 0, x) \<and> wf_trie x \<and>
        subs x = (subs (?k c))(rest := subs (?k c) rest - 1)"
      by (rule "3.IH"[of pos c rest i]) (use pos(1) lpos Cons i child og wf_kid[OF wf] "3.prems"(2) cnt in
        \<open>simp_all add: n nn_node_next_def fun_upd_def\<close>)
    then obtain x where x: "nn_node_unsubscribe (?k c) rest = Some (if subs (?k c) rest = 1 then 1 else 0, x)"
        "wf_trie x" "subs x = (subs (?k c))(rest := subs (?k c) rest - 1)" by blast
    have step: "nn_node_unsubscribe (Some node) ?data =
        (let node' = set_child (Node rc p ch ptrs) i x in
         if subs (?k c) rest \<noteq> 1 then Some (0, Some node')
         else if x \<noteq> None then Some (1, Some node') else prune node' c)"
      using pos(1) lpos Cons i child x(1) unfolding n
      by (subst nn_node_unsubscribe.simps(3)) (simp add: nn_node_next_def)
    show ?thesis
    proof (cases x)
      case None
      then have one: "subs (?k c) rest = 1" using x(3) "3.prems"(2) cnt
        by (metis One_nat_def Suc_pred' diff_is_0_eq fun_upd_same le_antisym less_eq_Suc_le subs.simps(1))
      have st: "subs_at rc p (?k(c := None)) = (subs_at rc p ?k)(p @ c # rest := 0)"
        by (rule subs_at_update[where k = ?k and x = None]) (use x(3) None one in simp)
      have keep: "rc = 0" if "card (kid_set (?k(c := None))) = NN_TRIE_SPARSE_MAX"
      proof (rule outgrows_here[of "?k(c := None)" rc p c rest])
        show "\<not> outgrows (subs_at rc p (?k(c := None))) (p @ c # rest)"
          using "3.prems"(3) unfolding S' unfolding dp st one by (simp add: fun_upd_def)
      qed (use that wf_kid[OF wf] in auto)
      have "?k c \<noteq> None" using m by simp
      from prune_spec[OF wf i this keep] obtain t' where
        "prune (set_child (Node rc p ch ptrs) i None) c = Some (1, t')" "wf_trie t'" "subs t' = subs_at rc p (?k(c := None))"
        by blast
      with step None one cnt S' st show ?thesis by (simp add: fun_upd_def)
    next
      case (Some x')
      have "?k c \<noteq> None" using m by simp
      then have "wf_node (set_child (Node rc p ch ptrs) i x)"
        using set_child_wf[OF wf i, of x'] x(2) Some by simp
      moreover have "subs (Some (set_child (Node rc p ch ptrs) i x)) =
          (subs_at rc p ?k)(p @ c # rest := subs (?k c) rest - 1)"
        by (rule subs_set_child[OF sh i x(3)])
      ultimately show ?thesis using step Some S' cnt by (simp add: fun_upd_def)
    qed
  qed
qed

section \<open>Matching finds the subscribed prefixes\<close>

text \<open>Shared steps of the proofs about matching.\<close>

lemma check_prefix_enough:
  assumes "length p \<le> sz" "length p \<le> length data"
  shows "\<exists>pos. nn_node_check_prefix p data sz = Some pos \<and> pos \<le> length p \<and>
    take pos p = take pos data \<and> (pos < length p \<longrightarrow> p ! pos \<noteq> data ! pos)"
  using assms
proof (induction p data sz rule: nn_node_check_prefix.induct)
  case (2 p ps data sz)
  then obtain d ds where d: "data = d # ds" "sz \<noteq> 0" by (cases data) auto
  show ?case
  proof (cases "p = d")
    case True
    with "2.IH"[of d ds] "2.prems" d obtain pos where
      "nn_node_check_prefix ps ds (sz - 1) = Some pos" "pos \<le> length ps"
      "take pos ps = take pos ds" "pos < length ps \<longrightarrow> ps ! pos \<noteq> ds ! pos" by fastforce
    with d True show ?thesis by (intro exI[of _ "pos + 1"]) auto
  next
    case False
    with d show ?thesis by auto
  qed
qed simp

lemma subs_off_path:
  assumes "pos < length p" "p ! pos \<noteq> (s @ u) ! pos"
  shows "subs_at rc p k s = 0"
proof (cases rule: subs_at_cases[of s p])
  case here
  with assms show ?thesis by (simp add: nth_append)
next
  case (below c r)
  with assms show ?thesis by (simp add: nth_append)
qed simp

lemma subs_at_prefixes:
  assumes "rc = 0"
  shows "(\<exists>s u. p @ c # rest = s @ u \<and> 0 < subs_at rc p k s) \<longleftrightarrow> (\<exists>s u. rest = s @ u \<and> 0 < subs (k c) s)"
proof
  assume "\<exists>s u. p @ c # rest = s @ u \<and> 0 < subs_at rc p k s"
  then obtain s u where s: "p @ c # rest = s @ u" "0 < subs_at rc p k s" by blast
  then show "\<exists>s u. rest = s @ u \<and> 0 < subs (k c) s"
  proof (cases rule: subs_at_cases[of s p])
    case here
    with s(2) assms show ?thesis by simp
  next
    case (below d r)
    with s show ?thesis by auto
  qed simp
next
  assume "\<exists>s u. rest = s @ u \<and> 0 < subs (k c) s"
  then obtain s u where "rest = s @ u" "0 < subs (k c) s" by blast
  then show "\<exists>s u. p @ c # rest = s @ u \<and> 0 < subs_at rc p k s"
    by (intro exI[of _ "p @ c # s"] exI[of _ u]) simp
qed

lemma unat_minus_Suc:
  assumes "pos = n" "n < unat (sz :: u64)"
  shows "unat (sz - word_of_nat pos - 1) = unat sz - n - 1"
proof -
  have "n < 2 ^ 64" using assms(2) unsigned_less[of sz, where ?'a = nat] by simp
  then have n: "unat (word_of_nat n :: u64) = n" by (simp add: unat_of_nat take_bit_nat_eq_self)
  then have "unat (sz - word_of_nat n) = unat sz - n" using assms(2) by (subst unat_sub) (simp_all add: word_le_nat_alt)
  moreover from this have "(1 :: u64) \<le> sz - word_of_nat n" using assms(2) by (simp add: word_le_nat_alt)
  ultimately show ?thesis using assms(1) by (subst unat_sub) simp_all
qed

lemma match_prefix:
  assumes "wf_trie t" "sz = word_of_nat (length msg)" "length msg < 2 ^ 64"
    "(\<exists>s u. msg = s @ u \<and> 0 < subs t s) \<or> \<not> (\<exists>c r. 0 < subs t (msg @ c # r))"
  shows "match_node t (msg @ rest) sz = Some (if \<exists>s u. msg = s @ u \<and> 0 < subs t s then 1 else 0)"
  using assms
proof (induction t "msg @ rest" sz arbitrary: msg rule: match_node.induct)
  case (1 sz)
  then show ?case by simp
next
  case (2 node sz)
  obtain rc p ch ptrs where n: "node = Node rc p ch ptrs" by (cases node)
  let ?k = "kids ch ptrs"
  have wf: "wf_node (Node rc p ch ptrs)" and sh: "shape_ok ch ptrs" using "2.prems"(1) n by simp_all
  have subs: "subs (Some node) = subs_at rc p ?k" by (simp add: n subs_Some)
  have sz: "unat sz = length msg" using "2.prems"(2,3) by (simp add: unat_of_nat take_bit_nat_eq_self)
  obtain pos where pos: "nn_node_check_prefix p (msg @ rest) (unat sz) = Some pos" "pos \<le> length p" "pos \<le> length msg"
      "take pos p = take pos (msg @ rest)" "pos < length p \<longrightarrow> pos = length msg \<or> p ! pos \<noteq> (msg @ rest) ! pos"
    using check_prefix_spec[of "unat sz" "msg @ rest" p] sz by auto
  show ?case
  proof (cases "pos = length p")
    case False
    have "subs (Some node) s = 0" if "msg = s @ u" for s u
    proof (rule ccontr)
      assume "subs (Some node) s \<noteq> 0"
      then have t: "take (length p) s = p" by (auto simp: subs subs_at_def split: if_splits)
      then have l: "length p \<le> length s" by (metis length_take min.bounded_iff order_refl)
      then have "pos < length s" using False pos(2) by simp
      moreover have "p ! pos = s ! pos" using t False pos(2) by (metis le_neq_implies_less nth_take)
      ultimately show False using pos(3,5) False pos(2) that l by (simp add: nth_append)
    qed
    then show ?thesis using pos(1) False by (auto simp: match_node.simps(2) n)
  next
    case True
    then have "take pos p = p" by simp
    then have "p = take pos msg" using pos(3,4) by simp
    then have mp: "msg = p @ drop pos msg" by (metis append_take_drop_id)
    show ?thesis
    proof (cases "rc = 0")
      case False
      then have "0 < subs (Some node) p" by (simp add: subs unat_gt_0)
      then have "\<exists>s u. msg = s @ u \<and> 0 < subs (Some node) s" using mp by blast
      then show ?thesis using pos(1) True False
        by (simp add: match_node.simps(2) n nn_node_has_subscribers_def)
    next
      case rc0: True
      show ?thesis
      proof (cases "drop pos msg")
        case Nil
        then have m: "msg = p" using mp by simp
        obtain c m where "?k c = Some m" using wf_has_kid[OF wf rc0] by blast
        moreover then have "wf_node m" using wf_kid[OF wf, of c] by simp
        ultimately obtain s where "0 < subs (Some node) (p @ c # s)" using wf_subs by (metis subs subs_at_simps(2))
        then have "\<exists>s u. msg = s @ u \<and> 0 < subs (Some node) s" using "2.prems"(4) m by blast
        then obtain s u where s: "p = s @ u" "0 < subs (Some node) s" using m by blast
        have "s = p"
        proof (cases rule: subs_at_cases[of s p])
          case off
          with s(2) show ?thesis by (simp add: subs)
        qed (use s(1) in auto)
        with s(2) rc0 have False by (simp add: subs)
        then show ?thesis ..
      next
        case (Cons c msg')
        have m: "msg = p @ c # msg'" using mp Cons by simp
        let ?sz = "sz - word_of_nat pos - 1"
        have szm: "?sz = word_of_nat (length msg')" using "2.prems"(2) True m by simp
        have ex: "(\<exists>s u. msg = s @ u \<and> 0 < subs (Some node) s) \<longleftrightarrow> (\<exists>s u. msg' = s @ u \<and> 0 < subs (?k c) s)"
          unfolding subs m by (rule subs_at_prefixes[OF rc0])
        have ext: "\<exists>d r. 0 < subs (Some node) (msg @ d # r)" if "\<exists>d r. 0 < subs (?k c) (msg' @ d # r)"
          using that by (auto simp: m subs)
        have cond: "(\<exists>s u. msg' = s @ u \<and> 0 < subs (?k c) s) \<or> \<not> (\<exists>d r. 0 < subs (?k c) (msg' @ d # r))"
          using "2.prems"(4) ex ext by blast
        have d: "drop pos (msg @ rest) = c # msg' @ rest" using True m by simp
        have l: "length msg' < 2 ^ 64" using "2.prems"(3) m by simp
        show ?thesis
        proof (cases "node_next ch c")
          case None
          then have "?k c = None" by (rule node_next_None)
          then have "\<not> (\<exists>s u. msg' = s @ u \<and> 0 < subs (?k c) s)" by simp
          with None d pos(1) True rc0 show ?thesis
            unfolding ex by (simp add: match_node.simps(2) n nn_node_has_subscribers_def nn_node_next_def)
        next
          case (Some i)
          have "match_node (?k c) (msg' @ rest) ?sz = Some (if \<exists>s u. msg' = s @ u \<and> 0 < subs (?k c) s then 1 else 0)"
            by (rule "2.hyps"(2)[of pos c msg' i "?k c"])
              (use pos(1) True rc0 d Some child_of_shape[OF sh Some] wf_kid[OF wf] szm l cond in
                \<open>simp_all add: n nn_node_has_subscribers_def nn_node_next_def\<close>)
          moreover have "match_node (Some node) (msg @ rest) sz = match_node (?k c) (msg' @ rest) ?sz"
            using d pos(1) True rc0 Some child_of_shape[OF sh Some] unfolding n
            by (subst match_node.simps(2)) (simp add: nn_node_has_subscribers_def nn_node_next_def)
          ultimately show ?thesis unfolding ex by simp
        qed
      qed
    qed
  qed
qed

text \<open>
  With enough bytes left, of the message by its size and of memory, matching is plain prefix
  matching on memory.
\<close>

lemma match_memory:
  assumes "wf_trie t" "\<And>s. 0 < subs t s \<Longrightarrow> length s \<le> unat sz \<and> length s \<le> length data"
  shows "match_node t data sz = Some (if \<exists>s u. data = s @ u \<and> 0 < subs t s then 1 else 0)"
  using assms
proof (induction t data sz rule: match_node.induct)
  case (1 data sz)
  then show ?case by simp
next
  case (2 node data sz)
  obtain rc p ch ptrs where n: "node = Node rc p ch ptrs" by (cases node)
  let ?k = "kids ch ptrs"
  have wf: "wf_node (Node rc p ch ptrs)" and sh: "shape_ok ch ptrs" using "2.prems"(1) n by simp_all
  have subs: "subs (Some node) = subs_at rc p ?k" by (simp add: n subs_Some)
  obtain s0 where s0: "0 < subs (Some node) s0" using wf_subs[OF wf] n by blast
  then have "take (length p) s0 = p" by (auto simp: subs subs_at_def split: if_splits)
  then have "length p \<le> length s0" by (metis length_take min.bounded_iff order_refl)
  then have lp: "length p \<le> unat sz" "length p \<le> length data" using "2.prems"(2)[OF s0] by simp_all
  obtain pos where pos: "nn_node_check_prefix p data (unat sz) = Some pos" "pos \<le> length p"
      "take pos p = take pos data" "pos < length p \<longrightarrow> p ! pos \<noteq> data ! pos"
    using check_prefix_enough[OF lp] by blast
  show ?case
  proof (cases "pos = length p")
    case False
    then have "subs (Some node) s = 0" if "data = s @ u" for s u
      using pos(2,4) that subs_off_path[of pos p s u rc ?k] by (simp add: subs)
    then show ?thesis using pos(1) False by (auto simp: match_node.simps(2) n)
  next
    case True
    then have dp: "data = p @ drop pos data" using pos(3) by (metis append_take_drop_id order_refl take_all)
    show ?thesis
    proof (cases "rc = 0")
      case False
      then have "0 < subs (Some node) p" by (simp add: subs unat_gt_0)
      then have "\<exists>s u. data = s @ u \<and> 0 < subs (Some node) s" using dp by blast
      then show ?thesis using pos(1) True False
        by (simp add: match_node.simps(2) n nn_node_has_subscribers_def)
    next
      case rc0: True
      obtain c0 m0 where "?k c0 = Some m0" using wf_has_kid[OF wf rc0] by blast
      moreover then have "wf_node m0" using wf_kid[OF wf, of c0] by simp
      ultimately obtain s1 where s1: "0 < subs (Some node) (p @ c0 # s1)" using wf_subs by (metis subs subs_at_simps(2))
      from "2.prems"(2)[OF s1] True have "drop pos data \<noteq> []" and room: "length p < unat sz" by simp_all
      then obtain c rest where cr: "drop pos data = c # rest" by (cases "drop pos data") auto
      have d: "data = p @ c # rest" using dp cr by simp
      let ?sz = "sz - word_of_nat pos - 1"
      have usz: "unat ?sz = unat sz - length p - 1" using True room by (rule unat_minus_Suc)
      have ex: "(\<exists>s u. data = s @ u \<and> 0 < subs (Some node) s) \<longleftrightarrow> (\<exists>s u. rest = s @ u \<and> 0 < subs (?k c) s)"
        unfolding subs d by (rule subs_at_prefixes[OF rc0])
      have enough: "length s \<le> unat ?sz \<and> length s \<le> length rest" if "0 < subs (?k c) s" for s
      proof -
        have "0 < subs (Some node) (p @ c # s)" using that by (simp add: subs)
        from "2.prems"(2)[OF this] show ?thesis unfolding usz d by auto
      qed
      show ?thesis
      proof (cases "node_next ch c")
        case None
        then have "?k c = None" by (rule node_next_None)
        then have "\<not> (\<exists>s u. rest = s @ u \<and> 0 < subs (?k c) s)" by simp
        with None cr pos(1) True rc0 show ?thesis
          unfolding ex by (simp add: match_node.simps(2) n nn_node_has_subscribers_def nn_node_next_def)
      next
        case (Some i)
        have "match_node (?k c) rest ?sz = Some (if \<exists>s u. rest = s @ u \<and> 0 < subs (?k c) s then 1 else 0)"
          by (rule "2.IH"(2)[of pos c rest i "?k c"])
            (use pos(1) True rc0 cr Some child_of_shape[OF sh Some] wf_kid[OF wf] enough in
              \<open>simp_all add: n nn_node_has_subscribers_def nn_node_next_def\<close>)
        moreover have "match_node (Some node) data sz = match_node (?k c) rest ?sz"
          using cr pos(1) True rc0 Some child_of_shape[OF sh Some] unfolding n
          by (subst match_node.simps(2)) (simp add: nn_node_has_subscribers_def nn_node_next_def)
        ultimately show ?thesis unfolding ex by simp
      qed
    qed
  qed
qed

text \<open>
  A message of any bytes: matching finds every topic that is a prefix of the message, and what it
  finds is at least a prefix of the message and the memory behind it.
\<close>

lemma match_bounds:
  assumes "wf_trie t" "sz = word_of_nat (length msg)" "length msg < 2 ^ 64"
    "\<And>s. 0 < subs t s \<Longrightarrow> length s \<le> length rest \<and> length s < 2 ^ 64"
  shows "\<exists>b. match_node t (msg @ rest) sz = Some (if b then 1 else 0) \<and>
    ((\<exists>s u. msg = s @ u \<and> 0 < subs t s) \<longrightarrow> b) \<and> (b \<longrightarrow> (\<exists>s u. msg @ rest = s @ u \<and> 0 < subs t s))"
  using assms
proof (induction t "msg @ rest" sz arbitrary: msg rule: match_node.induct)
  case (1 sz)
  show ?case by (intro exI[of _ False]) simp
next
  case (2 node sz)
  obtain rc p ch ptrs where n: "node = Node rc p ch ptrs" by (cases node)
  let ?k = "kids ch ptrs"
  have wf: "wf_node (Node rc p ch ptrs)" and sh: "shape_ok ch ptrs" using "2.prems"(1) n by simp_all
  have subs: "subs (Some node) = subs_at rc p ?k" by (simp add: n subs_Some)
  have sz: "unat sz = length msg" using "2.prems"(2,3) by (simp add: unat_of_nat take_bit_nat_eq_self)
  obtain pos where pos: "nn_node_check_prefix p (msg @ rest) (unat sz) = Some pos" "pos \<le> length p" "pos \<le> length msg"
      "take pos p = take pos (msg @ rest)" "pos < length p \<longrightarrow> pos = length msg \<or> p ! pos \<noteq> (msg @ rest) ! pos"
    using check_prefix_spec[of "unat sz" "msg @ rest" p] sz by auto
  show ?case
  proof (cases "pos = length p")
    case False
    have "subs (Some node) s = 0" if "msg = s @ u" for s u
    proof (rule ccontr)
      assume ne: "subs (Some node) s \<noteq> 0"
      then have t: "take (length p) s = p" by (auto simp: subs subs_at_def split: if_splits)
      then have l: "length p \<le> length s" by (metis length_take min.bounded_iff order_refl)
      then have "p ! pos \<noteq> (s @ (u @ rest)) ! pos" using pos(2,5) False that by auto
      with subs_off_path[of pos p s "u @ rest" rc ?k] ne pos(2) False show False by (simp add: subs)
    qed
    then show ?thesis using pos(1) False by (auto simp: match_node.simps(2) n)
  next
    case True
    then have "take pos p = p" by simp
    then have "p = take pos msg" using pos(3,4) by simp
    then have mp: "msg = p @ drop pos msg" by (metis append_take_drop_id)
    show ?thesis
    proof (cases "rc = 0")
      case False
      then have "0 < subs (Some node) p" by (simp add: subs unat_gt_0)
      moreover have "msg @ rest = p @ drop pos msg @ rest" using mp by simp
      ultimately have "\<exists>s u. msg @ rest = s @ u \<and> 0 < subs (Some node) s" by blast
      then show ?thesis using pos(1) True False
        by (auto simp: match_node.simps(2) n nn_node_has_subscribers_def)
    next
      case rc0: True
      obtain c0 m0 where "?k c0 = Some m0" using wf_has_kid[OF wf rc0] by blast
      moreover then have "wf_node m0" using wf_kid[OF wf, of c0] by simp
      ultimately obtain s1 where s1: "0 < subs (Some node) (p @ c0 # s1)" using wf_subs by (metis subs subs_at_simps(2))
      then have "rest \<noteq> []" using "2.prems"(4)[OF s1] by auto
      then obtain c d where cd: "drop pos (msg @ rest) = c # d" using pos(3) by (cases "drop pos (msg @ rest)") auto
      then have mr: "msg @ rest = p @ c # d" using mp True by (metis append_eq_append_conv append_take_drop_id pos(4) order_refl take_all)
      let ?sz = "sz - word_of_nat pos - 1"
      have ex: "(\<exists>s u. msg @ rest = s @ u \<and> 0 < subs (Some node) s) \<longleftrightarrow> (\<exists>s u. d = s @ u \<and> 0 < subs (?k c) s)"
        unfolding subs mr by (rule subs_at_prefixes[OF rc0])
      have below: "length s < length rest \<and> length s < 2 ^ 64 - 1" if "0 < subs (?k c) s" for s
      proof -
        have "0 < subs (Some node) (p @ c # s)" using that by (simp add: subs)
        from "2.prems"(4)[OF this] show ?thesis by simp
      qed
      have step: "match_node (Some node) (msg @ rest) sz =
          (case node_next ch c of None \<Rightarrow> Some 0 | Some i \<Rightarrow> match_node (?k c) d ?sz)"
        using cd pos(1) True rc0 child_of_shape[OF sh] unfolding n
        by (subst match_node.simps(2)) (auto simp: nn_node_has_subscribers_def nn_node_next_def split: option.splits)
      show ?thesis
      proof (cases "drop pos msg")
        case Nil
        then have m: "msg = p" using mp by simp
        then have d: "rest = c # d" using mr by simp
        have none: "\<not> (\<exists>s u. msg = s @ u \<and> 0 < subs (Some node) s)"
        proof
          assume "\<exists>s u. msg = s @ u \<and> 0 < subs (Some node) s"
          then obtain s u where s: "p = s @ u" "0 < subs_at rc p ?k s" by (auto simp: m subs)
          then show False
          proof (cases rule: subs_at_cases[of s p])
            case here
            with s(2) rc0 show ?thesis by simp
          next
            case (below c r)
            then have "length p < length s" by simp
            moreover have "length s \<le> length p" by (simp add: s(1))
            ultimately show ?thesis by simp
          next
            case off
            with s(2) show ?thesis by simp
          qed
        qed
        have usz: "unat ?sz = 2 ^ 64 - 1" using "2.prems"(2) True by (simp add: m unsigned_minus_1_eq_mask mask_eq_exp_minus_1)
        have run: "match_node (?k c) d ?sz = Some (if \<exists>s u. d = s @ u \<and> 0 < subs (?k c) s then 1 else 0)"
        proof (rule match_memory[OF wf_kid[OF wf]])
          show "length s \<le> unat ?sz \<and> length s \<le> length d" if "0 < subs (?k c) s" for s
            using below[OF that] unfolding usz d by simp
        qed
        show ?thesis
        proof (cases "node_next ch c")
          case None
          with step none show ?thesis by (intro exI[of _ False]) simp
        next
          case (Some i)
          with step run have "match_node (Some node) (msg @ rest) sz =
              Some (if \<exists>s u. msg @ rest = s @ u \<and> 0 < subs (Some node) s then 1 else 0)" unfolding ex by simp
          with none show ?thesis by blast
        qed
      next
        case (Cons c' msg')
        then have m: "msg = p @ c # msg'" and d: "d = msg' @ rest" using mp mr True cd pos(3) by auto
        have szm: "?sz = word_of_nat (length msg')" using "2.prems"(2) True m by simp
        have exm: "(\<exists>s u. msg = s @ u \<and> 0 < subs (Some node) s) \<longleftrightarrow> (\<exists>s u. msg' = s @ u \<and> 0 < subs (?k c) s)"
          unfolding subs m by (rule subs_at_prefixes[OF rc0])
        show ?thesis
        proof (cases "node_next ch c")
          case None
          then have "?k c = None" by (rule node_next_None)
          with None step exm show ?thesis by (intro exI[of _ False]) simp
        next
          case (Some i)
          have "\<exists>b. match_node (?k c) (msg' @ rest) ?sz = Some (if b then 1 else 0) \<and>
              ((\<exists>s u. msg' = s @ u \<and> 0 < subs (?k c) s) \<longrightarrow> b) \<and> (b \<longrightarrow> (\<exists>s u. msg' @ rest = s @ u \<and> 0 < subs (?k c) s))"
          proof (rule "2.hyps"(2)[of pos c msg' i "?k c"])
            show "nn_node_check_prefix (prefix node) (msg @ rest) (unat sz) = Some pos" using pos(1) by (simp add: n)
            show "\<not> pos \<noteq> length (prefix node)" using True by (simp add: n)
            show "\<not> nn_node_has_subscribers node" using rc0 by (simp add: n nn_node_has_subscribers_def)
            show "nn_node_child node i = Some (?k c)" using child_of_shape[OF sh Some] by (simp add: n)
            show "nn_node_next node c = Some i" using Some by (simp add: n nn_node_next_def)
            show "length msg' < 2 ^ 64" using "2.prems"(3) m by simp
            show "length s \<le> length rest \<and> length s < 2 ^ 64" if "0 < subs (?k c) s" for s using below[OF that] by simp
          qed (use cd d szm wf_kid[OF wf] in simp_all)
          with Some step exm ex d show ?thesis by auto
        qed
      qed
    qed
  qed
qed

section \<open>Releasing a trie\<close>

fun node_count :: "nn_trie_node \<Rightarrow> nat" where
  "node_count (Node rc p ch ptrs) = Suc (sum_list (map (\<lambda>x. case x of None \<Rightarrow> 0 | Some m \<Rightarrow> node_count m) ptrs))"

lemma shape_count: "shape_ok ch ptrs \<Longrightarrow> child_count ch = length ptrs"
  by (cases ch) (auto simp: shape_ok_Dense dense_shape_def word_le_nat_alt)

lemma node_term_counts:
  "wf_trie t \<Longrightarrow> nn_node_term t = Some (case t of None \<Rightarrow> 0 | Some m \<Rightarrow> node_count m)"
  "n = length ptrs \<Longrightarrow> \<forall>x\<in>set ptrs. wf_trie x \<Longrightarrow>
     term_children n ptrs = Some (sum_list (map (\<lambda>x. case x of None \<Rightarrow> 0 | Some m \<Rightarrow> node_count m) ptrs))"
proof (induction t and n ptrs rule: nn_node_term_term_children.induct)
  case (2 rc p ch ptrs)
  then have "child_count ch = length ptrs" "\<forall>x\<in>set ptrs. wf_trie x"
    by (auto simp: shape_count wf_trie_def)
  with 2 show ?case by simp
qed simp_all

section \<open>Scripts of subscriptions\<close>

datatype trie_op = Subscribe "byte list" | Unsubscribe "byte list"

fun run_trie :: "nn_trie \<Rightarrow> trie_op list \<Rightarrow> (int list \<times> nn_trie) option" where
  "run_trie t [] = Some ([], t)"
| "run_trie t (Subscribe s # ops) = do {
     (r, t) \<leftarrow> nn_trie_subscribe t s; (rs, t) \<leftarrow> run_trie t ops; Some (r # rs, t) }"
| "run_trie t (Unsubscribe s # ops) = do {
     (r, t) \<leftarrow> nn_trie_unsubscribe t s; (rs, t) \<leftarrow> run_trie t ops; Some (r # rs, t) }"

text \<open>The same script on the counts of a multiset of strings.\<close>

fun counts :: "(byte list \<Rightarrow> nat) \<Rightarrow> trie_op list \<Rightarrow> byte list \<Rightarrow> nat" where
  "counts S [] = S"
| "counts S (Subscribe s # ops) = counts (S(s := S s + 1)) ops"
| "counts S (Unsubscribe s # ops) = counts (S(s := S s - 1)) ops"

fun answers :: "(byte list \<Rightarrow> nat) \<Rightarrow> trie_op list \<Rightarrow> int list" where
  "answers S [] = []"
| "answers S (Subscribe s # ops) = (if S s = 0 then 1 else 0) # answers (S(s := S s + 1)) ops"
| "answers S (Unsubscribe s # ops) = (if S s = 1 then 1 else 0) # answers (S(s := S s - 1)) ops"

text \<open>
  Only what is subscribed is unsubscribed, no string has \<open>2 ^ 32\<close> subscriptions, and no string
  that is itself subscribed goes from eight to nine different next characters, or back.
\<close>

fun legal_script :: "(byte list \<Rightarrow> nat) \<Rightarrow> trie_op list \<Rightarrow> bool" where
  "legal_script S [] \<longleftrightarrow> True"
| "legal_script S (Subscribe s # ops) \<longleftrightarrow>
     S s + 1 < 2 ^ 32 \<and> \<not> outgrows S s \<and> legal_script (S(s := S s + 1)) ops"
| "legal_script S (Unsubscribe s # ops) \<longleftrightarrow>
     0 < S s \<and> \<not> outgrows (S(s := S s - 1)) s \<and> legal_script (S(s := S s - 1)) ops"

lemma run_trie_spec:
  assumes "wf_trie t" "legal_script (subs t) ops"
  shows "\<exists>t'. run_trie t ops = Some (answers (subs t) ops, t') \<and> wf_trie t' \<and> subs t' = counts (subs t) ops"
  using assms
proof (induction ops arbitrary: t)
  case (Cons op ops)
  show ?case
  proof (cases op)
    case (Subscribe s)
    with Cons.prems subscribe_node_adds[of t s] obtain n' where n':
        "subscribe_node t s = Some (if subs t s = 0 then 1 else 0, n')" "wf_trie (Some n')"
        "subs (Some n') = (subs t)(s := subs t s + 1)"
      by auto
    from Cons.IH[OF n'(2)] Cons.prems(2) n' Subscribe show ?thesis
      by (auto simp: nn_trie_subscribe_def fun_upd_def)
  next
    case (Unsubscribe s)
    with Cons.prems unsubscribe_removes[of t s] obtain t' where t':
        "nn_node_unsubscribe t s = Some (if subs t s = 1 then 1 else 0, t')" "wf_trie t'"
        "subs t' = (subs t)(s := subs t s - 1)"
      by auto
    from Cons.IH[OF t'(2)] Cons.prems(2) t' Unsubscribe show ?thesis
      by (auto simp: nn_trie_unsubscribe_def fun_upd_def)
  qed
qed simp

lemma few_do_not_outgrow:
  assumes "\<And>s. 0 < S s \<Longrightarrow> s \<in> set D" "length D < NN_TRIE_SPARSE_MAX"
  shows "\<not> outgrows S data"
proof
  assume "outgrows S data"
  then obtain q where q: "card (next_bytes S q) = NN_TRIE_SPARSE_MAX" by (auto simp: outgrows_def)
  have "next_bytes S q \<subseteq> (\<lambda>s. s ! length q) ` set D"
  proof
    fix c
    assume "c \<in> next_bytes S q"
    then obtain s where "0 < S (q @ c # s)" by (auto simp: next_bytes_def)
    then have "q @ c # s \<in> set D" by (rule assms(1))
    moreover have "c = (q @ c # s) ! length q" by simp
    ultimately show "c \<in> (\<lambda>s. s ! length q) ` set D" by blast
  qed
  then have "card (next_bytes S q) \<le> card ((\<lambda>s. s ! length q) ` set D)" by (simp add: card_mono)
  also have "\<dots> \<le> length D" by (meson card_image_le card_length finite_set le_trans)
  finally show False using q assms(2) by simp
qed

definition topic_script :: "trie_op list" where
  "topic_script = [Subscribe [1, 2, 3], Subscribe [1, 2, 4], Subscribe [1, 2, 3], Unsubscribe [1, 2, 3]]"

lemma topic_script_legal: "legal_script (\<lambda>_. 0) topic_script"
proof -
  have few: "\<not> outgrows S data" if "\<forall>s. 0 < S s \<longrightarrow> s = [1, 2, 3] \<or> s = [1, 2, 4]" for S data
    by (rule few_do_not_outgrow[where D = "[[1, 2, 3], [1, 2, 4]]"]) (use that in \<open>auto simp: NN_TRIE_SPARSE_MAX_def\<close>)
  show ?thesis unfolding topic_script_def by (simp add: few)
qed

text \<open>C25. The trie keeps the multiset of subscriptions: any script of subscriptions and
  unsubscriptions, as long as it only unsubscribes what is subscribed and no subscribed string
  crosses the limit of eight next characters, runs without undefined behaviour; each call answers
  1 exactly for the first subscription to a string and for the removal of the last; the number of
  subscriptions to every string is the one counted; and the trie left is well formed, so that
  \<open>nn_trie_term\<close> gives back every one of its nodes.\<close>

theorem nn_trie_keeps_subscriptions:
  assumes "legal_script (\<lambda>_. 0) ops"
  shows "\<exists>t. run_trie nn_trie_init ops = Some (answers (\<lambda>_. 0) ops, t) \<and> wf_trie t \<and>
    subs t = counts (\<lambda>_. 0) ops \<and>
    nn_trie_term t = Some (case t of None \<Rightarrow> 0 | Some m \<Rightarrow> node_count m)"
proof -
  have s: "subs nn_trie_init = (\<lambda>_. 0)" by (auto simp: nn_trie_init_def)
  have "wf_trie nn_trie_init" by (simp add: nn_trie_init_def)
  from run_trie_spec[OF this, unfolded s, OF assms] node_term_counts(1) show ?thesis
    by (metis nn_trie_term_def)
qed

theorem nn_trie_keeps_subscriptions_witness:
  "\<exists>t. run_trie nn_trie_init topic_script = Some ([1, 1, 0, 0], t) \<and> subs t [1, 2, 3] = 1"
  using nn_trie_keeps_subscriptions[OF topic_script_legal] by (auto simp: topic_script_def)

text \<open>C26. Matching is prefix matching: after a legal script, a message of any bytes, with any memory
  behind it, matches exactly if one of the subscribed strings is a prefix of it, provided that one
  is, or that no subscribed string is longer than the message and starts with it.\<close>

theorem nn_trie_match_is_prefix_match:
  assumes "legal_script (\<lambda>_. 0) ops" "run_trie nn_trie_init ops = Some (rs, t)" "length msg < 2 ^ 64"
    "(\<exists>s u. msg = s @ u \<and> 0 < counts (\<lambda>_. 0) ops s) \<or> \<not> (\<exists>c r. 0 < counts (\<lambda>_. 0) ops (msg @ c # r))"
  shows "nn_trie_match t (msg @ rest) (word_of_nat (length msg)) =
    Some (if \<exists>s u. msg = s @ u \<and> 0 < counts (\<lambda>_. 0) ops s then 1 else 0)"
proof -
  have s: "subs nn_trie_init = (\<lambda>_. 0)" by (auto simp: nn_trie_init_def)
  have "wf_trie nn_trie_init" by (simp add: nn_trie_init_def)
  from run_trie_spec[OF this, unfolded s, OF assms(1)] assms(2)
  have "wf_trie t" "subs t = counts (\<lambda>_. 0) ops" by auto
  then show ?thesis using match_prefix[of t _ msg rest] assms(3,4) by (simp add: nn_trie_match_def)
qed

theorem nn_trie_match_is_prefix_match_witness:
  "\<exists>rs t. run_trie nn_trie_init topic_script = Some (rs, t) \<and> nn_trie_match t [1, 2, 3, 9] 4 = Some 1"
proof -
  obtain rs t where r: "run_trie nn_trie_init topic_script = Some (rs, t)"
    using run_trie_spec[of None topic_script] topic_script_legal subs.simps(1)[abs_def]
    by (auto simp: nn_trie_init_def)
  have c: "0 < counts (\<lambda>_. 0) topic_script [1, 2, 3]" by (simp add: topic_script_def)
  have "[1, 2, 3, 9] = [1, 2, 3] @ [9 :: byte]" by simp
  with c have ex: "\<exists>s u. [1, 2, 3, 9] = s @ u \<and> 0 < counts (\<lambda>_. 0) topic_script s" by blast
  with nn_trie_match_is_prefix_match[OF topic_script_legal r, of "[1, 2, 3, 9]" "[]"] r show ?thesis by auto
qed

section \<open>Where the code departs from it\<close>

definition wide_script :: "trie_op list" where
  "wide_script = map Subscribe [[], [1], [2], [3], [4], [5], [6], [7], [8], [9]]"

definition leaf :: nn_trie where
  "leaf = Some (Node 1 [] (Sparse []) [])"

lemma wide_script_result:
  "run_trie nn_trie_init wide_script =
     Some (replicate 10 1, Some (Node 0 [] (Dense 1 9 9) (replicate 9 leaf)))"
  by code_simp

text \<open>C27. The conversion to a dense node forgets a subscription: a subscriber to the empty topic,
  that is to every message, who adds nine topics of one character gets no message any more that
  starts with none of the nine, although nothing was unsubscribed.\<close>

theorem nn_trie_ninth_topic_forgets:
  assumes "9 < c"
  shows "\<exists>rs t. run_trie nn_trie_init wide_script = Some (rs, t) \<and>
    counts (\<lambda>_. 0) wide_script [] = 1 \<and> nn_trie_match t (c # msg) (word_of_nat (length (c # msg))) = Some 0"
proof -
  have "counts (\<lambda>_. 0) wide_script [] = 1" by (simp add: wide_script_def)
  moreover have "nn_trie_match (Some (Node 0 [] (Dense 1 9 9) (replicate 9 leaf))) (c # msg)
      (word_of_nat (length (c # msg))) = Some 0"
    using assms by (simp add: nn_trie_match_def match_node.simps(2) nn_node_has_subscribers_def nn_node_next_def)
  ultimately show ?thesis using wide_script_result by blast
qed

theorem nn_trie_ninth_topic_forgets_witness:
  "\<exists>rs t. run_trie nn_trie_init wide_script = Some (rs, t) \<and>
    counts (\<lambda>_. 0) wide_script [] = 1 \<and> nn_trie_match t [10, 0] (word_of_nat (length [10, 0 :: byte])) = Some 0"
  by (rule nn_trie_ninth_topic_forgets) simp

text \<open>C28. Unsubscribing what was never subscribed is not refused: with one topic of one to ten
  characters subscribed, unsubscribing the empty topic answers that it was removed and leaves the
  trie empty; and unsubscribing any topic from an empty trie dereferences NULL.\<close>

theorem nn_trie_unsubscribe_wrong_topic:
  assumes "s \<noteq> []" "length s \<le> NN_TRIE_PREFIX_MAX"
  shows "\<exists>t. nn_trie_subscribe nn_trie_init s = Some (1, t) \<and> subs t s = 1 \<and> subs t [] = 0 \<and>
      nn_trie_unsubscribe t [] = Some (1, nn_trie_init) \<and> nn_trie_unsubscribe nn_trie_init s = None"
proof -
  have "new_nodes s = (1, Node 1 s (Sparse []) [])"
    using assms(2) by (simp add: new_nodes.simps[of s] subscribe_here_def)
  moreover have "nn_trie_unsubscribe nn_trie_init s = None"
    using assms(1) by (cases s) (simp_all add: nn_trie_unsubscribe_def nn_trie_init_def)
  ultimately show ?thesis using assms(1)
    by (simp add: nn_trie_subscribe_def nn_trie_init_def nn_trie_unsubscribe_def unsubscribe_here_def
        nn_node_has_subscribers_def subs_Some subs_at_def)
qed

theorem nn_trie_unsubscribe_wrong_topic_witness:
  "\<exists>t. nn_trie_subscribe nn_trie_init [97, 98] = Some (1, t) \<and> subs t [97, 98] = 1 \<and> subs t [] = 0 \<and>
      nn_trie_unsubscribe t [] = Some (1, nn_trie_init) \<and> nn_trie_unsubscribe nn_trie_init [97, 98] = None"
  by (rule nn_trie_unsubscribe_wrong_topic) (simp_all add: NN_TRIE_PREFIX_MAX_def)

text \<open>C29. Matching runs past the end of the message: with two topics that differ in their first
  character subscribed, matching an empty message reads the byte behind it (undefined behaviour when
  there is none), the size wraps around, and a message matches whose memory is followed by one of the
  topics.\<close>

theorem nn_trie_match_overreads:
  assumes "a \<noteq> b"
  shows "\<exists>rs t. run_trie nn_trie_init [Subscribe [a], Subscribe [b]] = Some (rs, t) \<and>
    nn_trie_match t [] 0 = None \<and> nn_trie_match t (a # rest) 0 = Some 1 \<and> nn_trie_match t (b # rest) 0 = Some 1"
proof -
  let ?t = "Some (Node 0 [] (Sparse [a, b]) [leaf, leaf])"
  have "run_trie nn_trie_init [Subscribe [a], Subscribe [b]] = Some ([1, 1], ?t)"
    using assms
    by (auto simp: nn_trie_subscribe_def nn_trie_init_def new_nodes.simps subscribe_here_def NN_TRIE_PREFIX_MAX_def
        subscribe_node.simps(2) split_node_def peek_def nn_node_compact_def nn_node_has_subscribers_def
        subscribe_child_def NN_TRIE_SPARSE_MAX_def leaf_def)
  moreover have "nn_trie_match ?t [] 0 = None" "nn_trie_match ?t (a # rest) 0 = Some 1" "nn_trie_match ?t (b # rest) 0 = Some 1"
    using assms by (simp_all add: nn_trie_match_def match_node.simps(2) nn_node_has_subscribers_def
        nn_node_next_def nn_node_child_def peek_def leaf_def)
  ultimately show ?thesis by blast
qed

theorem nn_trie_match_overreads_witness:
  "\<exists>rs t. run_trie nn_trie_init [Subscribe [97], Subscribe [98]] = Some (rs, t) \<and>
    nn_trie_match t [] 0 = None \<and> nn_trie_match t (97 # []) 0 = Some 1 \<and> nn_trie_match t (98 # []) 0 = Some 1"
  by (rule nn_trie_match_overreads) simp

end
