(* ===== verification/NN_Protocol.thy ===== *)
theory NN_Protocol
  imports NN_Lb_Fq NN_Dist
begin

text \<open>
  What the scalability protocols share: the socket events and statistics of \<open>core/sock.c\<close>, the
  contract of a transport that delivers messages, and the loop that receives and drops messages
  until one is accepted, which several protocols have.
\<close>

section \<open>Events and statistics\<close>

definition NN_SOCKBASE_EVENT_IN :: int where "NN_SOCKBASE_EVENT_IN = 1"
definition NN_SOCKBASE_EVENT_OUT :: int where "NN_SOCKBASE_EVENT_OUT = 2"

datatype nn_stat =
  NN_STAT_ESTABLISHED_CONNECTIONS | NN_STAT_ACCEPTED_CONNECTIONS | NN_STAT_DROPPED_CONNECTIONS
| NN_STAT_BROKEN_CONNECTIONS | NN_STAT_CONNECT_ERRORS | NN_STAT_BIND_ERRORS | NN_STAT_ACCEPT_ERRORS
| NN_STAT_MESSAGES_SENT | NN_STAT_MESSAGES_RECEIVED | NN_STAT_BYTES_SENT | NN_STAT_BYTES_RECEIVED
| NN_STAT_CURRENT_CONNECTIONS | NN_STAT_INPROGRESS_CONNECTIONS | NN_STAT_CURRENT_SND_PRIORITY
| NN_STAT_CURRENT_EP_ERRORS

record statistics =
  established_connections :: u64
  accepted_connections :: u64
  dropped_connections :: u64
  broken_connections :: u64
  connect_errors :: u64
  bind_errors :: u64
  accept_errors :: u64
  messages_sent :: u64
  messages_received :: u64
  bytes_sent :: u64
  bytes_received :: u64
  current_connections :: int
  inprogress_connections :: int
  current_snd_priority :: int
  current_ep_errors :: int

text \<open>
  A level is an \<open>int\<close>; the increment is an \<open>int64_t\<close>. A level that would leave the range of \<open>int\<close>
  is undefined behaviour.
\<close>

definition level_add :: "int \<Rightarrow> int \<Rightarrow> int option" where
  "level_add level increment = (
     if (increment > 0 \<or> level \<ge> - increment) \<and> increment < 2 ^ 31 - 1 \<and> increment > - (2 ^ 31 - 1)
       \<and> level + increment < 2 ^ 31
     then Some (level + increment) else None)"

definition nn_sock_stat_increment :: "statistics \<Rightarrow> nn_stat \<Rightarrow> int \<Rightarrow> statistics option" where
  "nn_sock_stat_increment self name increment = (
     let i = (word_of_int increment :: u64) in
     case name of
       NN_STAT_ESTABLISHED_CONNECTIONS \<Rightarrow> if increment > 0
         then Some (self\<lparr>established_connections := established_connections self + i\<rparr>) else None
     | NN_STAT_ACCEPTED_CONNECTIONS \<Rightarrow> if increment > 0
         then Some (self\<lparr>accepted_connections := accepted_connections self + i\<rparr>) else None
     | NN_STAT_DROPPED_CONNECTIONS \<Rightarrow> if increment > 0
         then Some (self\<lparr>dropped_connections := dropped_connections self + i\<rparr>) else None
     | NN_STAT_BROKEN_CONNECTIONS \<Rightarrow> if increment > 0
         then Some (self\<lparr>broken_connections := broken_connections self + i\<rparr>) else None
     | NN_STAT_CONNECT_ERRORS \<Rightarrow> if increment > 0
         then Some (self\<lparr>connect_errors := connect_errors self + i\<rparr>) else None
     | NN_STAT_BIND_ERRORS \<Rightarrow> if increment > 0
         then Some (self\<lparr>bind_errors := bind_errors self + i\<rparr>) else None
     | NN_STAT_ACCEPT_ERRORS \<Rightarrow> if increment > 0
         then Some (self\<lparr>accept_errors := accept_errors self + i\<rparr>) else None
     | NN_STAT_MESSAGES_SENT \<Rightarrow> if increment > 0
         then Some (self\<lparr>messages_sent := messages_sent self + i\<rparr>) else None
     | NN_STAT_MESSAGES_RECEIVED \<Rightarrow> if increment > 0
         then Some (self\<lparr>messages_received := messages_received self + i\<rparr>) else None
     | NN_STAT_BYTES_SENT \<Rightarrow> if increment \<ge> 0
         then Some (self\<lparr>bytes_sent := bytes_sent self + i\<rparr>) else None
     | NN_STAT_BYTES_RECEIVED \<Rightarrow> if increment \<ge> 0
         then Some (self\<lparr>bytes_received := bytes_received self + i\<rparr>) else None
     | NN_STAT_CURRENT_CONNECTIONS \<Rightarrow> map_option (\<lambda>l. self\<lparr>current_connections := l\<rparr>)
         (level_add (current_connections self) increment)
     | NN_STAT_INPROGRESS_CONNECTIONS \<Rightarrow> map_option (\<lambda>l. self\<lparr>inprogress_connections := l\<rparr>)
         (level_add (inprogress_connections self) increment)
     | NN_STAT_CURRENT_SND_PRIORITY \<Rightarrow> if increment > 0 \<and> increment \<le> 16 \<or> increment = -1
         then Some (self\<lparr>current_snd_priority := increment\<rparr>) else None
     | NN_STAT_CURRENT_EP_ERRORS \<Rightarrow> map_option (\<lambda>l. self\<lparr>current_ep_errors := l\<rparr>)
         (level_add (current_ep_errors self) increment))"

lemma level_add_nonneg: "level_add l i = Some l' \<Longrightarrow> 0 \<le> l \<Longrightarrow> 0 \<le> l' \<and> l' < 2 ^ 31"
  by (auto simp: level_add_def split: if_splits)

section \<open>Receiving until a message is accepted\<close>

text \<open>
  \<open>while (1) { receive; leave if there is nothing; leave if the message is fine; drop it; }\<close>
\<close>

partial_function (option) drop_until ::
  "('s \<Rightarrow> (int \<times> 'm option \<times> 's) option) \<Rightarrow> ('m \<Rightarrow> bool option) \<Rightarrow> 's \<Rightarrow> (int \<times> 'm option \<times> 's) option" where
  "drop_until recv keep s = do {
     (rc, m, s') \<leftarrow> recv s;
     case m of None \<Rightarrow> Some (rc, None, s')
     | Some m \<Rightarrow> do { k \<leftarrow> keep m; if k then Some (rc, Some m, s') else drop_until recv keep s' } }"

inductive receives :: "('s \<Rightarrow> (int \<times> 'm option \<times> 's) option) \<Rightarrow> 's \<Rightarrow> 'm list \<Rightarrow> 's \<Rightarrow> bool"
  for recv where
  receives_nil: "receives recv s [] s"
| receives_cons: "recv s = Some (rc, Some m, s') \<Longrightarrow> receives recv s' ms s'' \<Longrightarrow> receives recv s (m # ms) s''"

inductive_simps receives_Nil [simp]: "receives recv s [] s'"

text \<open>
  A source of messages that runs dry: every message taken out brings it nearer to its end. The
  loop then ends, having dropped exactly what was not accepted.
\<close>

locale draining_source =
  fixes recv :: "'s \<Rightarrow> (int \<times> 'm option \<times> 's) option"
    and keep :: "'m \<Rightarrow> bool option"
    and ok :: "'s \<Rightarrow> bool"
    and left :: "'s \<Rightarrow> nat"
  assumes recv_ok: "ok s \<Longrightarrow> \<exists>rc m s'. recv s = Some (rc, m, s') \<and> ok s' \<and> (m \<noteq> None \<longrightarrow> left s' < left s)"
    and keep_ok: "ok s \<Longrightarrow> recv s = Some (rc, Some m, s') \<Longrightarrow> keep m \<noteq> None"
begin

lemma drop_until_ends:
  "ok s \<Longrightarrow> \<exists>ds t rc m s'. drop_until recv keep s = Some (rc, m, s') \<and> ok s' \<and> ok t
     \<and> receives recv s ds t \<and> (\<forall>d \<in> set ds. keep d = Some False) \<and> recv t = Some (rc, m, s')
     \<and> (\<forall>x. m = Some x \<longrightarrow> keep x = Some True)"
proof (induction "left s" arbitrary: s rule: less_induct)
  case less
  obtain rc m s' where r: "recv s = Some (rc, m, s')" "ok s'" "m \<noteq> None \<longrightarrow> left s' < left s"
    using recv_ok [OF less.prems] by blast
  have un: "drop_until recv keep s = (case m of None \<Rightarrow> Some (rc, None, s')
      | Some m \<Rightarrow> do { k \<leftarrow> keep m; if k then Some (rc, Some m, s') else drop_until recv keep s' })"
    by (subst drop_until.simps) (simp add: r(1))
  show ?case
  proof (cases m)
    case None
    with r un less.prems show ?thesis by (intro exI [of _ "[]"] exI [of _ s]) simp
  next
    case (Some x)
    then obtain k where k: "keep x = Some k" using keep_ok [OF less.prems, of rc x s'] r(1) by auto
    show ?thesis
    proof (cases k)
      case True
      with r un less.prems Some k show ?thesis by (intro exI [of _ "[]"] exI [of _ s]) simp
    next
      case False
      from r(3) Some have "left s' < left s" by simp
      from less.hyps [OF this r(2)] obtain ds t rc' m' s'' where
        "drop_until recv keep s' = Some (rc', m', s'')" "ok s''" "ok t" "receives recv s' ds t"
        "\<forall>d \<in> set ds. keep d = Some False" "recv t = Some (rc', m', s'')" "\<forall>x. m' = Some x \<longrightarrow> keep x = Some True"
        by blast
      with un Some k False r(1) show ?thesis
        by (intro exI [of _ "x # ds"] exI [of _ t]) (auto intro: receives_cons)
    qed
  qed
qed

end

section \<open>A transport that delivers what it announces\<close>

text \<open>
  \<open>avail p w\<close>: the messages that wait on pipe \<open>p\<close>. Receiving one leaves one less in all, and the
  transport reports completion, that is the arrival of the next, only if there is a next.
\<close>

definition honest_transport :: "'w transport \<Rightarrow> (nat \<Rightarrow> 'w \<Rightarrow> nat) \<Rightarrow> ('w \<Rightarrow> nat) \<Rightarrow> bool" where
  "honest_transport T avail pending \<longleftrightarrow> sane_transport T \<and>
     (\<forall>p w. 0 < avail p w \<longrightarrow> pending (snd (snd (snd (t_recv T p w)))) < pending w \<and>
        (fst (snd (snd (t_recv T p w))) \<longrightarrow> 0 < avail p (snd (snd (snd (t_recv T p w))))) \<and>
        (\<forall>q. q \<noteq> p \<longrightarrow> avail q (snd (snd (snd (t_recv T p w)))) = avail q w))"

text \<open>A fair queue whose scheduled pipes are idle and have messages.\<close>

definition fq_ok :: "(nat \<Rightarrow> 'w \<Rightarrow> nat) \<Rightarrow> nn_fq \<Rightarrow> 'w pipes \<Rightarrow> bool" where
  "fq_ok avail fq s \<longleftrightarrow> sched_ok (fq_data fq, fq_list fq) \<and>
     (\<forall>p \<in> sched_ready (fq_data fq, fq_list fq). can_recv s p \<and> 0 < avail p (world s))"

lemma pipe_recv_completion:
  assumes "nn_pipe_recv T p s = Some (rc, m, s')" "can_recv s' p"
  shows "fst (snd (snd (t_recv T p (world s))))"
  using assms by (auto simp: nn_pipe_recv_def Let_def split: bind_splits if_splits prod.splits)

lemma fq_recv_honest:
  assumes T: "honest_transport T avail pending" and ok: "fq_ok avail fq s"
  shows "(sched_ready (fq_data fq, fq_list fq) = {} \<and> nn_fq_recv T fq s = Some (- EAGAIN, None, fq, s))
    \<or> (\<exists>p rc fq' s'. p \<in> sched_ready (fq_data fq, fq_list fq)
        \<and> nn_fq_recv T fq s = Some (rc, Some (fst (snd (t_recv T p (world s))), p), fq', s')
        \<and> rc \<in> {0, NN_PIPE_PARSED} \<and> rc = fst (t_recv T p (world s))
        \<and> fq_ok avail fq' s' \<and> world s' = snd (snd (snd (t_recv T p (world s)))) \<and> pending (world s') < pending (world s)
        \<and> (\<forall>q. q \<noteq> p \<longrightarrow> pipe_at s' q = pipe_at s q) \<and> (\<forall>q. can_send s' q \<longleftrightarrow> can_send s q))"
proof -
  have sane: "sane_transport T" using T by (simp add: honest_transport_def)
  have sok: "sched_ok (fq_data fq, fq_list fq)" and idle: "\<forall>p \<in> sched_ready (fq_data fq, fq_list fq). can_recv s p"
    using ok by (simp_all add: fq_ok_def)
  from nn_fq_recv_step [OF sane sok idle] show ?thesis
  proof (elim disjE conjE exE)
    assume "sched_ready (fq_data fq, fq_list fq) = {}" "nn_fq_recv T fq s = Some (- EAGAIN, None, fq, s)"
    then show ?thesis by blast
  next
    fix p rc m fq' s'
    assume r: "p \<in> sched_ready (fq_data fq, fq_list fq)" "nn_pipe_recv T p s = Some (rc, m, s')"
      "nn_fq_recv T fq s = Some (and rc (not NN_PIPE_RELEASE), Some (m, p), fq', s')"
      "sched_ok (fq_data fq', fq_list fq')" "\<forall>q \<in> sched_ready (fq_data fq', fq_list fq'). can_recv s' q"
      "sched_ready (fq_data fq', fq_list fq') = (if released rc
         then sched_ready (fq_data fq, fq_list fq) - {p} else sched_ready (fq_data fq, fq_list fq))"
    have av: "0 < avail p (world s)" and cr: "can_recv s p" using ok r(1) by (auto simp: fq_ok_def)
    have q: "and rc (not NN_PIPE_RELEASE) = fst (t_recv T p (world s))" "m = fst (snd (t_recv T p (world s)))"
        "world s' = snd (snd (snd (t_recv T p (world s))))" "released rc \<longleftrightarrow> \<not> can_recv s' p"
        "\<forall>q. q \<noteq> p \<longrightarrow> pipe_at s' q = pipe_at s q" "\<forall>q. can_send s' q \<longleftrightarrow> can_send s q"
      using pipe_recv_ok [OF sane cr] r(2) by auto
    have h: "pending (world s') < pending (world s)" "fst (snd (snd (t_recv T p (world s)))) \<longrightarrow> 0 < avail p (world s')"
        "\<forall>q. q \<noteq> p \<longrightarrow> avail q (world s') = avail q (world s)"
      using T av by (simp_all add: honest_transport_def q(3))
    have "0 < avail x (world s')" if "x \<in> sched_ready (fq_data fq', fq_list fq')" for x
    proof (cases "x = p")
      case True
      then have "can_recv s' p" using r(5) that by blast
      with pipe_recv_completion [OF r(2)] h(2) True show ?thesis by blast
    next
      case False
      then have "x \<in> sched_ready (fq_data fq, fq_list fq)" using that r(6) by (auto split: if_splits)
      with ok False h(3) show ?thesis by (simp add: fq_ok_def)
    qed
    then have "fq_ok avail fq' s'" using r(4,5) by (simp add: fq_ok_def)
    moreover have "and rc (not NN_PIPE_RELEASE) \<in> {0, NN_PIPE_PARSED}"
      using sane q(1) by (metis sane_transport_def)
    moreover have "nn_fq_recv T fq s =
        Some (and rc (not NN_PIPE_RELEASE), Some (fst (snd (t_recv T p (world s))), p), fq', s')"
      using r(3) unfolding q(2) .
    ultimately show ?thesis using r(1) q(1,3,5,6) h(1)
      by (intro disjI2 exI [of _ p] exI [of _ "and rc (not NN_PIPE_RELEASE)"] exI [of _ fq'] exI [of _ s'] conjI)
  qed
qed

section \<open>Fair queues of pipes that own their items\<close>

text \<open>The item of a pipe is at the address of the pipe, with a priority from 1 to 16.\<close>

definition own_items :: "prio_store \<Rightarrow> bool" where
  "own_items st \<longleftrightarrow> (\<forall>a d. st a = Some d \<longrightarrow> pd_pipe d = a \<and> 0 < pd_priority d \<and> pd_priority d \<le> int NN_PRIOLIST_SLOTS)"

definition fq_inv :: "(nat \<Rightarrow> 'w \<Rightarrow> nat) \<Rightarrow> nn_fq \<Rightarrow> 'w pipes \<Rightarrow> bool" where
  "fq_inv avail fq s \<longleftrightarrow> fq_ok avail fq s \<and> own_items (fq_data fq)"

lemma own_items_one: "own_items st \<Longrightarrow> one_item_each st"
  by (auto simp: own_items_def one_item_each_def)

lemma own_ready: "own_items st \<Longrightarrow> sched_ready (st, l) = {a. \<exists>d. st a = Some d \<and> pd_linked d}"
  by (auto simp: own_items_def sched_ready_def)

lemma fq_inv_iff: "fq_inv avail fq s \<longleftrightarrow> prio_ok (fq_data fq) (fq_list fq) \<and> own_items (fq_data fq) \<and>
    (\<forall>a d. fq_data fq a = Some d \<and> pd_linked d \<longrightarrow> can_recv s a \<and> 0 < avail a (world s))"
  using own_items_one by (auto simp: fq_inv_def fq_ok_def sched_ok_def own_ready)

lemma fq_inv_init: "fq_inv avail (nn_fq_init (\<lambda>_. None)) s"
  using prio_ok_init [of "\<lambda>_. None"] by (simp add: fq_inv_iff nn_fq_init_def own_items_def)

lemma fq_inv_mono:
  assumes "fq_inv avail fq s" "\<And>a. can_recv s a \<Longrightarrow> can_recv s' a" "\<And>a. 0 < avail a (world s) \<Longrightarrow> 0 < avail a (world s')"
  shows "fq_inv avail fq s'"
  using assms by (auto simp: fq_inv_iff)

lemma fq_inv_add:
  assumes "fq_inv avail fq s" "fq_data fq p = None" "1 \<le> prio" "prio \<le> 16"
  shows "fq_inv avail (nn_fq_add fq p p prio) s"
  using assms prio_ok_add [of "fq_data fq" "fq_list fq" p p prio]
  by (auto simp: fq_inv_iff nn_fq_add_def nn_priolist_add_def own_items_def NN_PRIOLIST_SLOTS_def)

lemma fq_inv_in:
  assumes inv: "fq_inv avail fq s" and p: "fq_data fq p = Some d" "\<not> pd_linked d"
    and now: "can_recv s' p" "0 < avail p (world s')"
    and others: "\<And>a. a \<noteq> p \<Longrightarrow> can_recv s a \<Longrightarrow> can_recv s' a" "\<And>a. a \<noteq> p \<Longrightarrow> 0 < avail a (world s) \<Longrightarrow> 0 < avail a (world s')"
  shows "\<exists>fq'. nn_fq_in fq p = Some fq' \<and> fq_inv avail fq' s' \<and> fq_data fq' = (fq_data fq)(p \<mapsto> d\<lparr>pd_linked := True\<rparr>)"
proof -
  have pok: "prio_ok (fq_data fq) (fq_list fq)" and own: "own_items (fq_data fq)" using inv by (simp_all add: fq_inv_iff)
  have pr: "0 < pd_priority d" "pd_priority d \<le> int NN_PRIOLIST_SLOTS" using own p(1) by (auto simp: own_items_def)
  let ?st = "(fq_data fq)(p \<mapsto> d\<lparr>pd_linked := True\<rparr>)"
  obtain l where l: "nn_priolist_activate (fq_data fq) (fq_list fq) p = Some (?st, l)" "prio_ok ?st l"
    using activate_ok [OF pok p pr] by blast
  have "own_items ?st" using own p(1) by (auto simp: own_items_def)
  then have "fq_inv avail \<lparr>fq_data = ?st, fq_list = l\<rparr> s'"
    using inv l(2) now others by (auto simp: fq_inv_iff)
  with l(1) show ?thesis by (simp add: nn_fq_in_def)
qed

lemma prio_ok_free:
  assumes ok: "prio_ok st l" and a: "\<forall>d. st a = Some d \<longrightarrow> \<not> pd_linked d"
  shows "prio_ok (st(a := None)) l"
proof -
  have "slot_ok (st(a := None)) i x" if "slot_ok st i x" for i x
  proof -
    have "a \<notin> set (slot_pipes x)" using that a by (auto simp: slot_ok_def)
    with that show ?thesis by (auto simp: slot_ok_def)
  qed
  with ok show ?thesis by (auto simp: prio_ok_def slots_ok_def)
qed

lemma fq_inv_rm:
  assumes inv: "fq_inv avail fq s" and p: "fq_data fq p = Some d"
  shows "\<exists>fq'. nn_fq_rm fq p = Some fq' \<and> fq_inv avail (fq'\<lparr>fq_data := (fq_data fq')(p := None)\<rparr>) s \<and>
    (fq_data fq')(p := None) = (fq_data fq)(p := None)"
proof -
  have pok: "prio_ok (fq_data fq) (fq_list fq)" and own: "own_items (fq_data fq)" using inv by (simp_all add: fq_inv_iff)
  let ?st = "(fq_data fq)(p \<mapsto> d\<lparr>pd_linked := False\<rparr>)"
  obtain l where l: "nn_priolist_rm (fq_data fq) (fq_list fq) p = Some (?st, l)" "prio_ok ?st l"
    using rm_ok [OF pok p] by blast
  have "prio_ok (?st(p := None)) l" by (rule prio_ok_free [OF l(2)]) simp
  moreover have "own_items (?st(p := None))" using own by (auto simp: own_items_def)
  ultimately have "fq_inv avail \<lparr>fq_data = ?st(p := None), fq_list = l\<rparr> s"
    using inv by (auto simp: fq_inv_iff)
  with l(1) show ?thesis by (simp add: nn_fq_rm_def)
qed

lemma advance_items:
  "nn_priolist_advance st p rel = Some (st', p') \<Longrightarrow> own_items st \<Longrightarrow> own_items st'"
  by (auto simp: nn_priolist_advance_def own_items_def Let_def split: bind_splits if_splits)

lemma fq_recv_items: "nn_fq_recv T fq s = Some (rc, m, fq', s') \<Longrightarrow> own_items (fq_data fq) \<Longrightarrow> own_items (fq_data fq')"
  using advance_items by (fastforce simp: nn_fq_recv_def split: bind_splits option.splits if_splits)

lemma fq_recv_dom:
  "nn_fq_recv T fq s = Some (rc, m, fq', s') \<Longrightarrow> dom (fq_data fq') = dom (fq_data fq)"
  by (auto simp: nn_fq_recv_def nn_priolist_advance_def Let_def split: bind_splits option.splits if_splits)

lemma fq_inv_recv:
  assumes T: "honest_transport T avail pending" and inv: "fq_inv avail fq s"
  shows "\<exists>rc m fq' s'. nn_fq_recv T fq s = Some (rc, m, fq', s') \<and> fq_inv avail fq' s' \<and>
    dom (fq_data fq') = dom (fq_data fq) \<and> (\<forall>q. can_send s' q \<longleftrightarrow> can_send s q) \<and>
    (case m of None \<Rightarrow> rc = - EAGAIN \<and> fq' = fq \<and> s' = s
     | Some (x, p) \<Rightarrow> p \<in> dom (fq_data fq) \<and> 0 < avail p (world s) \<and> x = fst (snd (t_recv T p (world s))) \<and>
         rc = fst (t_recv T p (world s)) \<and> rc \<in> {0, NN_PIPE_PARSED} \<and>
         world s' = snd (snd (snd (t_recv T p (world s)))) \<and> pending (world s') < pending (world s))"
proof -
  have ok: "fq_ok avail fq s" and own: "own_items (fq_data fq)" using inv by (simp_all add: fq_inv_def)
  from fq_recv_honest [OF T ok] show ?thesis
  proof (elim disjE conjE exE)
    assume "nn_fq_recv T fq s = Some (- EAGAIN, None, fq, s)"
    with inv show ?thesis by simp
  next
    fix p rc fq' s'
    assume r: "p \<in> sched_ready (fq_data fq, fq_list fq)"
      "nn_fq_recv T fq s = Some (rc, Some (fst (snd (t_recv T p (world s))), p), fq', s')"
      "rc \<in> {0, NN_PIPE_PARSED}" "rc = fst (t_recv T p (world s))" "fq_ok avail fq' s'"
      "world s' = snd (snd (snd (t_recv T p (world s))))" "pending (world s') < pending (world s)"
      "\<forall>q. can_send s' q \<longleftrightarrow> can_send s q"
    have "p \<in> dom (fq_data fq)" using r(1) own_ready [OF own] by auto
    moreover have "0 < avail p (world s)" using r(1) ok by (simp add: fq_ok_def)
    moreover have "fq_inv avail fq' s'" using r(5) fq_recv_items [OF r(2) own] by (simp add: fq_inv_def)
    ultimately show ?thesis using r fq_recv_dom [OF r(2)] by auto
  qed
qed

end
