(* ===== verification/NN_Sockets.thy ===== *)
theory NN_Sockets
  imports NN_Protocol NN_Trie
begin

text \<open>
  The raw sockets of the protocols without a state machine of their own: \<open>protocols/pair/xpair.c\<close>,
  \<open>pipeline/xpush.c\<close> and \<open>xpull.c\<close>, \<open>pubsub/xpub.c\<close> and \<open>xsub.c\<close>, \<open>bus/xbus.c\<close> and \<open>bus.c\<close>. The
  cooked sockets \<open>pair.c\<close>, \<open>push.c\<close>, \<open>pull.c\<close>, \<open>pub.c\<close> and \<open>sub.c\<close> are the raw ones under another
  name.

  The data a socket attaches to a pipe with \<open>nn_pipe_setdata\<close> lives at the address of the pipe: the
  item of pipe \<open>p\<close> in a load balancer, fair queue or distributor is item \<open>p\<close>. Deallocating the data
  removes the item. \<open>None\<close> is a failed assertion.
\<close>

section \<open>PAIR\<close>

record nn_xpair =
  xpair_excl :: nn_excl

definition nn_xpair_init :: nn_xpair where
  "nn_xpair_init = \<lparr>xpair_excl = nn_excl_init\<rparr>"

definition nn_xpair_term :: "nn_xpair \<Rightarrow> unit option" where
  "nn_xpair_term self = nn_excl_term (xpair_excl self)"

definition nn_xpair_destroy :: "nn_xpair \<Rightarrow> unit option" where
  "nn_xpair_destroy self = nn_xpair_term self"

definition nn_xpair_add :: "nn_xpair \<Rightarrow> nat \<Rightarrow> int \<times> nn_xpair" where
  "nn_xpair_add self pipe = (let (rc, x) = nn_excl_add (xpair_excl self) pipe in (rc, self\<lparr>xpair_excl := x\<rparr>))"

definition nn_xpair_rm :: "nn_xpair \<Rightarrow> nat \<Rightarrow> nn_xpair option" where
  "nn_xpair_rm self pipe = map_option (\<lambda>x. self\<lparr>xpair_excl := x\<rparr>) (nn_excl_rm (xpair_excl self) pipe)"

definition nn_xpair_in :: "nn_xpair \<Rightarrow> nat \<Rightarrow> nn_xpair option" where
  "nn_xpair_in self pipe = map_option (\<lambda>x. self\<lparr>xpair_excl := x\<rparr>) (nn_excl_in (xpair_excl self) pipe)"

definition nn_xpair_out :: "nn_xpair \<Rightarrow> nat \<Rightarrow> nn_xpair option" where
  "nn_xpair_out self pipe = map_option (\<lambda>x. self\<lparr>xpair_excl := x\<rparr>) (nn_excl_out (xpair_excl self) pipe)"

definition nn_xpair_events :: "nn_xpair \<Rightarrow> int" where
  "nn_xpair_events self = (
     let events = 0;
         events = (if nn_excl_can_recv (xpair_excl self) then or events NN_SOCKBASE_EVENT_IN else events)
     in if nn_excl_can_send (xpair_excl self) then or events NN_SOCKBASE_EVENT_OUT else events)"

definition nn_xpair_send ::
  "'w transport \<Rightarrow> nn_xpair \<Rightarrow> msg \<Rightarrow> 'w pipes \<Rightarrow> (int \<times> nn_xpair \<times> 'w pipes) option" where
  "nn_xpair_send T self m s = do {
     (rc, x, s) \<leftarrow> nn_excl_send T (xpair_excl self) m s;
     Some (rc, self\<lparr>xpair_excl := x\<rparr>, s) }"

definition nn_xpair_recv ::
  "'w transport \<Rightarrow> nn_xpair \<Rightarrow> 'w pipes \<Rightarrow> (int \<times> msg option \<times> nn_xpair \<times> 'w pipes) option" where
  "nn_xpair_recv T self s = do {
     (rc, m, x, s) \<leftarrow> nn_excl_recv T (xpair_excl self) s;
     Some (if rc < 0 then rc else 0, m, self\<lparr>xpair_excl := x\<rparr>, s) }"

section \<open>PUSH\<close>

record nn_xpush =
  xpush_lb :: nn_lb
  xpush_stats :: statistics

definition nn_xpush_init :: "statistics \<Rightarrow> nn_xpush" where
  "nn_xpush_init stats = \<lparr>xpush_lb = nn_lb_init (\<lambda>_. None), xpush_stats = stats\<rparr>"

definition nn_xpush_term :: "nn_xpush \<Rightarrow> unit option" where
  "nn_xpush_term self = nn_lb_term (xpush_lb self)"

definition nn_xpush_destroy :: "nn_xpush \<Rightarrow> unit option" where
  "nn_xpush_destroy self = nn_xpush_term self"

definition nn_xpush_add :: "nn_xpush \<Rightarrow> nat \<Rightarrow> 'w pipes \<Rightarrow> (int \<times> nn_xpush) option" where
  "nn_xpush_add self pipe s = do {
     b \<leftarrow> pipe_at s pipe;
     let sndprio = pb_sndprio b;
     if \<not> (sndprio \<ge> 1 \<and> sndprio \<le> 16) then None
     else Some (0, self\<lparr>xpush_lb := nn_lb_add (xpush_lb self) pipe pipe sndprio\<rparr>) }"

definition free_lb_data :: "nn_lb \<Rightarrow> nat \<Rightarrow> nn_lb" where
  "free_lb_data lb pipe = lb\<lparr>lb_data := (lb_data lb)(pipe := None)\<rparr>"

definition nn_xpush_rm :: "nn_xpush \<Rightarrow> nat \<Rightarrow> nn_xpush option" where
  "nn_xpush_rm self pipe = do {
     lb \<leftarrow> nn_lb_rm (xpush_lb self) pipe;
     let lb = free_lb_data lb pipe;
     stats \<leftarrow> nn_sock_stat_increment (xpush_stats self) NN_STAT_CURRENT_SND_PRIORITY (nn_lb_get_priority lb);
     Some \<lparr>xpush_lb = lb, xpush_stats = stats\<rparr> }"

definition nn_xpush_in :: "nn_xpush \<Rightarrow> nat \<Rightarrow> nn_xpush option" where
  "nn_xpush_in self pipe = Some self"

definition nn_xpush_out :: "nn_xpush \<Rightarrow> nat \<Rightarrow> nn_xpush option" where
  "nn_xpush_out self pipe = do {
     lb \<leftarrow> nn_lb_out (xpush_lb self) pipe;
     stats \<leftarrow> nn_sock_stat_increment (xpush_stats self) NN_STAT_CURRENT_SND_PRIORITY (nn_lb_get_priority lb);
     Some \<lparr>xpush_lb = lb, xpush_stats = stats\<rparr> }"

definition nn_xpush_events :: "nn_xpush \<Rightarrow> int" where
  "nn_xpush_events self = (if nn_lb_can_send (xpush_lb self) then NN_SOCKBASE_EVENT_OUT else 0)"

definition nn_xpush_send ::
  "'w transport \<Rightarrow> nn_xpush \<Rightarrow> msg \<Rightarrow> 'w pipes \<Rightarrow> (int \<times> nn_xpush \<times> 'w pipes) option" where
  "nn_xpush_send T self m s = do {
     (rc, to, lb, s) \<leftarrow> nn_lb_send T (xpush_lb self) m s;
     Some (rc, self\<lparr>xpush_lb := lb\<rparr>, s) }"

section \<open>PULL\<close>

record nn_xpull =
  xpull_fq :: nn_fq

definition nn_xpull_init :: nn_xpull where
  "nn_xpull_init = \<lparr>xpull_fq = nn_fq_init (\<lambda>_. None)\<rparr>"

definition nn_xpull_term :: "nn_xpull \<Rightarrow> unit option" where
  "nn_xpull_term self = nn_fq_term (xpull_fq self)"

definition nn_xpull_destroy :: "nn_xpull \<Rightarrow> unit option" where
  "nn_xpull_destroy self = nn_xpull_term self"

definition free_fq_data :: "nn_fq \<Rightarrow> nat \<Rightarrow> nn_fq" where
  "free_fq_data fq pipe = fq\<lparr>fq_data := (fq_data fq)(pipe := None)\<rparr>"

definition nn_xpull_add :: "nn_xpull \<Rightarrow> nat \<Rightarrow> 'w pipes \<Rightarrow> (int \<times> nn_xpull) option" where
  "nn_xpull_add self pipe s = do {
     b \<leftarrow> pipe_at s pipe;
     let rcvprio = pb_rcvprio b;
     if \<not> (rcvprio \<ge> 1 \<and> rcvprio \<le> 16) then None
     else Some (0, self\<lparr>xpull_fq := nn_fq_add (xpull_fq self) pipe pipe rcvprio\<rparr>) }"

definition nn_xpull_rm :: "nn_xpull \<Rightarrow> nat \<Rightarrow> nn_xpull option" where
  "nn_xpull_rm self pipe = do {
     fq \<leftarrow> nn_fq_rm (xpull_fq self) pipe;
     Some (self\<lparr>xpull_fq := free_fq_data fq pipe\<rparr>) }"

definition nn_xpull_in :: "nn_xpull \<Rightarrow> nat \<Rightarrow> nn_xpull option" where
  "nn_xpull_in self pipe = map_option (\<lambda>fq. self\<lparr>xpull_fq := fq\<rparr>) (nn_fq_in (xpull_fq self) pipe)"

definition nn_xpull_out :: "nn_xpull \<Rightarrow> nat \<Rightarrow> nn_xpull option" where
  "nn_xpull_out self pipe = Some self"

definition nn_xpull_events :: "nn_xpull \<Rightarrow> int" where
  "nn_xpull_events self = (if nn_fq_can_recv (xpull_fq self) then NN_SOCKBASE_EVENT_IN else 0)"

definition nn_xpull_recv ::
  "'w transport \<Rightarrow> nn_xpull \<Rightarrow> 'w pipes \<Rightarrow> (int \<times> msg option \<times> nn_xpull \<times> 'w pipes) option" where
  "nn_xpull_recv T self s = do {
     (rc, m, fq, s) \<leftarrow> nn_fq_recv T (xpull_fq self) s;
     Some (if rc < 0 then rc else 0, map_option fst m, self\<lparr>xpull_fq := fq\<rparr>, s) }"

section \<open>PUB\<close>

record nn_xpub =
  xpub_outpipes :: nn_dist

definition nn_xpub_init :: nn_xpub where
  "nn_xpub_init = \<lparr>xpub_outpipes = nn_dist_init (\<lambda>_. None)\<rparr>"

definition nn_xpub_term :: "nn_xpub \<Rightarrow> unit option" where
  "nn_xpub_term self = nn_dist_term (xpub_outpipes self)"

definition nn_xpub_destroy :: "nn_xpub \<Rightarrow> unit option" where
  "nn_xpub_destroy self = nn_xpub_term self"

definition nn_xpub_add :: "nn_xpub \<Rightarrow> nat \<Rightarrow> int \<times> nn_xpub" where
  "nn_xpub_add self pipe = (0, self\<lparr>xpub_outpipes := nn_dist_add (xpub_outpipes self) pipe pipe\<rparr>)"

definition free_dist_data :: "nn_dist \<Rightarrow> nat \<Rightarrow> nn_dist" where
  "free_dist_data d pipe = d\<lparr>dist_data := (dist_data d)(pipe := None)\<rparr>"

definition nn_xpub_rm :: "nn_xpub \<Rightarrow> nat \<Rightarrow> nn_xpub option" where
  "nn_xpub_rm self pipe = do {
     d \<leftarrow> nn_dist_rm (xpub_outpipes self) pipe;
     Some (self\<lparr>xpub_outpipes := free_dist_data d pipe\<rparr>) }"

definition nn_xpub_in :: "nn_xpub \<Rightarrow> nat \<Rightarrow> nn_xpub option" where
  "nn_xpub_in self pipe = None"

definition nn_xpub_out :: "nn_xpub \<Rightarrow> nat \<Rightarrow> nn_xpub option" where
  "nn_xpub_out self pipe = map_option (\<lambda>d. self\<lparr>xpub_outpipes := d\<rparr>) (nn_dist_out (xpub_outpipes self) pipe)"

definition nn_xpub_events :: "nn_xpub \<Rightarrow> int" where
  "nn_xpub_events self = NN_SOCKBASE_EVENT_OUT"

definition nn_xpub_send ::
  "'w transport \<Rightarrow> nn_xpub \<Rightarrow> msg \<Rightarrow> 'w pipes \<Rightarrow> (int \<times> nn_xpub \<times> 'w pipes) option" where
  "nn_xpub_send T self m s = do {
     (rc, d, s) \<leftarrow> nn_dist_send T (xpub_outpipes self) m None s;
     Some (rc, self\<lparr>xpub_outpipes := d\<rparr>, s) }"

section \<open>SUB\<close>

definition NN_SUB :: int where "NN_SUB = 2 * 16 + 1"
definition NN_SUB_SUBSCRIBE :: int where "NN_SUB_SUBSCRIBE = 1"
definition NN_SUB_UNSUBSCRIBE :: int where "NN_SUB_UNSUBSCRIBE = 2"

record nn_xsub =
  xsub_fq :: nn_fq
  xsub_trie :: nn_trie

definition nn_xsub_init :: nn_xsub where
  "nn_xsub_init = \<lparr>xsub_fq = nn_fq_init (\<lambda>_. None), xsub_trie = nn_trie_init\<rparr>"

definition nn_xsub_term :: "nn_xsub \<Rightarrow> unit option" where
  "nn_xsub_term self = do { _ \<leftarrow> nn_trie_term (xsub_trie self); nn_fq_term (xsub_fq self) }"

definition nn_xsub_destroy :: "nn_xsub \<Rightarrow> unit option" where
  "nn_xsub_destroy self = nn_xsub_term self"

definition nn_xsub_add :: "nn_xsub \<Rightarrow> nat \<Rightarrow> 'w pipes \<Rightarrow> (int \<times> nn_xsub) option" where
  "nn_xsub_add self pipe s = do {
     b \<leftarrow> pipe_at s pipe;
     let rcvprio = pb_rcvprio b;
     if \<not> (rcvprio \<ge> 1 \<and> rcvprio \<le> 16) then None
     else Some (0, self\<lparr>xsub_fq := nn_fq_add (xsub_fq self) pipe pipe rcvprio\<rparr>) }"

definition nn_xsub_rm :: "nn_xsub \<Rightarrow> nat \<Rightarrow> nn_xsub option" where
  "nn_xsub_rm self pipe = do {
     fq \<leftarrow> nn_fq_rm (xsub_fq self) pipe;
     Some (self\<lparr>xsub_fq := free_fq_data fq pipe\<rparr>) }"

definition nn_xsub_in :: "nn_xsub \<Rightarrow> nat \<Rightarrow> nn_xsub option" where
  "nn_xsub_in self pipe = map_option (\<lambda>fq. self\<lparr>xsub_fq := fq\<rparr>) (nn_fq_in (xsub_fq self) pipe)"

definition nn_xsub_out :: "nn_xsub \<Rightarrow> nat \<Rightarrow> nn_xsub option" where
  "nn_xsub_out self pipe = Some self"

definition nn_xsub_events :: "nn_xsub \<Rightarrow> int" where
  "nn_xsub_events self = (if nn_fq_can_recv (xsub_fq self) then NN_SOCKBASE_EVENT_IN else 0)"

text \<open>A fair queue and its pipes as a source of messages. A negative code but \<open>-EAGAIN\<close> fails an
  assertion, in the fair queue already.\<close>

definition fq_source ::
  "'w transport \<Rightarrow> nn_fq \<times> 'w pipes \<Rightarrow> (int \<times> (msg \<times> nat) option \<times> nn_fq \<times> 'w pipes) option" where
  "fq_source T st = nn_fq_recv T (fst st) (snd st)"

text \<open>
  \<open>behind m\<close> is what lies in memory behind the body of \<open>m\<close>: the trie is given the address and the
  size of the body.
\<close>

definition subscribed :: "(msg \<Rightarrow> byte list) \<Rightarrow> nn_trie \<Rightarrow> msg \<times> nat \<Rightarrow> bool option" where
  "subscribed behind trie mp = do {
     rc \<leftarrow> nn_trie_match trie (m_body (fst mp) @ behind (fst mp)) (word_of_nat (length (m_body (fst mp))));
     if rc = 0 then Some False else if rc = 1 then Some True else None }"

definition nn_xsub_recv ::
  "'w transport \<Rightarrow> (msg \<Rightarrow> byte list) \<Rightarrow> nn_xsub \<Rightarrow> 'w pipes \<Rightarrow> (int \<times> msg option \<times> nn_xsub \<times> 'w pipes) option" where
  "nn_xsub_recv T behind self s = do {
     (rc, m, fq, s) \<leftarrow> drop_until (fq_source T) (subscribed behind (xsub_trie self)) (xsub_fq self, s);
     Some (if m = None then rc else 0, map_option fst m, self\<lparr>xsub_fq := fq\<rparr>, s) }"

definition nn_xsub_setopt :: "nn_xsub \<Rightarrow> int \<Rightarrow> int \<Rightarrow> byte list \<Rightarrow> (int \<times> nn_xsub) option" where
  "nn_xsub_setopt self level option optval = (
     if level \<noteq> NN_SUB then Some (- ENOPROTOOPT, self)
     else if option = NN_SUB_SUBSCRIBE then do {
       (rc, t) \<leftarrow> nn_trie_subscribe (xsub_trie self) optval;
       Some (if rc \<ge> 0 then 0 else rc, self\<lparr>xsub_trie := t\<rparr>) }
     else if option = NN_SUB_UNSUBSCRIBE then do {
       (rc, t) \<leftarrow> nn_trie_unsubscribe (xsub_trie self) optval;
       Some (if rc \<ge> 0 then 0 else rc, self\<lparr>xsub_trie := t\<rparr>) }
     else Some (- ENOPROTOOPT, self))"

section \<open>BUS\<close>

record nn_xbus =
  xbus_outpipes :: nn_dist
  xbus_inpipes :: nn_fq

definition nn_xbus_init :: nn_xbus where
  "nn_xbus_init = \<lparr>xbus_outpipes = nn_dist_init (\<lambda>_. None), xbus_inpipes = nn_fq_init (\<lambda>_. None)\<rparr>"

definition nn_xbus_term :: "nn_xbus \<Rightarrow> unit option" where
  "nn_xbus_term self = do { _ \<leftarrow> nn_fq_term (xbus_inpipes self); nn_dist_term (xbus_outpipes self) }"

definition nn_xbus_destroy :: "nn_xbus \<Rightarrow> unit option" where
  "nn_xbus_destroy self = nn_xbus_term self"

definition nn_xbus_add :: "nn_xbus \<Rightarrow> nat \<Rightarrow> 'w pipes \<Rightarrow> (int \<times> nn_xbus) option" where
  "nn_xbus_add self pipe s = do {
     b \<leftarrow> pipe_at s pipe;
     let rcvprio = pb_rcvprio b;
     if \<not> (rcvprio \<ge> 1 \<and> rcvprio \<le> 16) then None
     else Some (0, self\<lparr>xbus_inpipes := nn_fq_add (xbus_inpipes self) pipe pipe rcvprio,
       xbus_outpipes := nn_dist_add (xbus_outpipes self) pipe pipe\<rparr>) }"

definition nn_xbus_rm :: "nn_xbus \<Rightarrow> nat \<Rightarrow> nn_xbus option" where
  "nn_xbus_rm self pipe = do {
     fq \<leftarrow> nn_fq_rm (xbus_inpipes self) pipe;
     d \<leftarrow> nn_dist_rm (xbus_outpipes self) pipe;
     Some \<lparr>xbus_outpipes = free_dist_data d pipe, xbus_inpipes = free_fq_data fq pipe\<rparr> }"

definition nn_xbus_in :: "nn_xbus \<Rightarrow> nat \<Rightarrow> nn_xbus option" where
  "nn_xbus_in self pipe = map_option (\<lambda>fq. self\<lparr>xbus_inpipes := fq\<rparr>) (nn_fq_in (xbus_inpipes self) pipe)"

definition nn_xbus_out :: "nn_xbus \<Rightarrow> nat \<Rightarrow> nn_xbus option" where
  "nn_xbus_out self pipe = map_option (\<lambda>d. self\<lparr>xbus_outpipes := d\<rparr>) (nn_dist_out (xbus_outpipes self) pipe)"

definition nn_xbus_events :: "nn_xbus \<Rightarrow> int" where
  "nn_xbus_events self =
     or (if nn_fq_can_recv (xbus_inpipes self) then NN_SOCKBASE_EVENT_IN else 0) NN_SOCKBASE_EVENT_OUT"

text \<open>A pointer to a pipe in a header of eight bytes, in the byte order of the host (little-endian).\<close>

definition pipe_bytes :: "nat \<Rightarrow> byte list" where
  "pipe_bytes pipe = le_bytes 8 pipe"

definition nn_xbus_send ::
  "'w transport \<Rightarrow> nn_xbus \<Rightarrow> msg \<Rightarrow> 'w pipes \<Rightarrow> (int \<times> nn_xbus \<times> 'w pipes) option" where
  "nn_xbus_send T self m s = (
     let hdrsz = length (m_sphdr m) in
     if hdrsz \<noteq> 0 \<and> hdrsz \<noteq> 8 then Some (- EINVAL, self, s)
     else do {
       let exclude = (if hdrsz = 0 then None else Some (le_nat (m_sphdr m)));
       let m = (if hdrsz = 0 then m else m\<lparr>m_sphdr := []\<rparr>);
       (rc, d, s) \<leftarrow> nn_dist_send T (xbus_outpipes self) m exclude s;
       Some (rc, self\<lparr>xbus_outpipes := d\<rparr>, s) })"

definition no_header :: "msg \<times> nat \<Rightarrow> bool option" where
  "no_header mp = Some (m_sphdr (fst mp) = [])"

definition nn_xbus_recv ::
  "'w transport \<Rightarrow> nn_xbus \<Rightarrow> 'w pipes \<Rightarrow> (int \<times> msg option \<times> nn_xbus \<times> 'w pipes) option" where
  "nn_xbus_recv T self s = do {
     (rc, m, fq, s) \<leftarrow> drop_until (fq_source T) no_header (xbus_inpipes self, s);
     let self = self\<lparr>xbus_inpipes := fq\<rparr>;
     case m of None \<Rightarrow> Some (rc, None, self, s)
     | Some (m, pipe) \<Rightarrow> Some (0, Some (m\<lparr>m_sphdr := pipe_bytes pipe\<rparr>), self, s) }"

definition nn_bus_send ::
  "'w transport \<Rightarrow> nn_xbus \<Rightarrow> msg \<Rightarrow> 'w pipes \<Rightarrow> (int \<times> nn_xbus \<times> 'w pipes) option" where
  "nn_bus_send T self m s = (
     if m_sphdr m \<noteq> [] then Some (- EINVAL, self, s)
     else do {
       (rc, self, s) \<leftarrow> nn_xbus_send T self m s;
       if rc = 0 then Some (0, self, s) else None })"

definition nn_bus_recv ::
  "'w transport \<Rightarrow> nn_xbus \<Rightarrow> 'w pipes \<Rightarrow> (int \<times> msg option \<times> nn_xbus \<times> 'w pipes) option" where
  "nn_bus_recv T self s = do {
     (rc, m, self, s) \<leftarrow> nn_xbus_recv T self s;
     if rc = - EAGAIN then Some (- EAGAIN, m, self, s)
     else if rc \<noteq> 0 then None
     else do {
       m \<leftarrow> m;
       if length (m_sphdr m) \<noteq> 8 then None
       else Some (0, Some (m\<lparr>m_sphdr := []\<rparr>), self, s) } }"

end
