(* ===== verification/NN_Socket_Props.thy ===== *)
theory NN_Socket_Props
  imports NN_Sockets
begin

text \<open>
  What the subscriber and the bus socket promise, over any transport that delivers what it
  announces: the receiving loops are instances of \<open>draining_source\<close>.
\<close>

section \<open>The receiving loops\<close>

definition source_ok :: "'w transport \<Rightarrow> (nat \<Rightarrow> 'w \<Rightarrow> nat) \<Rightarrow> ('w \<Rightarrow> nat) \<Rightarrow> nat set \<Rightarrow>
    (msg \<times> nat \<Rightarrow> bool option) \<Rightarrow> nn_fq \<times> 'w pipes \<Rightarrow> bool" where
  "source_ok T avail pending D keep st \<longleftrightarrow> honest_transport T avail pending \<and> fq_inv avail (fst st) (snd st) \<and>
     dom (fq_data (fst st)) = D \<and> (\<forall>p w. keep (fst (snd (t_recv T p w)), p) \<noteq> None)"

interpretation fq_source: draining_source "fq_source T" keep "source_ok T avail pending D keep"
    "\<lambda>st. pending (world (snd st))"
  for T :: "'w transport" and avail pending D keep
proof unfold_locales
  fix st :: "nn_fq \<times> 'w pipes" and rc x s'
  assume ok: "source_ok T avail pending D keep st"
  then have T: "honest_transport T avail pending" and inv: "fq_inv avail (fst st) (snd st)"
    by (simp_all add: source_ok_def)
  from fq_inv_recv [OF T inv] show "\<exists>rc m s'. fq_source T st = Some (rc, m, s') \<and> source_ok T avail pending D keep s' \<and>
      (m \<noteq> None \<longrightarrow> pending (world (snd s')) < pending (world (snd st)))"
    using ok by (fastforce simp: fq_source_def source_ok_def split: option.splits)
  assume "fq_source T st = Some (rc, Some x, s')"
  with fq_inv_recv [OF T inv] have "x = (fst (snd (t_recv T (snd x) (world (snd st)))), snd x)"
    by (auto simp: fq_source_def)
  then show "keep x \<noteq> None" using ok unfolding source_ok_def by metis
qed

text \<open>The loop ends; what it took out and did not deliver was not accepted.\<close>

lemma drop_until_result:
  assumes "honest_transport T avail pending" "fq_inv avail fq s" "\<And>p w. keep (fst (snd (t_recv T p w)), p) \<noteq> None"
  shows "\<exists>ds t rc m fq' s'. drop_until (fq_source T) keep (fq, s) = Some (rc, m, fq', s') \<and>
    receives (fq_source T) (fq, s) ds t \<and> (\<forall>d \<in> set ds. keep d = Some False) \<and>
    fq_source T t = Some (rc, m, fq', s') \<and> fq_inv avail fq' s' \<and> dom (fq_data fq') = dom (fq_data fq) \<and>
    (case m of None \<Rightarrow> rc = - EAGAIN | Some (x, p) \<Rightarrow> rc \<in> {0, NN_PIPE_PARSED} \<and> keep (x, p) = Some True \<and> p \<in> dom (fq_data fq))"
proof -
  have "source_ok T avail pending (dom (fq_data fq)) keep (fq, s)" using assms by (simp add: source_ok_def)
  from fq_source.drop_until_ends [OF this] obtain ds t rc m st' where r:
      "drop_until (fq_source T) keep (fq, s) = Some (rc, m, st')"
      "source_ok T avail pending (dom (fq_data fq)) keep st'" "source_ok T avail pending (dom (fq_data fq)) keep t"
      "receives (fq_source T) (fq, s) ds t" "\<forall>d \<in> set ds. keep d = Some False" "fq_source T t = Some (rc, m, st')"
      "\<forall>x. m = Some x \<longrightarrow> keep x = Some True" by blast
  have "fq_inv avail (fst t) (snd t)" "dom (fq_data (fst t)) = dom (fq_data fq)" using r(3) by (simp_all add: source_ok_def)
  with fq_inv_recv [OF assms(1) this(1)] r(6)
  have "case m of None \<Rightarrow> rc = - EAGAIN | Some (x, p) \<Rightarrow> rc \<in> {0, NN_PIPE_PARSED} \<and> p \<in> dom (fq_data fq)"
    by (auto simp: fq_source_def split: option.splits)
  with r show ?thesis
    by (intro exI [of _ ds] exI [of _ t] exI [of _ rc] exI [of _ m] exI [of _ "fst st'"] exI [of _ "snd st'"])
      (auto simp: source_ok_def split: option.splits)
qed

lemma receives_can_send:
  "receives (fq_source T) st ds t \<Longrightarrow> honest_transport T avail pending \<Longrightarrow> fq_inv avail (fst st) (snd st) \<Longrightarrow>
     fq_inv avail (fst t) (snd t) \<and> (\<forall>q. can_send (snd t) q \<longleftrightarrow> can_send (snd st) q)"
proof (induction rule: receives.induct)
  case (receives_cons st rc m st' ms st'')
  from fq_inv_recv [OF receives_cons.prems] receives_cons.hyps(1)
  have "fq_inv avail (fst st') (snd st') \<and> (\<forall>q. can_send (snd st') q \<longleftrightarrow> can_send (snd st) q)"
    by (auto simp: fq_source_def)
  with receives_cons.IH receives_cons.prems show ?case by blast
qed simp

section \<open>The subscriber\<close>









text \<open>A pipe with number 7 on which messages wait, those for \<open>True\<close> with a topic of \<open>topic_script\<close>.\<close>

definition bool_transport :: "bool list transport" where
  "bool_transport = \<lparr>t_send = (\<lambda>p m w. (0, True, w)),
     t_recv = (\<lambda>p w. (0, plain_msg (if w \<noteq> [] \<and> hd w then [1, 2, 3, 9] else [7]), 1 < length w, tl w))\<rparr>"

definition bool_avail :: "nat \<Rightarrow> bool list \<Rightarrow> nat" where
  "bool_avail p w = (if p = 7 then length w else 0)"

definition fresh_pipe :: nn_pipebase where
  "fresh_pipe = \<lparr>pb_state = P_ACTIVE, pb_instate = IN_IDLE, pb_outstate = OUT_IDLE, pb_sndprio = 8, pb_rcvprio = 8\<rparr>"

definition bool_pipes :: "bool list \<Rightarrow> bool list pipes" where
  "bool_pipes w = \<lparr>pipe_at = [7 \<mapsto> fresh_pipe], world = w\<rparr>"

definition ready_fq :: nn_fq where
  "ready_fq = the (nn_fq_in (nn_fq_add (nn_fq_init (\<lambda>_. None)) 7 7 8) 7)"

lemma bool_honest: "honest_transport bool_transport bool_avail length"
  by (auto simp: honest_transport_def sane_transport_def bool_transport_def bool_avail_def)

lemma ready_fq_spec: "w \<noteq> [] \<Longrightarrow> fq_inv bool_avail ready_fq (bool_pipes w) \<and> dom (fq_data ready_fq) = {7}"
proof -
  assume "w \<noteq> []"
  let ?fq = "nn_fq_add (nn_fq_init (\<lambda>_. None)) 7 7 8"
  have inv: "fq_inv bool_avail ?fq (bool_pipes w)" by (rule fq_inv_add [OF fq_inv_init]) (simp_all add: nn_fq_init_def)
  have "\<exists>fq'. nn_fq_in ?fq 7 = Some fq' \<and> fq_inv bool_avail fq' (bool_pipes w) \<and>
      fq_data fq' = (fq_data ?fq)(7 \<mapsto> \<lparr>pd_pipe = 7, pd_priority = 8, pd_linked = False\<rparr>\<lparr>pd_linked := True\<rparr>)"
    by (rule fq_inv_in [OF inv]) (use \<open>w \<noteq> []\<close> in
      \<open>simp_all add: nn_fq_add_def nn_priolist_add_def bool_pipes_def fresh_pipe_def bool_avail_def\<close>)
  moreover have "dom (fq_data ?fq) = {7}" by (auto simp: nn_fq_add_def nn_priolist_add_def nn_fq_init_def split: if_splits)
  ultimately show ?thesis by (auto simp: ready_fq_def)
qed





section \<open>The bus\<close>

text \<open>The invariant of a bus socket: it has a fair-queue item and a distributor item for the same pipes.\<close>

definition xbus_inv :: "(nat \<Rightarrow> 'w \<Rightarrow> nat) \<Rightarrow> nn_xbus \<Rightarrow> 'w pipes \<Rightarrow> bool" where
  "xbus_inv avail self s \<longleftrightarrow> fq_inv avail (xbus_inpipes self) s \<and> dist_ok (xbus_outpipes self) s \<and>
     dom (fq_data (xbus_inpipes self)) = dom (dist_data (xbus_outpipes self)) \<and>
     (\<forall>a d. dist_data (xbus_outpipes self) a = Some d \<longrightarrow> dd_pipe d = a) \<and>
     (\<forall>p \<in> dom (fq_data (xbus_inpipes self)). p < 2 ^ 64)"

lemma le_nat_pipe_bytes: "p < 2 ^ 64 \<Longrightarrow> le_nat (pipe_bytes p) = p"
  by (simp add: pipe_bytes_def le_nat_le_bytes)

lemma dist_ok_mono: "dist_ok d s \<Longrightarrow> (\<And>q. can_send s q \<Longrightarrow> can_send s' q) \<Longrightarrow> dist_ok d s'"
  unfolding dist_ok_def by blast

lemma xbus_inv_init: "xbus_inv avail nn_xbus_init s"
  by (simp add: xbus_inv_def nn_xbus_init_def fq_inv_init dist_ok_init) (simp add: nn_fq_init_def nn_dist_init_def)

lemma xbus_inv_add:
  assumes "xbus_inv avail self s" "p \<notin> dom (fq_data (xbus_inpipes self))" "p < 2 ^ 64"
    and "nn_xbus_add self p s = Some (rc, self')"
  shows "rc = 0 \<and> xbus_inv avail self' s"
proof -
  obtain b where b: "pipe_at s p = Some b" "1 \<le> pb_rcvprio b" "pb_rcvprio b \<le> 16" "rc = 0"
      "self' = self\<lparr>xbus_inpipes := nn_fq_add (xbus_inpipes self) p p (pb_rcvprio b),
        xbus_outpipes := nn_dist_add (xbus_outpipes self) p p\<rparr>"
    using assms(4) by (auto simp: nn_xbus_add_def Let_def split: bind_splits if_splits)
  have n: "fq_data (xbus_inpipes self) p = None" "dist_data (xbus_outpipes self) p = None"
    using assms(1,2) by (auto simp: xbus_inv_def)
  have "fq_inv avail (nn_fq_add (xbus_inpipes self) p p (pb_rcvprio b)) s"
    using assms(1) n(1) b(2,3) by (intro fq_inv_add) (simp_all add: xbus_inv_def)
  moreover have "dist_ok (nn_dist_add (xbus_outpipes self) p p) s"
    using assms(1) n(2) by (intro dist_ok_add) (auto simp: xbus_inv_def)
  ultimately show ?thesis using assms(1,3) b(4,5)
    by (auto simp: xbus_inv_def nn_fq_add_def nn_priolist_add_def nn_dist_add_def)
qed

lemma xbus_recv_ok:
  assumes T: "honest_transport T avail pending" and inv: "xbus_inv avail self s"
  shows "\<exists>ds t rc m self' s'. nn_xbus_recv T self s = Some (rc, m, self', s') \<and> xbus_inv avail self' s' \<and>
    xbus_outpipes self' = xbus_outpipes self \<and>
    receives (fq_source T) (xbus_inpipes self, s) ds t \<and> (\<forall>d \<in> set ds. m_sphdr (fst d) \<noteq> []) \<and>
    (m = None \<and> rc = - EAGAIN \<and> fq_source T t = Some (rc, None, xbus_inpipes self', s') \<or>
     (\<exists>x p rc'. m = Some (x\<lparr>m_sphdr := pipe_bytes p\<rparr>) \<and> rc = 0 \<and> m_sphdr x = [] \<and>
        p \<in> dom (fq_data (xbus_inpipes self)) \<and>
        fq_source T t = Some (rc', Some (x, p), xbus_inpipes self', s')))"
proof -
  have fq: "fq_inv avail (xbus_inpipes self) s" and d: "dist_ok (xbus_outpipes self) s" using inv by (simp_all add: xbus_inv_def)
  have keep: "no_header (fst (snd (t_recv T p w)), p) \<noteq> None" for p w by (simp add: no_header_def)
  from drop_until_result [where keep = no_header, OF T fq keep] obtain ds t rc m fq' s' where r:
      "drop_until (fq_source T) no_header (xbus_inpipes self, s) = Some (rc, m, fq', s')"
      "receives (fq_source T) (xbus_inpipes self, s) ds t" "fq_source T t = Some (rc, m, fq', s')"
      "fq_inv avail fq' s'" "dom (fq_data fq') = dom (fq_data (xbus_inpipes self))"
      "case m of None \<Rightarrow> rc = - EAGAIN | Some (x, p) \<Rightarrow> rc \<in> {0, NN_PIPE_PARSED} \<and> no_header (x, p) = Some True \<and> p \<in> dom (fq_data (xbus_inpipes self))"
      "\<forall>d \<in> set ds. no_header d = Some False"
    by blast
  have ds: "\<forall>d \<in> set ds. m_sphdr (fst d) \<noteq> []" using r(7) by (auto simp: no_header_def)
  have t: "fq_inv avail (fst t) (snd t)" "\<forall>q. can_send (snd t) q \<longleftrightarrow> can_send s q"
    using receives_can_send [OF r(2) T] fq by simp_all
  have "\<forall>q. can_send s' q \<longleftrightarrow> can_send (snd t) q"
    using fq_inv_recv [OF T t(1)] r(3) by (auto simp: fq_source_def)
  with t(2) have "dist_ok (xbus_outpipes self) s'" by (intro dist_ok_mono [OF d]) simp
  then have inv': "xbus_inv avail (self\<lparr>xbus_inpipes := fq'\<rparr>) s'" using inv r(4,5) by (simp add: xbus_inv_def)
  show ?thesis
  proof (cases m)
    case None
    with r(1,2,3,6) inv' ds show ?thesis
      by (intro exI [of _ ds] exI [of _ t] exI [of _ rc] exI [of _ None]
          exI [of _ "self\<lparr>xbus_inpipes := fq'\<rparr>"] exI [of _ s']) (simp add: nn_xbus_recv_def)
  next
    case (Some xp)
    obtain x p where xp: "xp = (x, p)" by (cases xp)
    have "m_sphdr x = []" using Some xp r(6) by (simp add: no_header_def)
    with Some xp r(1,2,3,6) inv' ds show ?thesis
      by (intro exI [of _ ds] exI [of _ t] exI [of _ 0] exI [of _ "Some (x\<lparr>m_sphdr := pipe_bytes p\<rparr>)"]
          exI [of _ "self\<lparr>xbus_inpipes := fq'\<rparr>"] exI [of _ s']) (auto simp: nn_xbus_recv_def)
  qed
qed

lemma xbus_send_ok:
  assumes T: "honest_transport T avail pending" and inv: "xbus_inv avail self s"
    and hdr: "m_sphdr x = pipe_bytes p" "p < 2 ^ 64"
  shows "\<exists>self' s'. nn_xbus_send T self x s = Some (0, self', s') \<and> dist_ok (xbus_outpipes self') s' \<and>
    xbus_inpipes self' = xbus_inpipes self \<and>
    world s' = send_all T (x\<lparr>m_sphdr := []\<rparr>) (filter (\<lambda>q. q \<noteq> p) (dist_pipes (xbus_outpipes self))) (world s)"
proof -
  have sane: "sane_transport T" using T by (simp add: honest_transport_def)
  have d: "dist_ok (xbus_outpipes self) s" and own: "\<forall>a d. dist_data (xbus_outpipes self) a = Some d \<longrightarrow> dd_pipe d = a"
    using inv by (simp_all add: xbus_inv_def)
  have "dd_pipe (the (dist_data (xbus_outpipes self) a)) = a" if "a \<in> set (dist_pipes (xbus_outpipes self))" for a
    using d that own by (fastforce simp: dist_ok_def)
  then have tg: "dist_targets (xbus_outpipes self) = dist_pipes (xbus_outpipes self)"
    unfolding dist_targets_def by (simp add: map_idI)
  from dist_send_ok [OF sane d, of "x\<lparr>m_sphdr := []\<rparr>" "Some p"] tg hdr le_nat_pipe_bytes [OF hdr(2)]
  show ?thesis by (fastforce simp: nn_xbus_send_def Let_def pipe_bytes_def)
qed

text \<open>C31. A raw bus forwards to everyone but the sender: over any transport that delivers what it
  announces, receiving from a bus socket ends; it drops the messages that arrived with a header, and
  then answers \<open>-EAGAIN\<close> if the fair queue has none left, or 0 with the next message, whose header it
  sets to the pipe the fair queue took it from; sending that message on the same socket puts it,
  without the header, exactly once on every pipe that is ready for sending, but not on the one it
  came from.\<close>

theorem nn_xbus_forwards_to_others:
  assumes "honest_transport T avail pending" and "xbus_inv avail self s"
  shows "\<exists>ds t. receives (fq_source T) (xbus_inpipes self, s) ds t \<and> (\<forall>d \<in> set ds. m_sphdr (fst d) \<noteq> []) \<and>
    ((\<exists>self' s'. nn_xbus_recv T self s = Some (- EAGAIN, None, self', s') \<and>
        fq_source T t = Some (- EAGAIN, None, xbus_inpipes self', s')) \<or>
     (\<exists>x p rc self' s' self'' s''. fq_source T t = Some (rc, Some (x, p), xbus_inpipes self', s') \<and>
        p \<in> dom (fq_data (xbus_inpipes self)) \<and> m_sphdr x = [] \<and> nn_xbus_recv T self s = Some (0, Some (x\<lparr>m_sphdr := pipe_bytes p\<rparr>), self', s') \<and>
        nn_xbus_send T self' (x\<lparr>m_sphdr := pipe_bytes p\<rparr>) s' = Some (0, self'', s'') \<and>
        world s'' = send_all T x (filter (\<lambda>q. q \<noteq> p) (dist_pipes (xbus_outpipes self))) (world s')))"
proof -
  from xbus_recv_ok [OF assms] obtain ds t rc m self' s' where r: "nn_xbus_recv T self s = Some (rc, m, self', s')"
      "xbus_inv avail self' s'" "xbus_outpipes self' = xbus_outpipes self"
      "receives (fq_source T) (xbus_inpipes self, s) ds t" "\<forall>d \<in> set ds. m_sphdr (fst d) \<noteq> []"
      "m = None \<and> rc = - EAGAIN \<and> fq_source T t = Some (rc, None, xbus_inpipes self', s') \<or>
       (\<exists>x p rc'. m = Some (x\<lparr>m_sphdr := pipe_bytes p\<rparr>) \<and> rc = 0 \<and> m_sphdr x = [] \<and>
          p \<in> dom (fq_data (xbus_inpipes self)) \<and>
          fq_source T t = Some (rc', Some (x, p), xbus_inpipes self', s'))" by blast
  show ?thesis
  proof (cases m)
    case None
    with r(1,6) have "nn_xbus_recv T self s = Some (- EAGAIN, None, self', s') \<and>
        fq_source T t = Some (- EAGAIN, None, xbus_inpipes self', s')" by auto
    with r(4,5) show ?thesis by blast
  next
    case (Some y)
    with r(6) obtain x p rc' where p: "m = Some (x\<lparr>m_sphdr := pipe_bytes p\<rparr>)" "rc = 0" "m_sphdr x = []"
        "p \<in> dom (fq_data (xbus_inpipes self))" "fq_source T t = Some (rc', Some (x, p), xbus_inpipes self', s')" by auto
    then have "p < 2 ^ 64" using assms(2) by (auto simp: xbus_inv_def)
    from xbus_send_ok [OF assms(1) r(2) _ this, of "x\<lparr>m_sphdr := pipe_bytes p\<rparr>"] obtain self'' s'' where
        "nn_xbus_send T self' (x\<lparr>m_sphdr := pipe_bytes p\<rparr>) s' = Some (0, self'', s'')"
        "world s'' = send_all T (x\<lparr>m_sphdr := []\<rparr>) (filter (\<lambda>q. q \<noteq> p) (dist_pipes (xbus_outpipes self))) (world s')"
      using r(3) by auto
    moreover have "x\<lparr>m_sphdr := []\<rparr> = x" using p(3) by simp
    ultimately have "fq_source T t = Some (rc', Some (x, p), xbus_inpipes self', s') \<and>
        p \<in> dom (fq_data (xbus_inpipes self)) \<and>
        m_sphdr x = [] \<and> nn_xbus_recv T self s = Some (0, Some (x\<lparr>m_sphdr := pipe_bytes p\<rparr>), self', s') \<and>
        nn_xbus_send T self' (x\<lparr>m_sphdr := pipe_bytes p\<rparr>) s' = Some (0, self'', s'') \<and>
        world s'' = send_all T x (filter (\<lambda>q. q \<noteq> p) (dist_pipes (xbus_outpipes self))) (world s')"
      using p r(1) by simp
    with r(4,5) show ?thesis by blast
  qed
qed

definition bool_bus :: nn_xbus where
  "bool_bus = \<lparr>xbus_outpipes = \<lparr>dist_data = [7 \<mapsto> \<lparr>dd_pipe = 7, dd_linked = True\<rparr>], dist_count = 1, dist_pipes = [7]\<rparr>,
     xbus_inpipes = ready_fq\<rparr>"

lemma bool_bus_inv: "xbus_inv bool_avail bool_bus (bool_pipes [True])"
proof -
  have fq: "fq_inv bool_avail ready_fq (bool_pipes [True])" "dom (fq_data ready_fq) = {7}"
    using ready_fq_spec [of "[True]"] by simp_all
  have "dist_ok (xbus_outpipes bool_bus) (bool_pipes [True])"
    by (simp add: dist_ok_def bool_bus_def bool_pipes_def fresh_pipe_def)
  moreover have "dom (dist_data (xbus_outpipes bool_bus)) = {7}"
    "\<forall>a d. dist_data (xbus_outpipes bool_bus) a = Some d \<longrightarrow> dd_pipe d = a"
    by (simp_all add: bool_bus_def)
  moreover have "xbus_inpipes bool_bus = ready_fq" by (simp add: bool_bus_def)
  ultimately show ?thesis using fq by (simp add: xbus_inv_def)
qed

theorem nn_xbus_forwards_to_others_witness:
  "(\<exists>self' s'. nn_xbus_recv bool_transport bool_bus (bool_pipes [True]) = Some (- EAGAIN, None, self', s')) \<or>
    (\<exists>x self' s' self'' s''. nn_xbus_recv bool_transport bool_bus (bool_pipes [True])
         = Some (0, Some (x\<lparr>m_sphdr := [7, 0, 0, 0, 0, 0, 0, 0]\<rparr>), self', s') \<and>
       nn_xbus_send bool_transport self' (x\<lparr>m_sphdr := [7, 0, 0, 0, 0, 0, 0, 0]\<rparr>) s' = Some (0, self'', s'') \<and>
       world s'' = world s')"
proof -
  have d: "dom (fq_data (xbus_inpipes bool_bus)) = {7}"
    using ready_fq_spec [of "[True]"] by (simp add: bool_bus_def)
  have b: "pipe_bytes 7 = [7, 0, 0, 0, 0, 0, 0, 0]" by code_simp
  have o: "dist_pipes (xbus_outpipes bool_bus) = [7]" by (simp add: bool_bus_def)
  have f: "send_all bool_transport m (filter (\<lambda>q. q \<noteq> 7) [7]) w = w" for m w by simp
  from nn_xbus_forwards_to_others [OF bool_honest bool_bus_inv] show ?thesis
    unfolding d o singleton_iff
  proof (elim disjE exE conjE)
    fix x p self' s' self'' s''
    assume "nn_xbus_recv bool_transport bool_bus (bool_pipes [True]) = Some (0, Some (x\<lparr>m_sphdr := pipe_bytes p\<rparr>), self', s')"
      "nn_xbus_send bool_transport self' (x\<lparr>m_sphdr := pipe_bytes p\<rparr>) s' = Some (0, self'', s'')"
      "world s'' = send_all bool_transport x (filter (\<lambda>q. q \<noteq> p) [7]) (world s')" and "p = 7"
    then show ?thesis using b f by metis
  qed blast
qed

end
