(* ===== verification/NN_Reqrep.thy ===== *)
theory NN_Reqrep
  imports NN_Protocol NN_Hash
begin

text \<open>
  The raw request and reply sockets and the reply socket: \<open>protocols/reqrep/xreq.c\<close>, \<open>xrep.c\<close> and
  \<open>rep.c\<close>. As in \<open>NN_Sockets\<close>, the data a socket attaches to a pipe lives at the address of the pipe.
  \<open>None\<close> is a failed assertion or a read outside a message.
\<close>

unbundle bit_operations_syntax

section \<open>The raw request socket\<close>

record nn_xreq =
  xreq_lb :: nn_lb
  xreq_fq :: nn_fq
  xreq_stats :: statistics

definition nn_xreq_init :: "statistics \<Rightarrow> nn_xreq" where
  "nn_xreq_init stats = \<lparr>xreq_lb = nn_lb_init (\<lambda>_. None), xreq_fq = nn_fq_init (\<lambda>_. None), xreq_stats = stats\<rparr>"

definition nn_xreq_term :: "nn_xreq \<Rightarrow> unit option" where
  "nn_xreq_term self = do { _ \<leftarrow> nn_fq_term (xreq_fq self); nn_lb_term (xreq_lb self) }"

definition nn_xreq_destroy :: "nn_xreq \<Rightarrow> unit option" where
  "nn_xreq_destroy self = nn_xreq_term self"

definition nn_xreq_add :: "nn_xreq \<Rightarrow> nat \<Rightarrow> 'w pipes \<Rightarrow> (int \<times> nn_xreq) option" where
  "nn_xreq_add self pipe s = do {
     b \<leftarrow> pipe_at s pipe;
     if \<not> (pb_sndprio b \<ge> 1 \<and> pb_sndprio b \<le> 16) then None
     else if \<not> (pb_rcvprio b \<ge> 1 \<and> pb_rcvprio b \<le> 16) then None
     else Some (0, self\<lparr>xreq_lb := nn_lb_add (xreq_lb self) pipe pipe (pb_sndprio b),
       xreq_fq := nn_fq_add (xreq_fq self) pipe pipe (pb_rcvprio b)\<rparr>) }"

definition nn_xreq_rm :: "nn_xreq \<Rightarrow> nat \<Rightarrow> nn_xreq option" where
  "nn_xreq_rm self pipe = do {
     lb \<leftarrow> nn_lb_rm (xreq_lb self) pipe;
     fq \<leftarrow> nn_fq_rm (xreq_fq self) pipe;
     let lb = lb\<lparr>lb_data := (lb_data lb)(pipe := None)\<rparr>;
     let fq = fq\<lparr>fq_data := (fq_data fq)(pipe := None)\<rparr>;
     stats \<leftarrow> nn_sock_stat_increment (xreq_stats self) NN_STAT_CURRENT_SND_PRIORITY (nn_lb_get_priority lb);
     Some \<lparr>xreq_lb = lb, xreq_fq = fq, xreq_stats = stats\<rparr> }"

definition nn_xreq_in :: "nn_xreq \<Rightarrow> nat \<Rightarrow> nn_xreq option" where
  "nn_xreq_in self pipe = map_option (\<lambda>fq. self\<lparr>xreq_fq := fq\<rparr>) (nn_fq_in (xreq_fq self) pipe)"

definition nn_xreq_out :: "nn_xreq \<Rightarrow> nat \<Rightarrow> nn_xreq option" where
  "nn_xreq_out self pipe = do {
     lb \<leftarrow> nn_lb_out (xreq_lb self) pipe;
     stats \<leftarrow> nn_sock_stat_increment (xreq_stats self) NN_STAT_CURRENT_SND_PRIORITY (nn_lb_get_priority lb);
     Some (self\<lparr>xreq_lb := lb, xreq_stats := stats\<rparr>) }"

definition nn_xreq_events :: "nn_xreq \<Rightarrow> int" where
  "nn_xreq_events self = (if nn_fq_can_recv (xreq_fq self) then NN_SOCKBASE_EVENT_IN else 0) OR
     (if nn_lb_can_send (xreq_lb self) then NN_SOCKBASE_EVENT_OUT else 0)"

definition nn_xreq_send_to ::
  "'w transport \<Rightarrow> nn_xreq \<Rightarrow> msg \<Rightarrow> 'w pipes \<Rightarrow> (int \<times> nat option \<times> nn_xreq \<times> 'w pipes) option" where
  "nn_xreq_send_to T self m s = do {
     (rc, to, lb, s) \<leftarrow> nn_lb_send T (xreq_lb self) m s;
     let self = self\<lparr>xreq_lb := lb\<rparr>;
     if rc = - EAGAIN then Some (- EAGAIN, to, self, s)
     else if rc < 0 then None
     else Some (0, to, self, s) }"

definition nn_xreq_send ::
  "'w transport \<Rightarrow> nn_xreq \<Rightarrow> msg \<Rightarrow> 'w pipes \<Rightarrow> (int \<times> nn_xreq \<times> 'w pipes) option" where
  "nn_xreq_send T self m s = do { (rc, to, self, s) \<leftarrow> nn_xreq_send_to T self m s; Some (rc, self, s) }"

definition nn_xreq_recv ::
  "'w transport \<Rightarrow> nn_xreq \<Rightarrow> 'w pipes \<Rightarrow> (int \<times> msg option \<times> nn_xreq \<times> 'w pipes) option" where
  "nn_xreq_recv T self s = do {
     (rc, m, fq, s) \<leftarrow> nn_fq_recv T (xreq_fq self) s;
     let self = self\<lparr>xreq_fq := fq\<rparr>;
     if rc = - EAGAIN then Some (- EAGAIN, None, self, s)
     else if rc < 0 then None
     else do {
       (m, pipe) \<leftarrow> m;
       if rc AND NN_PIPE_PARSED = 0 then
         (if length (m_body m) < 4 then Some (- EAGAIN, None, self, s)
          else if m_sphdr m \<noteq> [] then None
          else do {
            body \<leftarrow> trim (m_body m) 4;
            Some (0, Some (m\<lparr>m_sphdr := take 4 (m_body m), m_body := body\<rparr>), self, s) })
       else Some (0, Some m, self, s) } }"

section \<open>The raw reply socket\<close>

definition NN_XREP_OUT :: u32 where "NN_XREP_OUT = 1"

record nn_xrep_data =
  xd_pipe :: nat
  xd_flags :: u32

record nn_xrep =
  xrep_next_key :: u32
  xrep_outpipes :: nn_hash
  xrep_items :: hash_store
  xrep_inpipes :: nn_fq
  xrep_data :: "nat \<Rightarrow> nn_xrep_data option"
  xrep_maxttl :: int

text \<open>The first key is random; \<open>NN_MAXTTL\<close> is an option of the socket.\<close>

definition nn_xrep_init :: "u32 \<Rightarrow> int \<Rightarrow> nn_xrep" where
  "nn_xrep_init random maxttl = \<lparr>xrep_next_key = random, xrep_outpipes = nn_hash_init, xrep_items = (\<lambda>_. None),
     xrep_inpipes = nn_fq_init (\<lambda>_. None), xrep_data = (\<lambda>_. None), xrep_maxttl = maxttl\<rparr>"

definition nn_xrep_term :: "nn_xrep \<Rightarrow> unit option" where
  "nn_xrep_term self = do { _ \<leftarrow> nn_fq_term (xrep_inpipes self); nn_hash_term (xrep_outpipes self) }"

definition nn_xrep_destroy :: "nn_xrep \<Rightarrow> unit option" where
  "nn_xrep_destroy self = nn_xrep_term self"

definition nn_xrep_add :: "nn_xrep \<Rightarrow> nat \<Rightarrow> 'w pipes \<Rightarrow> (int \<times> nn_xrep) option" where
  "nn_xrep_add self pipe s = do {
     b \<leftarrow> pipe_at s pipe;
     if \<not> (pb_rcvprio b \<ge> 1 \<and> pb_rcvprio b \<le> 16) then None
     else do {
       let st = nn_hash_item_init (xrep_items self) pipe;
       (h, st) \<leftarrow> nn_hash_insert st (xrep_outpipes self) (xrep_next_key self AND 0x7fffffff) pipe;
       Some (0, self\<lparr>xrep_data := (xrep_data self)(pipe \<mapsto> \<lparr>xd_pipe = pipe, xd_flags = 0\<rparr>),
         xrep_outpipes := h, xrep_items := st, xrep_next_key := xrep_next_key self + 1,
         xrep_inpipes := nn_fq_add (xrep_inpipes self) pipe pipe (pb_rcvprio b)\<rparr>) } }"

definition nn_xrep_rm :: "nn_xrep \<Rightarrow> nat \<Rightarrow> nn_xrep option" where
  "nn_xrep_rm self pipe = do {
     fq \<leftarrow> nn_fq_rm (xrep_inpipes self) pipe;
     (h, st) \<leftarrow> nn_hash_erase (xrep_items self) (xrep_outpipes self) pipe;
     itm \<leftarrow> st pipe;
     _ \<leftarrow> nn_hash_item_term itm;
     Some (self\<lparr>xrep_inpipes := fq\<lparr>fq_data := (fq_data fq)(pipe := None)\<rparr>, xrep_outpipes := h,
       xrep_items := st(pipe := None), xrep_data := (xrep_data self)(pipe := None)\<rparr>) }"

definition nn_xrep_in :: "nn_xrep \<Rightarrow> nat \<Rightarrow> nn_xrep option" where
  "nn_xrep_in self pipe = map_option (\<lambda>fq. self\<lparr>xrep_inpipes := fq\<rparr>) (nn_fq_in (xrep_inpipes self) pipe)"

definition nn_xrep_out :: "nn_xrep \<Rightarrow> nat \<Rightarrow> nn_xrep option" where
  "nn_xrep_out self pipe = do {
     data \<leftarrow> xrep_data self pipe;
     Some (self\<lparr>xrep_data := (xrep_data self)(pipe \<mapsto> data\<lparr>xd_flags := xd_flags data OR NN_XREP_OUT\<rparr>)\<rparr>) }"

definition nn_xrep_events :: "nn_xrep \<Rightarrow> int" where
  "nn_xrep_events self =
     (if nn_fq_can_recv (xrep_inpipes self) then NN_SOCKBASE_EVENT_IN else 0) OR NN_SOCKBASE_EVENT_OUT"

definition nn_xrep_send ::
  "'w transport \<Rightarrow> nn_xrep \<Rightarrow> msg \<Rightarrow> 'w pipes \<Rightarrow> (int \<times> nn_xrep \<times> 'w pipes) option" where
  "nn_xrep_send T self m s = (
     if length (m_sphdr m) < 4 then Some (0, self, s)
     else do {
       key \<leftarrow> nn_getl (m_sphdr m) 0;
       hdr \<leftarrow> trim (m_sphdr m) 4;
       let m = m\<lparr>m_sphdr := hdr\<rparr>;
       item \<leftarrow> nn_hash_get (xrep_items self) (xrep_outpipes self) key;
       case item of None \<Rightarrow> Some (0, self, s)
       | Some item \<Rightarrow> do {
           data \<leftarrow> xrep_data self item;
           if xd_flags data AND NN_XREP_OUT = 0 then Some (0, self, s)
           else do {
             (rc, s) \<leftarrow> nn_pipe_send T (xd_pipe data) m s;
             if rc < 0 then None
             else Some (0, if released rc
               then self\<lparr>xrep_data := (xrep_data self)(item \<mapsto> data\<lparr>xd_flags := xd_flags data AND NOT NN_XREP_OUT\<rparr>)\<rparr>
               else self, s) } } })"

text \<open>
  The loop over the backtrace: from word \<open>i\<close> of the body on, the index of the first word with the
  highest bit, or \<open>None\<close> if the body ends before it.
\<close>

function backtrace_bottom :: "byte list \<Rightarrow> nat \<Rightarrow> nat option option" where
  "backtrace_bottom body i = (
     if (i + 1) * 4 > length body then Some None
     else do {
       w \<leftarrow> nn_getl body (i * 4);
       if w AND 0x80000000 \<noteq> 0 then Some (Some i) else backtrace_bottom body (i + 1) })"
  by pat_completeness auto
termination
  by (relation "measure (\<lambda>(body, i). length body - i * 4)") auto

declare backtrace_bottom.simps [simp del]

text \<open>
  The split of a message that the transport has not parsed into the backtrace and the body. The
  outer \<open>None\<close> is a failed assertion, the inner one a message to be dropped.
\<close>

definition split_backtrace :: "int \<Rightarrow> msg \<Rightarrow> msg option option" where
  "split_backtrace maxttl m = do {
     bottom \<leftarrow> backtrace_bottom (m_body m) 0;
     case bottom of None \<Rightarrow> Some None
     | Some i \<Rightarrow>
         (let i = i + 1 in
          if int i > maxttl then Some None
          else if m_sphdr m \<noteq> [] then None
          else do {
            body \<leftarrow> trim (m_body m) (i * 4);
            Some (Some (m\<lparr>m_sphdr := take (i * 4) (m_body m), m_body := body\<rparr>)) }) }"

definition nn_xrep_recv ::
  "'w transport \<Rightarrow> nn_xrep \<Rightarrow> 'w pipes \<Rightarrow> (int \<times> msg option \<times> nn_xrep \<times> 'w pipes) option" where
  "nn_xrep_recv T self s = do {
     (rc, m, fq, s) \<leftarrow> nn_fq_recv T (xrep_inpipes self) s;
     let self = self\<lparr>xrep_inpipes := fq\<rparr>;
     if rc < 0 then Some (rc, None, self, s)
     else do {
       (m, pipe) \<leftarrow> m;
       m \<leftarrow> (if rc AND NN_PIPE_PARSED = 0 then split_backtrace (xrep_maxttl self) m else Some (Some m));
       case m of None \<Rightarrow> Some (- EAGAIN, None, self, s)
       | Some m \<Rightarrow> do {
           item \<leftarrow> xrep_items self pipe;
           ref \<leftarrow> nn_putl (replicate (length (m_sphdr m) + 4) 0) 0 (hkey item);
           ref \<leftarrow> poke ref 4 (m_sphdr m);
           Some (0, Some (m\<lparr>m_sphdr := ref\<rparr>), self, s) } } }"

section \<open>The reply socket\<close>

record nn_rep =
  rep_xrep :: nn_xrep
  rep_inprogress :: bool
  rep_backtrace :: "byte list"

definition nn_rep_init :: "u32 \<Rightarrow> int \<Rightarrow> nn_rep" where
  "nn_rep_init random maxttl = \<lparr>rep_xrep = nn_xrep_init random maxttl, rep_inprogress = False, rep_backtrace = []\<rparr>"

definition nn_rep_term :: "nn_rep \<Rightarrow> unit option" where
  "nn_rep_term self = nn_xrep_term (rep_xrep self)"

definition nn_rep_destroy :: "nn_rep \<Rightarrow> unit option" where
  "nn_rep_destroy self = nn_rep_term self"

definition nn_rep_events :: "nn_rep \<Rightarrow> int" where
  "nn_rep_events self = (
     let events = nn_xrep_events (rep_xrep self) in
     if \<not> rep_inprogress self then events AND NOT NN_SOCKBASE_EVENT_OUT else events)"

definition nn_rep_send ::
  "'w transport \<Rightarrow> nn_rep \<Rightarrow> msg \<Rightarrow> 'w pipes \<Rightarrow> (int \<times> nn_rep \<times> 'w pipes) option" where
  "nn_rep_send T self m s = (
     if \<not> rep_inprogress self then Some (- EFSM, self, s)
     else if m_sphdr m \<noteq> [] then None
     else do {
       let m = m\<lparr>m_sphdr := rep_backtrace self\<rparr>;
       let self = self\<lparr>rep_inprogress := False\<rparr>;
       (rc, x, s) \<leftarrow> nn_xrep_send T (rep_xrep self) m s;
       if rc = 0 \<or> rc = - EAGAIN then Some (0, self\<lparr>rep_xrep := x\<rparr>, s) else None })"

definition nn_rep_recv ::
  "'w transport \<Rightarrow> nn_rep \<Rightarrow> 'w pipes \<Rightarrow> (int \<times> msg option \<times> nn_rep \<times> 'w pipes) option" where
  "nn_rep_recv T self s = do {
     let self = (if rep_inprogress self then self\<lparr>rep_inprogress := False\<rparr> else self);
     (rc, m, x, s) \<leftarrow> nn_xrep_recv T (rep_xrep self) s;
     let self = self\<lparr>rep_xrep := x\<rparr>;
     if rc = - EAGAIN then Some (- EAGAIN, None, self, s)
     else if rc \<noteq> 0 then None
     else do {
       m \<leftarrow> m;
       Some (0, Some (m\<lparr>m_sphdr := []\<rparr>), self\<lparr>rep_backtrace := m_sphdr m, rep_inprogress := True\<rparr>, s) } }"

end
