(* ===== verification/NN_Reqrep_Props.thy ===== *)
theory NN_Reqrep_Props
  imports NN_Reqrep
begin

text \<open>
  What the raw reply and the reply socket promise: every request carries the way back, and the reply
  goes there. The invariant ties the fair queue, the hash table and the data of the pipes together.
\<close>

unbundle bit_operations_syntax

section \<open>The invariant of the raw reply socket\<close>

text \<open>The socket can send to a pipe if the flag says so. \<open>m\<close> is the map from keys to pipes.\<close>

definition xrep_ready :: "nn_xrep \<Rightarrow> nat \<Rightarrow> bool" where
  "xrep_ready self p \<longleftrightarrow> (\<exists>d. xrep_data self p = Some d \<and> xd_flags d AND NN_XREP_OUT \<noteq> 0)"

definition xrep_inv :: "(nat \<Rightarrow> 'w \<Rightarrow> nat) \<Rightarrow> nn_xrep \<Rightarrow> (u32 \<Rightarrow> nat option) \<Rightarrow> 'w pipes \<Rightarrow> bool" where
  "xrep_inv avail self m s \<longleftrightarrow> fq_inv avail (xrep_inpipes self) s \<and>
     hash_rep (xrep_outpipes self, xrep_items self) m \<and>
     dom (xrep_data self) = dom (fq_data (xrep_inpipes self)) \<and> ran m = dom (xrep_data self) \<and>
     (\<forall>p d. xrep_data self p = Some d \<longrightarrow> xd_pipe d = p) \<and>
     (\<forall>p. xrep_ready self p \<longrightarrow> can_send s p)"

lemma hash_rep_ran: "hash_rep (h, st) m \<Longrightarrow> a \<in> items_of (slot_array h) \<longleftrightarrow> a \<in> ran m"
proof
  assume r: "hash_rep (h, st) m"
  { assume "a \<in> ran m" then obtain k where "m k = Some a" by (auto simp: ran_def)
    with r show "a \<in> items_of (slot_array h)" by (simp add: hash_rep_def) }
  assume a: "a \<in> items_of (slot_array h)"
  with r obtain it where "st a = Some it" using slots_ok_item [of st "slots h" "slot_array h" a]
    by (auto simp: hash_rep_def hash_ok_def)
  with a r have "m (hkey it) = Some a" by (simp add: hash_rep_def)
  then show "a \<in> ran m" by (rule ranI)
qed

lemma hash_rep_store:
  assumes r: "hash_rep (h, st) m" and a: "a \<notin> ran m"
  shows "hash_rep (h, st(a := x)) m"
proof -
  have n: "a \<notin> items_of (slot_array h)" using hash_rep_ran [OF r] a by blast
  then have "hash_ok (h, st(a := x))"
    using r by (auto simp: hash_rep_def hash_ok_def intro: slots_ok_store [of st])
  moreover have "m k = Some b \<longleftrightarrow> b \<in> items_of (slot_array h) \<and> map_option hkey ((st(a := x)) b) = Some k" for b k
    using r n by (cases "b = a") (auto simp: hash_rep_def)
  ultimately show ?thesis by (simp add: hash_rep_def)
qed

lemma xrep_inv_init: "xrep_inv avail (nn_xrep_init random maxttl) (\<lambda>_. None) s"
  using fq_inv_init hash_rep_init
  by (auto simp: xrep_inv_def nn_xrep_init_def xrep_ready_def) (auto simp: nn_fq_init_def)

text \<open>A pipe is added unless the key it gets is still that of another pipe, as it is after
  \<open>2 ^ 31\<close> pipes if the first one is still there: then the insertion fails an assertion.\<close>

lemma xrep_inv_add:
  assumes inv: "xrep_inv avail self m s" and b: "pipe_at s p = Some b" "1 \<le> pb_rcvprio b" "pb_rcvprio b \<le> 16"
    and p: "p \<notin> dom (xrep_data self)" and k: "k = xrep_next_key self AND 0x7fffffff" "m k = None"
    and room: "0 < hash_room (xrep_outpipes self, xrep_items self)"
  shows "\<exists>self'. nn_xrep_add self p s = Some (0, self') \<and> xrep_inv avail self' (m(k \<mapsto> p)) s"
proof -
  let ?st = "nn_hash_item_init (xrep_items self) p"
  have pm: "p \<notin> ran m" using inv p by (simp add: xrep_inv_def)
  have r: "hash_rep (xrep_outpipes self, ?st) m"
    unfolding nn_hash_item_init_def using inv by (intro hash_rep_store pm) (simp add: xrep_inv_def)
  have "hash_free (xrep_outpipes self, ?st) p"
    by (auto simp: hash_free_def nn_hash_item_init_def split: option.splits)
  moreover have "0 < hash_room (xrep_outpipes self, ?st)" using room by (simp add: hash_room_def)
  ultimately obtain ht where "hash_insert (xrep_outpipes self, ?st) k p = Some ht" "hash_rep ht (m(k \<mapsto> p))"
    using hash_insert_law [OF r k(2)] by blast
  then obtain h st where h: "nn_hash_insert ?st (xrep_outpipes self) k p = Some (h, st)" "hash_rep (h, st) (m(k \<mapsto> p))"
    by (cases ht) (simp add: hash_insert_def)
  let ?self' = "self\<lparr>xrep_data := (xrep_data self)(p \<mapsto> \<lparr>xd_pipe = p, xd_flags = 0\<rparr>), xrep_outpipes := h, xrep_items := st,
      xrep_next_key := xrep_next_key self + 1, xrep_inpipes := nn_fq_add (xrep_inpipes self) p p (pb_rcvprio b)\<rparr>"
  have add: "nn_xrep_add self p s = Some (0, ?self')" using b h(1) k(1) by (simp add: nn_xrep_add_def)
  have "fq_inv avail (nn_fq_add (xrep_inpipes self) p p (pb_rcvprio b)) s"
    using inv b p by (intro fq_inv_add) (auto simp: xrep_inv_def)
  moreover have "ran (m(k \<mapsto> p)) = insert p (ran m)" using k(2) by (rule ran_map_upd)
  moreover have "xrep_ready ?self' q \<longrightarrow> can_send s q" for q
    using inv by (auto simp: xrep_inv_def xrep_ready_def split: if_splits)
  ultimately have "xrep_inv avail ?self' (m(k \<mapsto> p)) s"
    using inv h(2) by (auto simp: xrep_inv_def nn_fq_add_def nn_priolist_add_def)
  with add show ?thesis by blast
qed

lemma xrep_add_clash:
  assumes "xrep_inv avail self m s" "p \<notin> dom (xrep_data self)" "m (xrep_next_key self AND 0x7fffffff) \<noteq> None"
  shows "nn_xrep_add self p s = None"
proof -
  have "hash_rep (xrep_outpipes self, nn_hash_item_init (xrep_items self) p) m"
    unfolding nn_hash_item_init_def using assms by (intro hash_rep_store) (simp_all add: xrep_inv_def)
  from hash_insert_dup [OF this assms(3), of p] show ?thesis
    by (cases "pipe_at s p") (simp_all add: nn_xrep_add_def hash_insert_def)
qed

lemma xrep_inv_out:
  assumes "xrep_inv avail self m s" "p \<in> dom (xrep_data self)" "can_send s' p"
    "\<And>q. can_recv s' q = can_recv s q" "\<And>q. q \<noteq> p \<Longrightarrow> can_send s q \<Longrightarrow> can_send s' q"
    "\<And>q. 0 < avail q (world s) \<Longrightarrow> 0 < avail q (world s')"
  shows "\<exists>self'. nn_xrep_out self p = Some self' \<and> xrep_inv avail self' m s'"
proof -
  obtain d where d: "xrep_data self p = Some d" using assms(2) by blast
  have "fq_inv avail (xrep_inpipes self) s'"
    by (rule fq_inv_mono [of _ _ s]) (use assms in \<open>auto simp: xrep_inv_def\<close>)
  with assms d show ?thesis
    by (auto simp: nn_xrep_out_def xrep_inv_def xrep_ready_def split: if_splits)
qed

lemma xrep_inv_rm:
  assumes inv: "xrep_inv avail self m s" and p: "p \<in> dom (xrep_data self)"
  shows "\<exists>self'. nn_xrep_rm self p = Some self' \<and> xrep_inv avail self' (\<lambda>k. if m k = Some p then None else m k) s \<and>
    dom (xrep_data self') = dom (xrep_data self) - {p}"
proof -
  let ?m = "\<lambda>k. if m k = Some p then None else m k"
  obtain d where "fq_data (xrep_inpipes self) p = Some d" using inv p by (auto simp: xrep_inv_def)
  have fqi: "fq_inv avail (xrep_inpipes self) s" and rep: "hash_rep (xrep_outpipes self, xrep_items self) m"
    using inv by (simp_all add: xrep_inv_def)
  from fq_inv_rm [OF fqi \<open>fq_data _ p = Some d\<close>] obtain fq where fq: "nn_fq_rm (xrep_inpipes self) p = Some fq"
      "fq_inv avail (fq\<lparr>fq_data := (fq_data fq)(p := None)\<rparr>) s" "(fq_data fq)(p := None) = (fq_data (xrep_inpipes self))(p := None)"
    by blast
  have "p \<in> ran m" using inv p by (simp add: xrep_inv_def)
  from hash_erase_law [OF rep this] obtain ht where "hash_erase (xrep_outpipes self, xrep_items self) p = Some ht"
      "hash_rep ht ?m" "hash_free ht p" by blast
  then obtain h st where h: "nn_hash_erase (xrep_items self) (xrep_outpipes self) p = Some (h, st)"
      "hash_rep (h, st) ?m" "hash_free (h, st) p"
    by (cases ht) (simp add: hash_erase_def)
  then obtain itm where itm: "st p = Some itm" "\<not> linked itm" by (auto simp: hash_free_def split: option.splits)
  let ?self' = "self\<lparr>xrep_inpipes := fq\<lparr>fq_data := (fq_data fq)(p := None)\<rparr>, xrep_outpipes := h, xrep_items := st(p := None),
      xrep_data := (xrep_data self)(p := None)\<rparr>"
  have rm: "nn_xrep_rm self p = Some ?self'" using fq(1) h(1) itm by (simp add: nn_xrep_rm_def nn_hash_item_term_def)
  have ran: "ran ?m = ran m - {p}" unfolding ran_def by (auto split: if_splits) (metis option.inject)
  then have "hash_rep (h, st(p := None)) ?m" by (intro hash_rep_store h(2)) simp
  moreover have "xrep_ready ?self' q \<longrightarrow> can_send s q" for q
    using inv by (auto simp: xrep_inv_def xrep_ready_def split: if_splits)
  ultimately have "xrep_inv avail ?self' ?m s"
    using inv fq(2,3) ran unfolding xrep_inv_def by auto
  with rm show ?thesis by auto
qed

lemma xrep_inv_in:
  assumes inv: "xrep_inv avail self m s" and p: "p \<in> dom (xrep_data self)" "can_recv s p" "0 < avail p (world s)"
    and unlinked: "\<forall>d. fq_data (xrep_inpipes self) p = Some d \<longrightarrow> \<not> pd_linked d"
  shows "\<exists>self'. nn_xrep_in self p = Some self' \<and> xrep_inv avail self' m s \<and> xrep_data self' = xrep_data self"
proof -
  obtain d where d: "fq_data (xrep_inpipes self) p = Some d" using inv p(1) by (auto simp: xrep_inv_def)
  have fq: "fq_inv avail (xrep_inpipes self) s" using inv by (simp add: xrep_inv_def)
  from fq_inv_in [OF fq d] d unlinked p(2,3) obtain fq' where fq': "nn_fq_in (xrep_inpipes self) p = Some fq'"
      "fq_inv avail fq' s" "fq_data fq' = (fq_data (xrep_inpipes self))(p \<mapsto> d\<lparr>pd_linked := True\<rparr>)"
    by blast
  let ?self' = "self\<lparr>xrep_inpipes := fq'\<rparr>"
  have "nn_xrep_in self p = Some ?self'" using fq'(1) by (simp add: nn_xrep_in_def)
  moreover have "xrep_ready ?self' q \<longleftrightarrow> xrep_ready self q" for q by (simp add: xrep_ready_def)
  moreover have "dom (fq_data fq') = dom (fq_data (xrep_inpipes self))" using d by (auto simp: fq'(3))
  ultimately show ?thesis using inv fq'(2) by (auto simp: xrep_inv_def)
qed

section \<open>Receiving a request\<close>

lemma backtrace_bottom_ok:
  "\<exists>r. backtrace_bottom body i = Some r \<and> (\<forall>j. r = Some j \<longrightarrow> i \<le> j \<and> (j + 1) * 4 \<le> length body)"
proof (induction body i rule: backtrace_bottom.induct)
  case (1 body i)
  show ?case
  proof (cases "(i + 1) * 4 > length body")
    case True
    then show ?thesis by (simp add: backtrace_bottom.simps [of body i])
  next
    case False
    then have "nn_getl body (i * 4) = Some (dec4 (slice (i * 4) 4 body))" by (simp add: nn_getl_eq)
    with False "1.IH" [OF False this] show ?thesis
      by (auto simp: backtrace_bottom.simps [of body i])
  qed
qed

lemma backtrace_bottom_first:
  "backtrace_bottom body i = Some (Some j) \<Longrightarrow> dec4 (slice (j * 4) 4 body) AND 0x80000000 \<noteq> 0 \<and>
     (\<forall>k. i \<le> k \<and> k < j \<longrightarrow> dec4 (slice (k * 4) 4 body) AND 0x80000000 = 0)"
proof (induction body i rule: backtrace_bottom.induct)
  case (1 body i)
  then have f: "\<not> (i + 1) * 4 > length body" by (auto simp: backtrace_bottom.simps [of body i])
  then have w: "nn_getl body (i * 4) = Some (dec4 (slice (i * 4) 4 body))" by (simp add: nn_getl_eq)
  show ?case
  proof (cases "dec4 (slice (i * 4) 4 body) AND 0x80000000 = 0")
    case True
    with "1.prems" f w have "backtrace_bottom body (i + 1) = Some (Some j)"
      by (simp add: backtrace_bottom.simps [of body i])
    with "1.IH" [OF f w] True have ih: "dec4 (slice (j * 4) 4 body) AND 0x80000000 \<noteq> 0"
        "\<And>k. i + 1 \<le> k \<and> k < j \<Longrightarrow> dec4 (slice (k * 4) 4 body) AND 0x80000000 = 0" by blast+
    have "dec4 (slice (k * 4) 4 body) AND 0x80000000 = 0" if "i \<le> k \<and> k < j" for k
    proof (cases "k = i")
      case False
      then have "i + 1 \<le> k \<and> k < j" using that by simp
      then show ?thesis by (rule ih(2))
    qed (use True in simp)
    with ih(1) show ?thesis by blast
  next
    case False
    with "1.prems" f w have "j = i" by (simp add: backtrace_bottom.simps [of body i])
    then have "\<not> (i \<le> k \<and> k < j)" for k by simp
    with False \<open>j = i\<close> show ?thesis by blast
  qed
qed

text \<open>A message that the transport has not parsed has no header yet.\<close>

definition raw_transport :: "'w transport \<Rightarrow> bool" where
  "raw_transport T \<longleftrightarrow> (\<forall>p w. fst (t_recv T p w) = 0 \<longrightarrow> m_sphdr (fst (snd (t_recv T p w))) = [])"

lemma split_message:
  assumes "i * 4 \<le> length (m_body m)"
  shows "trim (m_body m) (i * 4) = Some (drop (i * 4) (m_body m))"
  using assms by (simp add: trim_def)

text \<open>
  What the backtrace of a request is: the words up to and with the first one whose highest bit is
  set, the request id. A message that the transport has not parsed must have one, of at most
  \<open>maxttl\<close> words; a parsed one already has it as its header.
\<close>

definition bottom_at :: "byte list \<Rightarrow> nat \<Rightarrow> bool" where
  "bottom_at body i \<longleftrightarrow> (i + 1) * 4 \<le> length body \<and> dec4 (slice (i * 4) 4 body) AND 0x80000000 \<noteq> 0 \<and>
     (\<forall>k < i. dec4 (slice (k * 4) 4 body) AND 0x80000000 = 0)"

definition splits_into :: "int \<Rightarrow> int \<Rightarrow> msg \<Rightarrow> byte list \<Rightarrow> byte list \<Rightarrow> bool" where
  "splits_into maxttl rc orig trace body \<longleftrightarrow>
     (if rc = NN_PIPE_PARSED then trace = m_sphdr orig \<and> body = m_body orig
      else \<exists>i. bottom_at (m_body orig) i \<and> int (i + 1) \<le> maxttl \<and>
        trace = take ((i + 1) * 4) (m_body orig) \<and> body = drop ((i + 1) * 4) (m_body orig))"

lemma bottom_at_unique: "bottom_at body i \<Longrightarrow> bottom_at body j \<Longrightarrow> i = j"
  unfolding bottom_at_def by (metis nat_neq_iff)

lemma backtrace_bottom_None:
  "backtrace_bottom body i = Some None \<Longrightarrow> i \<le> j \<Longrightarrow> \<not> bottom_at body j"
proof (induction body i rule: backtrace_bottom.induct)
  case (1 body i)
  show ?case
  proof (cases "(i + 1) * 4 > length body")
    case True
    then show ?thesis using "1.prems"(2) by (auto simp: bottom_at_def)
  next
    case f: False
    then have w: "nn_getl body (i * 4) = Some (dec4 (slice (i * 4) 4 body))" by (simp add: nn_getl_eq)
    with f "1.prems"(1) have z: "dec4 (slice (i * 4) 4 body) AND 0x80000000 = 0"
      and n: "backtrace_bottom body (i + 1) = Some None"
      by (auto simp: backtrace_bottom.simps [of body i] split: if_splits)
    show ?thesis
    proof (cases "j = i")
      case True
      then show ?thesis using z by (simp add: bottom_at_def)
    next
      case False
      then show ?thesis using "1.IH" [OF f w _ n] z "1.prems"(2) by simp
    qed
  qed
qed

lemma backtrace_bottom_at: "backtrace_bottom body 0 = Some (Some i) \<Longrightarrow> bottom_at body i"
  using backtrace_bottom_first [of body 0 i] backtrace_bottom_ok [of body 0] by (auto simp: bottom_at_def)

lemma split_backtrace_ok:
  assumes h: "m_sphdr y = []"
  shows "\<exists>q. split_backtrace maxttl y = Some q \<and>
    (case q of None \<Rightarrow> \<forall>t b. \<not> splits_into maxttl 0 y t b | Some z \<Rightarrow> splits_into maxttl 0 y (m_sphdr z) (m_body z))"
proof -
  have raw: "(0 :: int) \<noteq> NN_PIPE_PARSED" by (simp add: NN_PIPE_PARSED_def)
  obtain b where b: "backtrace_bottom (m_body y) 0 = Some b" using backtrace_bottom_ok by blast
  show ?thesis
  proof (cases b)
    case None
    then have "\<not> bottom_at (m_body y) i" for i using backtrace_bottom_None b by blast
    with None b raw show ?thesis by (simp add: split_backtrace_def splits_into_def)
  next
    case (Some i)
    with b have i: "bottom_at (m_body y) i" by (simp add: backtrace_bottom_at)
    then have t: "trim (m_body y) ((i + 1) * 4) = Some (drop ((i + 1) * 4) (m_body y))"
      by (intro split_message) (simp add: bottom_at_def)
    show ?thesis
    proof (cases "int (i + 1) > maxttl")
      case True
      then have "\<not> splits_into maxttl 0 y u v" for u v
        using bottom_at_unique [OF i] raw by (auto simp: splits_into_def)
      with True Some b show ?thesis by (simp add: split_backtrace_def Let_def)
    next
      case False
      let ?z = "y\<lparr>m_sphdr := take ((i + 1) * 4) (m_body y), m_body := drop ((i + 1) * 4) (m_body y)\<rparr>"
      have "split_backtrace maxttl y = Some (Some ?z)"
        using False Some b t h by (simp add: split_backtrace_def Let_def del: add_mult_distrib mult_Suc)
      moreover have "splits_into maxttl 0 y (m_sphdr ?z) (m_body ?z)"
        using False i raw by (auto simp: splits_into_def)
      ultimately show ?thesis by (intro exI [of _ "Some ?z"]) simp
    qed
  qed
qed

lemma put_key:
  "nn_putl (replicate (length h + 4) 0) 0 k = Some (bytes4 k @ replicate (length h) 0)"
  "poke (bytes4 k @ replicate (length h) 0) 4 h = Some (bytes4 k @ h)"
  by (simp_all add: nn_putl_eq poke_def overwrite_def)

lemma xrep_recv_ok:
  assumes T: "honest_transport T avail pending" "raw_transport T" and inv: "xrep_inv avail self m s"
  shows "\<exists>rc x src fq y self' s'. nn_fq_recv T (xrep_inpipes self) s = Some (rc, src, fq, s') \<and>
    nn_xrep_recv T self s = Some (y, x, self', s') \<and> xrep_inv avail self' m s' \<and>
    (x = None \<and> y = - EAGAIN \<and>
        (\<forall>orig p t b. src = Some (orig, p) \<longrightarrow> \<not> splits_into (xrep_maxttl self) rc orig t b) \<or>
     (\<exists>orig p k trace z. src = Some (orig, p) \<and> orig = fst (snd (t_recv T p (world s))) \<and>
        rc = fst (t_recv T p (world s)) \<and> x = Some z \<and> y = 0 \<and> m k = Some p \<and> m_sphdr z = bytes4 k @ trace \<and>
        splits_into (xrep_maxttl self) rc orig trace (m_body z)))"
proof -
  have fqi: "fq_inv avail (xrep_inpipes self) s" and rep: "hash_rep (xrep_outpipes self, xrep_items self) m"
    using inv by (simp_all add: xrep_inv_def)
  obtain rc x fq s' where r: "nn_fq_recv T (xrep_inpipes self) s = Some (rc, x, fq, s')" "fq_inv avail fq s'"
      "dom (fq_data fq) = dom (fq_data (xrep_inpipes self))" "\<forall>q. can_send s' q \<longleftrightarrow> can_send s q"
      "case x of None \<Rightarrow> rc = - EAGAIN \<and> fq = xrep_inpipes self \<and> s' = s
       | Some (x, p) \<Rightarrow> p \<in> dom (fq_data (xrep_inpipes self)) \<and> 0 < avail p (world s) \<and> x = fst (snd (t_recv T p (world s))) \<and>
         rc = fst (t_recv T p (world s)) \<and> rc \<in> {0, NN_PIPE_PARSED} \<and>
         world s' = snd (snd (snd (t_recv T p (world s)))) \<and> pending (world s') < pending (world s)"
    using fq_inv_recv [OF T(1) fqi] by blast
  let ?self' = "self\<lparr>xrep_inpipes := fq\<rparr>"
  have inv': "xrep_inv avail ?self' m s'" using inv r(2-4) by (simp add: xrep_inv_def xrep_ready_def)
  show ?thesis
  proof (cases x)
    case None
    with r(1,5) have "nn_xrep_recv T self s = Some (- EAGAIN, None, ?self', s')"
      by (simp add: nn_xrep_recv_def EAGAIN_def)
    with inv' r(1) None show ?thesis by blast
  next
    case (Some xp)
    obtain y p where xp: "xp = (y, p)" by (cases xp)
    have y: "p \<in> dom (fq_data (xrep_inpipes self))" "y = fst (snd (t_recv T p (world s)))" "rc = fst (t_recv T p (world s))"
        "rc \<in> {0, NN_PIPE_PARSED}" using r(5) unfolding Some xp by auto
    then have "p \<in> ran m" using inv by (simp add: xrep_inv_def)
    then obtain k where k: "m k = Some p" by (auto simp: ran_def)
    then obtain it where it: "xrep_items self p = Some it" "hkey it = k" using hash_rep_found [OF rep] by blast
    have rc: "\<not> rc < 0" "rc AND NN_PIPE_PARSED = 0 \<longleftrightarrow> rc = 0" using y(4) by (auto simp: NN_PIPE_PARSED_def)
    define parsed where "parsed =
      (if rc AND NN_PIPE_PARSED = 0 then split_backtrace (xrep_maxttl ?self') y else Some (Some y))"
    have "nn_xrep_recv T self s = do {
        m \<leftarrow> parsed;
        case m of None \<Rightarrow> Some (- EAGAIN, None, ?self', s')
        | Some m \<Rightarrow> do {
            ref \<leftarrow> nn_putl (replicate (length (m_sphdr m) + 4) 0) 0 k;
            ref \<leftarrow> poke ref 4 (m_sphdr m);
            Some (0, Some (m\<lparr>m_sphdr := ref\<rparr>), ?self', s') } }"
      unfolding parsed_def using r(1) Some xp rc(1) it by (simp add: nn_xrep_recv_def Let_def cong: option.case_cong)
    then have recv: "nn_xrep_recv T self s = (case parsed of None \<Rightarrow> None
        | Some None \<Rightarrow> Some (- EAGAIN, None, ?self', s')
        | Some (Some z) \<Rightarrow> Some (0, Some (z\<lparr>m_sphdr := bytes4 k @ m_sphdr z\<rparr>), ?self', s'))"
      by (simp only: put_key bind.simps) (simp add: put_key split: option.split)
    have "\<exists>q. parsed = Some q \<and> (case q of None \<Rightarrow> \<forall>t b. \<not> splits_into (xrep_maxttl self) rc y t b
        | Some z \<Rightarrow> splits_into (xrep_maxttl self) rc y (m_sphdr z) (m_body z))"
    proof (cases "rc = 0")
      case True
      then have "m_sphdr y = []" using T(2) y by (simp add: raw_transport_def)
      from split_backtrace_ok [OF this, of "xrep_maxttl self"] rc(2) show ?thesis unfolding parsed_def True by simp
    next
      case False
      with rc(2) y(4) show ?thesis by (simp add: parsed_def splits_into_def)
    qed
    then obtain q where q: "parsed = Some q" "case q of None \<Rightarrow> \<forall>t b. \<not> splits_into (xrep_maxttl self) rc y t b
        | Some z \<Rightarrow> splits_into (xrep_maxttl self) rc y (m_sphdr z) (m_body z)" by blast
    show ?thesis
    proof (cases q)
      case None
      with recv q(1) have "nn_xrep_recv T self s = Some (- EAGAIN, None, ?self', s')" by simp
      moreover have "\<forall>t b. \<not> splits_into (xrep_maxttl self) rc y t b" using q(2) None by simp
      ultimately show ?thesis using r(1) inv' Some xp by blast
    next
      case (Some z)
      let ?z = "z\<lparr>m_sphdr := bytes4 k @ m_sphdr z\<rparr>"
      have "nn_xrep_recv T self s = Some (0, Some ?z, ?self', s')" using recv q(1) Some by simp
      moreover have "m_sphdr ?z = bytes4 k @ m_sphdr z" by simp
      moreover have "splits_into (xrep_maxttl self) rc y (m_sphdr z) (m_body ?z)" using q(2) Some by simp
      ultimately show ?thesis using r(1) inv' k y(2,3) \<open>x = Some xp\<close> xp by blast
    qed
  qed
qed

section \<open>Sending the reply\<close>

lemma getl_key: "nn_getl (bytes4 k @ h) 0 = Some k"
  by (simp add: nn_getl_eq slice_def dec4_bytes4)

lemma trim_key: "trim (bytes4 k @ h) 4 = Some h"
  by (simp add: trim_def)

text \<open>A reply goes to the pipe of its key, if that pipe can take it; otherwise it is dropped.\<close>

lemma xrep_send_ok:
  assumes T: "sane_transport T" and inv: "xrep_inv avail self m s" and k: "m k = Some p"
    and x: "m_sphdr x = bytes4 k @ trace"
  shows "\<exists>self' s'. nn_xrep_send T self x s = Some (0, self', s') \<and>
    world s' = (if xrep_ready self p then snd (snd (t_send T p (x\<lparr>m_sphdr := trace\<rparr>) (world s))) else world s) \<and>
    (\<forall>q. xrep_ready self' q \<longrightarrow> can_send s' q)"
proof -
  have rep: "hash_rep (xrep_outpipes self, xrep_items self) m" using inv by (simp add: xrep_inv_def)
  have get: "nn_hash_get (xrep_items self) (xrep_outpipes self) k = Some (Some p)"
    using hash_get_law [OF rep, of k] k by (simp add: hash_get_def)
  have "p \<in> ran m" using k by (rule ranI)
  then obtain d where d: "xrep_data self p = Some d" "xd_pipe d = p" using inv unfolding xrep_inv_def by blast
  have ready: "xrep_ready self q \<Longrightarrow> can_send s q" for q using inv by (simp add: xrep_inv_def)
  show ?thesis
  proof (cases "xd_flags d AND NN_XREP_OUT = 0")
    case True
    then have "nn_xrep_send T self x s = Some (0, self, s)"
      by (simp add: nn_xrep_send_def x getl_key trim_key get d)
    with True d ready show ?thesis by (auto simp: xrep_ready_def)
  next
    case False
    then have out: "xrep_ready self p" using d by (simp add: xrep_ready_def)
    from pipe_send_ok [OF T ready [OF out], of "x\<lparr>m_sphdr := trace\<rparr>"] obtain rc s' where s':
        "nn_pipe_send T p (x\<lparr>m_sphdr := trace\<rparr>) s = Some (rc, s')" "0 \<le> rc" "released rc \<longleftrightarrow> \<not> can_send s' p"
        "world s' = snd (snd (t_send T p (x\<lparr>m_sphdr := trace\<rparr>) (world s)))" "\<forall>q. q \<noteq> p \<longrightarrow> pipe_at s' q = pipe_at s q"
      by blast
    let ?self' = "if released rc
      then self\<lparr>xrep_data := (xrep_data self)(p \<mapsto> d\<lparr>xd_flags := xd_flags d AND NOT NN_XREP_OUT\<rparr>)\<rparr> else self"
    have "nn_xrep_send T self x s = Some (0, ?self', s')"
      using False s'(1,2) by (simp add: nn_xrep_send_def x getl_key trim_key get d)
    moreover have "can_send s' q" if "xrep_ready ?self' q" for q
    proof (cases "q = p")
      case True
      have "(xd_flags d AND NOT NN_XREP_OUT) AND NN_XREP_OUT = 0" by (intro bit_word_eqI) (simp add: bit_simps)
      with that True have "\<not> released rc" by (auto simp: xrep_ready_def split: if_splits)
      with s'(3) True show ?thesis by blast
    next
      case False
      with that have "xrep_ready self q" by (auto simp: xrep_ready_def split: if_splits)
      with ready s'(5) False show ?thesis by metis
    qed
    ultimately show ?thesis using out s'(4) by auto
  qed
qed

text \<open>C32. A reply goes back the way its request came: over any transport that delivers what it
  announces, receiving on a reply socket takes the next message, if any, out of the fair queue. The
  answer is \<open>-EAGAIN\<close>, after which a send is refused with \<open>-EFSM\<close>, exactly if there is none or it is
  no request: it has no word with the highest bit set or one more than \<open>maxttl\<close> words in. Otherwise
  the answer is 0 with the bytes after that first word, the request id, as body; the words up to and
  with it are the backtrace. The next send then answers 0: its message, with exactly that backtrace as
  header, is handed to the transport of the pipe the request was taken from if that is ready for
  sending, and dropped otherwise. A second send before another request is refused with \<open>-EFSM\<close>.\<close>

theorem nn_rep_answers_requester:
  assumes "honest_transport T avail pending" "raw_transport T" "xrep_inv avail (rep_xrep self) m s"
    and r: "m_sphdr r = []"
  shows "\<exists>rc src fq s'. nn_fq_recv T (xrep_inpipes (rep_xrep self)) s = Some (rc, src, fq, s') \<and>
    ((\<exists>self'. nn_rep_recv T self s = Some (- EAGAIN, None, self', s') \<and>
       (\<forall>orig p t b. src = Some (orig, p) \<longrightarrow> \<not> splits_into (xrep_maxttl (rep_xrep self)) rc orig t b) \<and>
       nn_rep_send T self' r s' = Some (- EFSM, self', s')) \<or>
     (\<exists>orig p y trace self' self'' s''. src = Some (orig, p) \<and> p \<in> ran m \<and>
       rc = fst (t_recv T p (world s)) \<and> orig = fst (snd (t_recv T p (world s))) \<and>
       nn_rep_recv T self s = Some (0, Some y, self', s') \<and>
       splits_into (xrep_maxttl (rep_xrep self)) rc orig trace (m_body y) \<and>
       nn_rep_send T self' r s' = Some (0, self'', s'') \<and>
       world s'' = (if xrep_ready (rep_xrep self') p
         then snd (snd (t_send T p (r\<lparr>m_sphdr := trace\<rparr>) (world s'))) else world s') \<and>
       nn_rep_send T self'' r s'' = Some (- EFSM, self'', s'')))"
proof -
  have sane: "sane_transport T" using assms(1) by (simp add: honest_transport_def)
  from xrep_recv_ok [OF assms(1-3)] obtain rc x src fq e xr s' where x:
      "nn_fq_recv T (xrep_inpipes (rep_xrep self)) s = Some (rc, src, fq, s')"
      "nn_xrep_recv T (rep_xrep self) s = Some (e, x, xr, s')" "xrep_inv avail xr m s'"
      "x = None \<and> e = - EAGAIN \<and>
        (\<forall>orig p t b. src = Some (orig, p) \<longrightarrow> \<not> splits_into (xrep_maxttl (rep_xrep self)) rc orig t b) \<or>
     (\<exists>orig p k trace z. src = Some (orig, p) \<and> orig = fst (snd (t_recv T p (world s))) \<and>
        rc = fst (t_recv T p (world s)) \<and> x = Some z \<and> e = 0 \<and> m k = Some p \<and> m_sphdr z = bytes4 k @ trace \<and>
        splits_into (xrep_maxttl (rep_xrep self)) rc orig trace (m_body z))"
    by blast
  from x(4) show ?thesis
  proof (elim disjE conjE exE)
    assume e: "x = None" "e = - EAGAIN"
      "\<forall>orig p t b. src = Some (orig, p) \<longrightarrow> \<not> splits_into (xrep_maxttl (rep_xrep self)) rc orig t b"
    let ?self' = "(if rep_inprogress self then self\<lparr>rep_inprogress := False\<rparr> else self)\<lparr>rep_xrep := xr\<rparr>"
    have "nn_rep_recv T self s = Some (- EAGAIN, None, ?self', s')" "nn_rep_send T ?self' r s' = Some (- EFSM, ?self', s')"
      using x(2) e(1,2) by (simp_all add: nn_rep_recv_def nn_rep_send_def)
    with x(1) e(3) show ?thesis by blast
  next
    fix orig p k trace y
    assume y: "src = Some (orig, p)" "orig = fst (snd (t_recv T p (world s)))" "rc = fst (t_recv T p (world s))"
      "x = Some y" "e = 0" "m k = Some p" "m_sphdr y = bytes4 k @ trace"
      "splits_into (xrep_maxttl (rep_xrep self)) rc orig trace (m_body y)"
    let ?self' = "(if rep_inprogress self then self\<lparr>rep_inprogress := False\<rparr> else self)
      \<lparr>rep_xrep := xr, rep_backtrace := bytes4 k @ trace, rep_inprogress := True\<rparr>"
    have recv: "nn_rep_recv T self s = Some (0, Some (y\<lparr>m_sphdr := []\<rparr>), ?self', s')"
      using x(2) y by (simp add: nn_rep_recv_def EAGAIN_def)
    have "m_sphdr (r\<lparr>m_sphdr := bytes4 k @ trace\<rparr>) = bytes4 k @ trace" by simp
    from xrep_send_ok [OF sane x(3) y(6) this] obtain xr' s'' where s'':
        "nn_xrep_send T xr (r\<lparr>m_sphdr := bytes4 k @ trace\<rparr>) s' = Some (0, xr', s'')"
        "world s'' = (if xrep_ready xr p then snd (snd (t_send T p (r\<lparr>m_sphdr := trace\<rparr>) (world s'))) else world s')"
      by auto
    let ?self'' = "?self'\<lparr>rep_inprogress := False, rep_xrep := xr'\<rparr>"
    have send: "nn_rep_send T ?self' r s' = Some (0, ?self'', s'')"
      using s''(1) r by (simp add: nn_rep_send_def)
    have again: "nn_rep_send T ?self'' r s'' = Some (- EFSM, ?self'', s'')" by (simp add: nn_rep_send_def)
    have w: "world s'' = (if xrep_ready (rep_xrep ?self') p
         then snd (snd (t_send T p (r\<lparr>m_sphdr := trace\<rparr>) (world s'))) else world s')" using s''(2) by simp
    have sp: "splits_into (xrep_maxttl (rep_xrep self)) rc orig trace (m_body (y\<lparr>m_sphdr := []\<rparr>))" using y(8) by simp
    have "p \<in> ran m" using y(6) by (rule ranI)
    with x(1) y(1-3) recv sp send w again show ?thesis by blast
  qed
qed

text \<open>A reply socket with pipe 7, where a request with a backtrace of one word waits.\<close>

definition ask_transport :: "nat transport" where
  "ask_transport = \<lparr>t_send = (\<lambda>p m w. (0, True, w)),
     t_recv = (\<lambda>p w. (0, plain_msg [128, 0, 0, 1, 42], 1 < w, w - 1))\<rparr>"

definition ask_avail :: "nat \<Rightarrow> nat \<Rightarrow> nat" where
  "ask_avail p w = (if p = 7 then w else 0)"

definition ask_pipes :: "nat pipes" where
  "ask_pipes = \<lparr>pipe_at = [7 \<mapsto> \<lparr>pb_state = P_ACTIVE, pb_instate = IN_IDLE, pb_outstate = OUT_IDLE,
     pb_sndprio = 8, pb_rcvprio = 8\<rparr>], world = 1\<rparr>"

lemma ask_honest: "honest_transport ask_transport ask_avail (\<lambda>w. w)" "raw_transport ask_transport"
  by (auto simp: honest_transport_def sane_transport_def ask_transport_def ask_avail_def raw_transport_def plain_msg_def)

lemma ask_socket: "\<exists>self. xrep_inv ask_avail self [5 \<mapsto> 7] ask_pipes"
proof -
  let ?x = "nn_xrep_init 5 8"
  have init: "xrep_inv ask_avail ?x (\<lambda>_. None) ask_pipes" by (rule xrep_inv_init)
  have x: "7 \<notin> dom (xrep_data ?x)" "5 = xrep_next_key ?x AND 0x7fffffff" by (simp_all add: nn_xrep_init_def)
  have room: "0 < hash_room (xrep_outpipes ?x, xrep_items ?x)" by (simp add: hash_room_def nn_xrep_init_def nn_hash_init_def)
  from xrep_inv_add [OF init, of 7 _ 5] x room obtain self where "xrep_inv ask_avail self [5 \<mapsto> 7] ask_pipes"
    by (auto simp: ask_pipes_def)
  then show ?thesis by blast
qed

theorem nn_rep_answers_requester_witness:
  "\<exists>self. (\<exists>self' s'. nn_rep_recv ask_transport self ask_pipes = Some (- EAGAIN, None, self', s') \<and>
      nn_rep_send ask_transport self' (plain_msg [1]) s' = Some (- EFSM, self', s')) \<or>
    (\<exists>y trace self' s' self'' s''. nn_rep_recv ask_transport self ask_pipes = Some (0, Some y, self', s') \<and>
      trace @ m_body y = [128, 0, 0, 1, 42] \<and>
      nn_rep_send ask_transport self' (plain_msg [1]) s' = Some (0, self'', s'') \<and> world s'' = world s' \<and>
      nn_rep_send ask_transport self'' (plain_msg [1]) s'' = Some (- EFSM, self'', s''))"
proof -
  obtain x where x: "xrep_inv ask_avail x [5 \<mapsto> 7] ask_pipes" using ask_socket by blast
  let ?self = "\<lparr>rep_xrep = x, rep_inprogress = False, rep_backtrace = []\<rparr>"
  have "xrep_inv ask_avail (rep_xrep ?self) [5 \<mapsto> 7] ask_pipes" "m_sphdr (plain_msg [1]) = []"
    using x by (simp_all add: plain_msg_def)
  note main = nn_rep_answers_requester [OF ask_honest this]
  have t: "snd (snd (t_send ask_transport p m w)) = w" for p m w by (simp add: ask_transport_def)
  have o: "fst (t_recv ask_transport p w) = 0" "fst (snd (t_recv ask_transport p w)) = plain_msg [128, 0, 0, 1, 42]" for p w
    by (simp_all add: ask_transport_def)
  have sp: "trace @ body = [128, 0, 0, 1, 42]" if "splits_into ttl 0 (plain_msg [128, 0, 0, 1, 42]) trace body" for ttl trace body
    using that by (auto simp: splits_into_def plain_msg_def NN_PIPE_PARSED_def simp del: add_mult_distrib mult_Suc)
  from main show ?thesis unfolding t o if_cancel
    by (intro exI [of _ ?self]) (metis sp)
qed

end
