(* ===== verification/NN_Utf8.thy ===== *)
theory NN_Utf8
  imports Getd_Prelude
begin

text \<open>
  The validator of UTF-8 of the WebSocket transport, \<open>nn_utf8_code_point\<close> of
  \<open>transports/ws/sws.c\<close>, and the encoding of RFC 3629 it is held against.
\<close>

unbundle bit_operations_syntax

section \<open>The code\<close>

definition NN_SWS_UTF8_INVALID :: int where "NN_SWS_UTF8_INVALID = -2"
definition NN_SWS_UTF8_FRAGMENT :: int where "NN_SWS_UTF8_FRAGMENT = -1"

text \<open>\<open>buffer\<close> is the memory from the pointer on, \<open>len\<close> bytes of it count.\<close>

definition nn_utf8_code_point :: "byte list \<Rightarrow> int" where
  "nn_utf8_code_point buffer = (
     let len = length buffer in
     if len = 0 then NN_SWS_UTF8_FRAGMENT
     else if buffer ! 0 \<le> 0x7F then 1
     else if buffer ! 0 < 0xC2 then NN_SWS_UTF8_INVALID
     else if buffer ! 0 \<le> 0xDF then
       (if len < 2 then NN_SWS_UTF8_FRAGMENT
        else if buffer ! 1 AND 0xC0 \<noteq> 0x80 then NN_SWS_UTF8_INVALID
        else 2)
     else if buffer ! 0 \<le> 0xEF then
       (if len < 2 then NN_SWS_UTF8_FRAGMENT
        else if buffer ! 0 = 0xE0 \<and> (buffer ! 1 < 0xA0 \<or> buffer ! 1 = 0x80) then NN_SWS_UTF8_INVALID
        else if buffer ! 0 = 0xED \<and> buffer ! 1 \<ge> 0xA0 then NN_SWS_UTF8_INVALID
        else if len < 3 then NN_SWS_UTF8_FRAGMENT
        else if buffer ! 1 AND 0xC0 \<noteq> 0x80 \<or> buffer ! 2 AND 0xC0 \<noteq> 0x80 then NN_SWS_UTF8_INVALID
        else 3)
     else if buffer ! 0 \<le> 0xF4 then
       (if len < 2 then NN_SWS_UTF8_FRAGMENT
        else if buffer ! 0 = 0xF0 \<and> buffer ! 1 < 0x90 then NN_SWS_UTF8_INVALID
        else if buffer ! 0 = 0xF4 \<and> buffer ! 1 \<ge> 0x90 then NN_SWS_UTF8_INVALID
        else if len < 4 then NN_SWS_UTF8_FRAGMENT
        else if buffer ! 1 AND 0xC0 \<noteq> 0x80 \<or> buffer ! 2 AND 0xC0 \<noteq> 0x80 \<or> buffer ! 3 AND 0xC0 \<noteq> 0x80
        then NN_SWS_UTF8_INVALID
        else 4)
     else NN_SWS_UTF8_INVALID)"

section \<open>The encoding of RFC 3629\<close>

definition scalar_value :: "nat \<Rightarrow> bool" where
  "scalar_value c \<longleftrightarrow> c < 0xD800 \<or> 0xDFFF < c \<and> c \<le> 0x10FFFF"

definition utf8_nats :: "nat \<Rightarrow> nat list" where
  "utf8_nats c = (
     if c < 0x80 then [c]
     else if c < 0x800 then [0xC0 + c div 64, 0x80 + c mod 64]
     else if c < 0x10000 then [0xE0 + c div 4096, 0x80 + c div 64 mod 64, 0x80 + c mod 64]
     else [0xF0 + c div 262144, 0x80 + c div 4096 mod 64, 0x80 + c div 64 mod 64, 0x80 + c mod 64])"

definition utf8_encode :: "nat \<Rightarrow> byte list" where
  "utf8_encode c = map word_of_nat (utf8_nats c)"

definition utf8_text :: "byte list \<Rightarrow> bool" where
  "utf8_text bs \<longleftrightarrow> (\<exists>cs. (\<forall>c \<in> set cs. scalar_value c) \<and> bs = concat (map utf8_encode cs))"

lemma utf8_encode_nonempty [simp]: "utf8_encode c \<noteq> []"
  by (simp add: utf8_encode_def utf8_nats_def)

section \<open>The validator on numbers\<close>

lemma continuation_byte: "b AND 0xC0 = 0x80 \<longleftrightarrow> 0x80 \<le> unat b \<and> unat b < 0xC0" for b :: byte
proof -
  have "\<forall>n \<in> set [0..<256]. ((word_of_nat n :: byte) AND 0xC0 = 0x80) = (0x80 \<le> n \<and> n < 0xC0)"
    by code_simp
  from bspec [OF this, of "unat b"] unat_byte_lt [of b] show ?thesis by simp
qed

definition lead_ok :: "nat list \<Rightarrow> nat option" where
  "lead_ok ns = (case ns of [] \<Rightarrow> None
     | a # r \<Rightarrow>
       if a \<le> 0x7F then Some 1 else if a < 0xC2 then None else if a \<le> 0xDF then Some 2
       else if a \<le> 0xEF then
         (case r of [] \<Rightarrow> Some 3 | b # _ \<Rightarrow> if a = 0xE0 \<and> b < 0xA0 \<or> a = 0xED \<and> 0xA0 \<le> b then None else Some 3)
       else if a \<le> 0xF4 then
         (case r of [] \<Rightarrow> Some 4 | b # _ \<Rightarrow> if a = 0xF0 \<and> b < 0x90 \<or> a = 0xF4 \<and> 0x90 \<le> b then None else Some 4)
       else None)"

abbreviation trailing :: "nat \<Rightarrow> bool" where
  "trailing b \<equiv> 0x80 \<le> b \<and> b < 0xC0"

lemma code_point_lead:
  "nn_utf8_code_point bs = (
     if bs = [] then NN_SWS_UTF8_FRAGMENT
     else case lead_ok (map unat bs) of None \<Rightarrow> NN_SWS_UTF8_INVALID
     | Some n \<Rightarrow> if length bs < n then NN_SWS_UTF8_FRAGMENT
         else if (\<forall>b \<in> set (take (n - 1) (tl (map unat bs))). trailing b) then int n else NN_SWS_UTF8_INVALID)"
proof -
  consider "bs = []" | a where "bs = [a]" | a b where "bs = [a, b]" | a b c where "bs = [a, b, c]"
    | a b c d r where "bs = a # b # c # d # r"
    by (metis neq_Nil_conv)
  then show ?thesis unfolding nn_utf8_code_point_def Let_def continuation_byte
    by cases (auto simp: lead_ok_def word_le_nat_alt word_less_nat_alt word_unat_eq_iff)
qed

section \<open>Sequences of the encoding\<close>

lemma utf8_nats_2: "2 \<le> x \<Longrightarrow> x < 32 \<Longrightarrow> z < 64 \<Longrightarrow> utf8_nats (x * 64 + z) = [0xC0 + x, 0x80 + z]"
  by (simp add: utf8_nats_def)

lemma digits:
  fixes c :: nat
  obtains x w y z where "c div 262144 = x" "c div 4096 mod 64 = w" "c div 64 mod 64 = y" "c mod 64 = z"
    "c div 4096 = x * 64 + w" "c = x * 262144 + w * 4096 + y * 64 + z" "w < 64" "y < 64" "z < 64"
proof
  have q: "c div 4096 = c div 64 div 64" "c div 262144 = c div 64 div 64 div 64"
    by (simp_all flip: div_mult2_eq)
  have e: "c = c div 64 * 64 + c mod 64" "c div 64 = c div 64 div 64 * 64 + c div 64 mod 64"
    "c div 64 div 64 = c div 64 div 64 div 64 * 64 + c div 64 div 64 mod 64" by simp_all
  show "c div 4096 = c div 262144 * 64 + c div 4096 mod 64" using e(3) by (simp add: q)
  show "c = c div 262144 * 262144 + c div 4096 mod 64 * 4096 + c div 64 mod 64 * 64 + c mod 64"
    using e unfolding q by linarith
qed simp_all

lemma digits_3: "y < 64 \<Longrightarrow> z < 64 \<Longrightarrow> (x * 4096 + y * 64 + z) div 4096 = x \<and>
    (x * 4096 + y * 64 + z) div 64 mod 64 = y \<and> (x * 4096 + y * 64 + z) mod 64 = (z :: nat)"
proof -
  assume y: "y < 64" and z: "z < 64"
  have "x * 4096 + y * 64 + z = (x * 64 + y) * 64 + z" by simp
  then have c: "(x * 4096 + y * 64 + z) div 64 = x * 64 + y" "(x * 4096 + y * 64 + z) mod 64 = z"
    using z by (simp_all only: div_mult_self3 mod_mult_self3 div_less mod_less)
  have "(x * 4096 + y * 64 + z) div 4096 = (x * 4096 + y * 64 + z) div 64 div 64" by (simp flip: div_mult2_eq)
  with c y show ?thesis by simp
qed

lemma utf8_nats_3: "x < 16 \<Longrightarrow> y < 64 \<Longrightarrow> z < 64 \<Longrightarrow> (x = 0 \<Longrightarrow> 32 \<le> y) \<Longrightarrow>
    utf8_nats (x * 4096 + y * 64 + z) = [0xE0 + x, 0x80 + y, 0x80 + z]"
  using digits_3 [of y z x] by (cases "x = 0") (simp_all add: utf8_nats_def)

lemma digits_4: "w < 64 \<Longrightarrow> y < 64 \<Longrightarrow> z < 64 \<Longrightarrow> c = x * 262144 + w * 4096 + y * 64 + z \<Longrightarrow>
    c div 262144 = x \<and> c div 4096 mod 64 = w \<and> c div 64 mod 64 = y \<and> c mod 64 = (z :: nat)"
proof -
  assume w: "w < 64" "y < 64" "z < 64" and "c = x * 262144 + w * 4096 + y * 64 + z"
  then have "c = (x * 64 + w) * 4096 + y * 64 + z" by simp
  with digits_3 [OF w(2,3), of "x * 64 + w"]
  have c: "c div 4096 = x * 64 + w" "c div 64 mod 64 = y" "c mod 64 = z" by simp_all
  have "c div 262144 = c div 4096 div 64" by (simp flip: div_mult2_eq)
  with c w(1) show ?thesis by simp
qed

lemma utf8_nats_4: "x \<le> 4 \<Longrightarrow> w < 64 \<Longrightarrow> y < 64 \<Longrightarrow> z < 64 \<Longrightarrow> (x = 0 \<Longrightarrow> 16 \<le> w) \<Longrightarrow>
    utf8_nats (x * 262144 + w * 4096 + y * 64 + z) = [0xF0 + x, 0x80 + w, 0x80 + y, 0x80 + z]"
  using digits_4 [of w y z _ x, OF _ _ _ refl] by (cases "x = 0") (simp_all add: utf8_nats_def)

text \<open>A sequence of two, three or four bytes that the validator accepts, as the number it encodes.\<close>

definition seq_ok :: "nat \<Rightarrow> nat list \<Rightarrow> bool" where
  "seq_ok n ns \<longleftrightarrow> lead_ok ns = Some n \<and> n \<le> length ns \<and> (\<forall>b \<in> set (take (n - 1) (tl ns)). trailing b)"

inductive is_seq :: "nat list \<Rightarrow> nat \<Rightarrow> bool" where
  seq_1: "a < 0x80 \<Longrightarrow> is_seq [a] a"
| seq_2: "2 \<le> x \<Longrightarrow> x < 32 \<Longrightarrow> z < 64 \<Longrightarrow> is_seq [0xC0 + x, 0x80 + z] (x * 64 + z)"
| seq_3: "x < 16 \<Longrightarrow> y < 64 \<Longrightarrow> z < 64 \<Longrightarrow> x = 0 \<longrightarrow> 32 \<le> y \<Longrightarrow> x = 13 \<longrightarrow> y < 32 \<Longrightarrow>
    is_seq [0xE0 + x, 0x80 + y, 0x80 + z] (x * 4096 + y * 64 + z)"
| seq_4: "x \<le> 4 \<Longrightarrow> w < 64 \<Longrightarrow> y < 64 \<Longrightarrow> z < 64 \<Longrightarrow> x = 0 \<longrightarrow> 16 \<le> w \<Longrightarrow> x = 4 \<longrightarrow> w < 16 \<Longrightarrow>
    is_seq [0xF0 + x, 0x80 + w, 0x80 + y, 0x80 + z] (x * 262144 + w * 4096 + y * 64 + z)"

lemma is_seq_encodes: "is_seq ns c \<Longrightarrow> scalar_value c \<and> utf8_nats c = ns"
proof (induction rule: is_seq.induct)
  case (seq_1 a)
  then show ?case by (simp add: utf8_nats_def scalar_value_def)
next
  case (seq_2 x z)
  then show ?case by (simp add: utf8_nats_2 scalar_value_def)
next
  case (seq_3 x y z)
  have "scalar_value (x * 4096 + y * 64 + z)"
  proof (cases "x < 13")
    case False
    with seq_3 show ?thesis by (cases "x = 13") (simp_all add: scalar_value_def)
  qed (use seq_3 in \<open>simp add: scalar_value_def\<close>)
  with seq_3 show ?case by (simp add: utf8_nats_3)
next
  case (seq_4 x w y z)
  have "scalar_value (x * 262144 + w * 4096 + y * 64 + z)"
    using seq_4 by (cases "x = 0"; cases "x = 4") (simp_all add: scalar_value_def)
  with seq_4 show ?case by (simp add: utf8_nats_4)
qed

lemma encodes_is_seq:
  assumes "scalar_value c"
  shows "is_seq (utf8_nats c) c"
proof -
  consider "c < 0x80" | "0x80 \<le> c" "c < 0x800" | "0x800 \<le> c" "c < 0x10000" | "0x10000 \<le> c" by linarith
  then show ?thesis
  proof cases
    case 1
    then show ?thesis by (simp add: utf8_nats_def seq_1)
  next
    case 2
    then have "is_seq [0xC0 + c div 64, 0x80 + c mod 64] (c div 64 * 64 + c mod 64)" by (intro seq_2) simp_all
    with 2 show ?thesis by (simp add: utf8_nats_def)
  next
    case 3
    have "is_seq [0xE0 + c div 4096, 0x80 + c div 64 mod 64, 0x80 + c mod 64]
        (c div 4096 * 4096 + c div 64 mod 64 * 64 + c mod 64)"
      by (rule digits [of c], rule seq_3) (use 3 assms in \<open>auto simp: scalar_value_def\<close>)
    moreover have "c div 4096 * 4096 + c div 64 mod 64 * 64 + c mod 64 = c" by (rule digits [of c]) simp
    ultimately show ?thesis using 3 by (simp add: utf8_nats_def)
  next
    case 4
    then have c: "c \<le> 0x10FFFF" using assms by (simp add: scalar_value_def)
    obtain x w y z where d: "c div 262144 = x" "c div 4096 mod 64 = w" "c div 64 mod 64 = y" "c mod 64 = z"
      "c = x * 262144 + w * 4096 + y * 64 + z" "w < 64" "y < 64" "z < 64" by (rule digits [of c]) blast
    have "is_seq [0xF0 + x, 0x80 + w, 0x80 + y, 0x80 + z] (x * 262144 + w * 4096 + y * 64 + z)"
      by (rule seq_4) (use 4 c d(5-) in linarith)+
    moreover have "utf8_nats c = [0xF0 + x, 0x80 + w, 0x80 + y, 0x80 + z]" using 4 d(1-4) by (simp add: utf8_nats_def)
    ultimately show ?thesis using d(5) by simp
  qed
qed

lemma is_seq_seq_ok: "is_seq p c \<Longrightarrow> seq_ok (length p) (p @ r)"
  by (induction rule: is_seq.induct) (auto simp: seq_ok_def lead_ok_def)

lemma shift: "k \<le> a \<Longrightarrow> a = k + (a - k)" for a k :: nat
  by simp

lemma seq_ok_is_seq: "seq_ok n ns \<Longrightarrow> \<exists>c. is_seq (take n ns) c"
proof -
  assume ok: "seq_ok n ns"
  then obtain a r where ns: "ns = a # r" by (cases ns) (auto simp: seq_ok_def lead_ok_def)
  have n: "n \<in> {1, 2, 3, 4}" using ok by (auto simp: seq_ok_def lead_ok_def ns split: if_splits list.splits)
  then consider "n = 1" | b t where "n = 2" "r = b # t" | b d t where "n = 3" "r = b # d # t"
    | b d e t where "n = 4" "r = b # d # e # t"
    using ok unfolding seq_ok_def ns by (auto simp: Suc_le_length_iff numeral_eq_Suc)
  then show ?thesis
  proof cases
    case 1
    with ok have "a < 0x80" by (auto simp: seq_ok_def lead_ok_def ns split: if_splits list.splits)
    from seq_1 [OF this] 1 show ?thesis by (auto simp: ns)
  next
    case 2
    with ok have ab: "0xC2 \<le> a" "a \<le> 0xDF" "trailing b" by (auto simp: seq_ok_def lead_ok_def ns split: if_splits)
    then have "is_seq [0xC0 + (a - 0xC0), 0x80 + (b - 0x80)] ((a - 0xC0) * 64 + (b - 0x80))" by (intro seq_2) auto
    with ab have "is_seq [a, b] ((a - 0xC0) * 64 + (b - 0x80))" by simp
    with 2 show ?thesis by (auto simp: ns)
  next
    case 3
    with ok have ab: "0xE0 \<le> a" "a \<le> 0xEF" "trailing b" "trailing d" "a = 0xE0 \<longrightarrow> 0xA0 \<le> b" "a = 0xED \<longrightarrow> b < 0xA0"
      by (auto simp: seq_ok_def lead_ok_def ns numeral_eq_Suc split: if_splits)
    then have "is_seq [0xE0 + (a - 0xE0), 0x80 + (b - 0x80), 0x80 + (d - 0x80)]
        ((a - 0xE0) * 4096 + (b - 0x80) * 64 + (d - 0x80))" by (intro seq_3) auto
    with ab(1-4) have "\<exists>c. is_seq [a, b, d] c" by auto
    with 3 show ?thesis by (simp add: ns numeral_eq_Suc)
  next
    case 4
    with ok have ab: "0xF0 \<le> a" "a \<le> 0xF4" "trailing b" "trailing d" "trailing e" "a = 0xF0 \<longrightarrow> 0x90 \<le> b" "a = 0xF4 \<longrightarrow> b < 0x90"
      by (auto simp: seq_ok_def lead_ok_def ns numeral_eq_Suc split: if_splits)
    then have "is_seq [0xF0 + (a - 0xF0), 0x80 + (b - 0x80), 0x80 + (d - 0x80), 0x80 + (e - 0x80)]
        ((a - 0xF0) * 262144 + (b - 0x80) * 4096 + (d - 0x80) * 64 + (e - 0x80))" by (intro seq_4) auto
    with ab(1-5) have "\<exists>c. is_seq [a, b, d, e] c" by auto
    with 4 show ?thesis by (simp add: ns numeral_eq_Suc)
  qed
qed

section \<open>What the validator decides\<close>

lemma utf8_nats_bound: "scalar_value c \<Longrightarrow> \<forall>n \<in> set (utf8_nats c). n < 256"
proof -
  assume "scalar_value c"
  then have "is_seq (utf8_nats c) c" by (rule encodes_is_seq)
  then show ?thesis by (cases rule: is_seq.cases) auto
qed

lemma unat_utf8_encode: "scalar_value c \<Longrightarrow> map unat (utf8_encode c) = utf8_nats c"
  using utf8_nats_bound [of c] by (simp add: utf8_encode_def map_idI unat_byte_of_nat)

lemma utf8_encode_eq: "scalar_value c \<Longrightarrow> bs = utf8_encode c \<longleftrightarrow> map unat bs = utf8_nats c"
proof
  assume "map unat bs = utf8_nats c"
  then have "map word_of_nat (map unat bs) = utf8_encode c" by (simp add: utf8_encode_def)
  then show "bs = utf8_encode c" by (simp add: comp_def)
qed (simp add: unat_utf8_encode)

lemma code_point_accepts:
  "0 < n \<Longrightarrow> nn_utf8_code_point bs = int n \<longleftrightarrow> seq_ok n (map unat bs)"
  by (auto simp: code_point_lead seq_ok_def NN_SWS_UTF8_FRAGMENT_def NN_SWS_UTF8_INVALID_def lead_ok_def split: option.splits)

lemma code_point_range:
  "nn_utf8_code_point bs \<in> {NN_SWS_UTF8_INVALID, NN_SWS_UTF8_FRAGMENT, 1, 2, 3, 4}"
  by (auto simp: code_point_lead lead_ok_def split: option.splits list.splits)

text \<open>The validator accepts \<open>n\<close> bytes exactly if they are the encoding of a scalar value.\<close>

lemma code_point_iff:
  assumes "0 < n"
  shows "nn_utf8_code_point bs = int n \<longleftrightarrow> (\<exists>c. scalar_value c \<and> n = length (utf8_encode c) \<and> take n bs = utf8_encode c)"
proof
  assume "nn_utf8_code_point bs = int n"
  then have ok: "seq_ok n (map unat bs)" using code_point_accepts [OF assms] by simp
  then obtain c where "is_seq (take n (map unat bs)) c" using seq_ok_is_seq by blast
  then have c: "scalar_value c" "utf8_nats c = map unat (take n bs)" using is_seq_encodes by (simp_all add: take_map)
  then have "take n bs = utf8_encode c" by (simp add: utf8_encode_eq)
  moreover have "n \<le> length bs" using ok by (simp add: seq_ok_def)
  ultimately show "\<exists>c. scalar_value c \<and> n = length (utf8_encode c) \<and> take n bs = utf8_encode c"
    using c(1) by (metis length_take min.absorb2)
next
  assume "\<exists>c. scalar_value c \<and> n = length (utf8_encode c) \<and> take n bs = utf8_encode c"
  then obtain c where c: "scalar_value c" "n = length (utf8_encode c)" "take n bs = utf8_encode c" by blast
  then have "map unat bs = utf8_nats c @ map unat (drop n bs)" "n = length (utf8_nats c)"
    by (metis append_take_drop_id map_append unat_utf8_encode) (use c in \<open>simp add: utf8_encode_def\<close>)
  with is_seq_seq_ok [OF encodes_is_seq [OF c(1)], of "map unat (drop n bs)"] show "nn_utf8_code_point bs = int n"
    using code_point_accepts [OF assms] by simp
qed

text \<open>What it calls invalid is no beginning of an encoding.\<close>

lemma code_point_invalid:
  assumes "nn_utf8_code_point bs = NN_SWS_UTF8_INVALID" "scalar_value c"
  shows "take (length (utf8_encode c)) (bs @ r) \<noteq> utf8_encode c"
proof
  assume t: "take (length (utf8_encode c)) (bs @ r) = utf8_encode c"
  let ?n = "length (utf8_encode c)"
  have n0: "0 < ?n" using utf8_encode_nonempty by simp
  with t assms(2) have "nn_utf8_code_point (bs @ r) = int ?n" using code_point_iff [OF n0] by blast
  then have ok: "seq_ok ?n (map unat bs @ map unat r)" using code_point_accepts [OF n0] by simp
  have ne: "bs \<noteq> []" using assms(1) by (auto simp: code_point_lead NN_SWS_UTF8_INVALID_def NN_SWS_UTF8_FRAGMENT_def)
  then obtain a q where bs: "bs = a # q" by (cases bs) auto
  have "lead_ok (map unat bs) = Some ?n"
    using ok by (cases q) (auto simp: seq_ok_def lead_ok_def bs split: if_splits list.splits)
  moreover have "length bs < ?n \<or> (\<forall>b \<in> set (take (?n - 1) (tl (map unat bs))). trailing b)"
    using ok by (auto simp: seq_ok_def bs)
  ultimately show False using assms(1) ne
    by (auto simp: code_point_lead NN_SWS_UTF8_INVALID_def NN_SWS_UTF8_FRAGMENT_def split: if_splits)
qed

lemma code_point_fragment: "nn_utf8_code_point bs = NN_SWS_UTF8_FRAGMENT \<Longrightarrow> length bs < 4"
  by (auto simp: code_point_lead lead_ok_def NN_SWS_UTF8_INVALID_def NN_SWS_UTF8_FRAGMENT_def
      split: option.splits if_splits list.splits)

section \<open>Whole texts\<close>

lemma utf8_text_Nil [simp]: "utf8_text []"
  by (auto simp: utf8_text_def intro: exI [of _ "[]"])

lemma utf8_text_cons:
  assumes "nn_utf8_code_point bs = int n" "0 < n"
  shows "utf8_text bs \<longleftrightarrow> utf8_text (drop n bs)"
proof -
  obtain c where c: "scalar_value c" "n = length (utf8_encode c)" "take n bs = utf8_encode c"
    using assms code_point_iff by blast
  then have bs: "bs = utf8_encode c @ drop n bs" by (metis append_take_drop_id)
  show ?thesis
  proof
    assume "utf8_text (drop n bs)"
    then obtain cs where "\<forall>c \<in> set cs. scalar_value c" "drop n bs = concat (map utf8_encode cs)" by (auto simp: utf8_text_def)
    with c(1) bs show "utf8_text bs" unfolding utf8_text_def by (intro exI [of _ "c # cs"]) simp
  next
    assume "utf8_text bs"
    then obtain cs where cs: "\<forall>c \<in> set cs. scalar_value c" "bs = concat (map utf8_encode cs)" by (auto simp: utf8_text_def)
    have "bs \<noteq> []" using bs utf8_encode_nonempty [of c] by (metis append_is_Nil_conv)
    then obtain d ds where ds: "cs = d # ds" using cs(2) by (cases cs) auto
    have d0: "0 < length (utf8_encode d)" using utf8_encode_nonempty by simp
    have "take (length (utf8_encode d)) bs = utf8_encode d" using cs(2) ds by simp
    then have "nn_utf8_code_point bs = int (length (utf8_encode d))"
      using code_point_iff [OF d0, of bs] cs(1) ds by auto
    with assms(1) have "n = length (utf8_encode d)" by simp
    then have "drop n bs = concat (map utf8_encode ds)" using cs(2) ds by simp
    with cs(1) ds show "utf8_text (drop n bs)" unfolding utf8_text_def by (intro exI [of _ ds]) simp
  qed
qed

lemma utf8_text_bad:
  assumes "nn_utf8_code_point bs < 0" "bs \<noteq> []"
  shows "\<not> utf8_text bs"
proof
  assume "utf8_text bs"
  then obtain cs where cs: "\<forall>c \<in> set cs. scalar_value c" "bs = concat (map utf8_encode cs)" by (auto simp: utf8_text_def)
  with assms(2) obtain d ds where ds: "cs = d # ds" by (cases cs) auto
  have d0: "0 < length (utf8_encode d)" using utf8_encode_nonempty by simp
  have "take (length (utf8_encode d)) bs = utf8_encode d" using cs(2) ds by simp
  then have "nn_utf8_code_point bs = int (length (utf8_encode d))"
    using code_point_iff [OF d0, of bs] cs(1) ds by auto
  with assms(1) show False by simp
qed

end
