(* ===== verification/NN_Random.thy ===== *)
theory NN_Random
  imports Getd_Prelude
begin

text \<open>
  \<open>utils/random.c\<close>: a linear congruential generator of 64 bits. The state after
  \<open>nn_random_seed\<close> depends on the process and the clock and is a parameter.
\<close>

function nn_random_generate :: "u64 \<Rightarrow> nat \<Rightarrow> byte list \<times> u64" where
  "nn_random_generate random_state len = (
     let random_state = random_state * 1103515245 + 12345;
         bytes = le_bytes 8 (unat random_state) in
     if len \<le> 8 then (take len bytes, random_state)
     else (let (rest, random_state) = nn_random_generate random_state (len - 8) in (bytes @ rest, random_state)))"
  by pat_completeness auto
termination
  by (relation "measure snd") auto

declare nn_random_generate.simps [simp del]

lemma length_random [simp]: "length (fst (nn_random_generate r len)) = len"
proof (induction r len rule: nn_random_generate.induct)
  case (1 r len)
  show ?case
  proof (cases "len \<le> 8")
    case False
    from 1 [OF refl refl False] False show ?thesis
      by (subst nn_random_generate.simps) (simp add: Let_def case_prod_beta)
  qed (subst nn_random_generate.simps, simp add: Let_def)
qed

lemma random_bytes: "len \<le> 8 \<Longrightarrow> nn_random_generate r len =
    (take len (le_bytes 8 (unat (r * 1103515245 + 12345))), r * 1103515245 + 12345)"
  by (subst nn_random_generate.simps) (simp add: Let_def)

end
