(* ===== verification/NN_Sws.thy ===== *)
theory NN_Sws
  imports NN_Utf8 NN_Random NN_Pipe NN_Chunkref
begin

text \<open>
  A WebSocket session, \<open>transports/ws/sws.c\<close>: the framing of outgoing messages, and the state machine
  that takes incoming frames apart, puts fragments together and closes the connection on what
  RFC 6455 forbids.

  The session sees the socket of the operating system as \<open>usock\<close>: \<open>nn_usock_recv\<close> asks for a number
  of bytes at some place of the session, \<open>nn_usock_send\<close> hands bytes over. \<open>usock_fill\<close> is the socket
  putting the bytes that arrive where they were asked for; the event \<open>NN_USOCK_RECEIVED\<close> follows.
  What the session tells its owner and the handshake is recorded in \<open>sws_events\<close>. \<open>None\<close> is a failed
  assertion, an event a state does not expect, or an access outside an array.
\<close>

unbundle bit_operations_syntax

section \<open>Constants\<close>

datatype sws_mode = NN_WS_CLIENT | NN_WS_SERVER

datatype sws_state =
  SWS_IDLE | SWS_HANDSHAKE | SWS_STOPPING_HANDSHAKE | SWS_ACTIVE | SWS_CLOSING_CONNECTION
| SWS_BROKEN_CONNECTION | SWS_DONE | SWS_STOPPING

datatype sws_instate =
  SWS_IN_NONE | RECV_HDR | RECV_HDREXT | RECV_PAYLOAD | RECVD_CHUNKED | RECVD_CONTROL | SWS_FAILING | SWS_CLOSED

datatype sws_outstate = SWS_OUT_NONE | SWS_OUT_IDLE | SWS_OUT_SENDING

definition NN_SWS_FRAME_SIZE_INITIAL :: nat where "NN_SWS_FRAME_SIZE_INITIAL = 2"
definition NN_SWS_FRAME_SIZE_PAYLOAD_0 :: nat where "NN_SWS_FRAME_SIZE_PAYLOAD_0 = 0"
definition NN_SWS_FRAME_SIZE_PAYLOAD_16 :: nat where "NN_SWS_FRAME_SIZE_PAYLOAD_16 = 2"
definition NN_SWS_FRAME_SIZE_PAYLOAD_63 :: nat where "NN_SWS_FRAME_SIZE_PAYLOAD_63 = 8"
definition NN_SWS_FRAME_SIZE_MASK :: nat where "NN_SWS_FRAME_SIZE_MASK = 4"
definition NN_SWS_FRAME_BITMASK_FIN :: byte where "NN_SWS_FRAME_BITMASK_FIN = 0x80"
definition NN_SWS_FRAME_BITMASK_RSV1 :: byte where "NN_SWS_FRAME_BITMASK_RSV1 = 0x40"
definition NN_SWS_FRAME_BITMASK_RSV2 :: byte where "NN_SWS_FRAME_BITMASK_RSV2 = 0x20"
definition NN_SWS_FRAME_BITMASK_RSV3 :: byte where "NN_SWS_FRAME_BITMASK_RSV3 = 0x10"
definition NN_SWS_FRAME_BITMASK_OPCODE :: byte where "NN_SWS_FRAME_BITMASK_OPCODE = 0x0F"
definition NN_SWS_FRAME_BITMASK_MASKED :: byte where "NN_SWS_FRAME_BITMASK_MASKED = 0x80"
definition NN_SWS_FRAME_BITMASK_NOT_MASKED :: byte where "NN_SWS_FRAME_BITMASK_NOT_MASKED = 0x00"
definition NN_SWS_FRAME_BITMASK_LENGTH :: byte where "NN_SWS_FRAME_BITMASK_LENGTH = 0x7F"
definition NN_SWS_UTF8_MAX_CODEPOINT_LEN :: nat where "NN_SWS_UTF8_MAX_CODEPOINT_LEN = 4"
definition NN_SWS_FRAME_MAX_HDR_LEN :: nat where "NN_SWS_FRAME_MAX_HDR_LEN = 14"
definition NN_SWS_PAYLOAD_MAX_LENGTH :: nat where "NN_SWS_PAYLOAD_MAX_LENGTH = 125"
definition NN_SWS_PAYLOAD_MAX_LENGTH_16 :: nat where "NN_SWS_PAYLOAD_MAX_LENGTH_16 = 65535"
definition NN_SWS_PAYLOAD_FRAME_16 :: byte where "NN_SWS_PAYLOAD_FRAME_16 = 0x7E"
definition NN_SWS_PAYLOAD_FRAME_63 :: byte where "NN_SWS_PAYLOAD_FRAME_63 = 0x7F"
definition NN_SWS_CLOSE_CODE_LEN :: nat where "NN_SWS_CLOSE_CODE_LEN = 2"

definition NN_WS_OPCODE_FRAGMENT :: byte where "NN_WS_OPCODE_FRAGMENT = 0x00"
definition NN_WS_OPCODE_TEXT :: byte where "NN_WS_OPCODE_TEXT = 0x01"
definition NN_WS_OPCODE_BINARY :: byte where "NN_WS_OPCODE_BINARY = 0x02"
definition NN_WS_OPCODE_CLOSE :: byte where "NN_WS_OPCODE_CLOSE = 0x08"
definition NN_WS_OPCODE_PING :: byte where "NN_WS_OPCODE_PING = 0x09"
definition NN_WS_OPCODE_PONG :: byte where "NN_WS_OPCODE_PONG = 0x0A"

definition NN_SWS_CLOSE_NORMAL :: u16 where "NN_SWS_CLOSE_NORMAL = 1000"
definition NN_SWS_CLOSE_GOING_AWAY :: u16 where "NN_SWS_CLOSE_GOING_AWAY = 1001"
definition NN_SWS_CLOSE_ERR_PROTO :: u16 where "NN_SWS_CLOSE_ERR_PROTO = 1002"
definition NN_SWS_CLOSE_ERR_WUT :: u16 where "NN_SWS_CLOSE_ERR_WUT = 1003"
definition NN_SWS_CLOSE_ERR_INVALID_FRAME :: u16 where "NN_SWS_CLOSE_ERR_INVALID_FRAME = 1007"
definition NN_SWS_CLOSE_ERR_POLICY :: u16 where "NN_SWS_CLOSE_ERR_POLICY = 1008"
definition NN_SWS_CLOSE_ERR_TOOBIG :: u16 where "NN_SWS_CLOSE_ERR_TOOBIG = 1009"
definition NN_SWS_CLOSE_ERR_EXTENSION :: u16 where "NN_SWS_CLOSE_ERR_EXTENSION = 1010"
definition NN_SWS_CLOSE_ERR_SERVER :: u16 where "NN_SWS_CLOSE_ERR_SERVER = 1011"

lemmas frame_sizes =
  NN_SWS_FRAME_SIZE_INITIAL_def NN_SWS_FRAME_SIZE_PAYLOAD_0_def NN_SWS_FRAME_SIZE_PAYLOAD_16_def
  NN_SWS_FRAME_SIZE_PAYLOAD_63_def NN_SWS_FRAME_SIZE_MASK_def NN_SWS_UTF8_MAX_CODEPOINT_LEN_def
  NN_SWS_FRAME_MAX_HDR_LEN_def NN_SWS_PAYLOAD_MAX_LENGTH_def NN_SWS_PAYLOAD_MAX_LENGTH_16_def
  NN_SWS_CLOSE_CODE_LEN_def
lemmas frame_bits =
  NN_SWS_FRAME_BITMASK_FIN_def NN_SWS_FRAME_BITMASK_RSV1_def NN_SWS_FRAME_BITMASK_RSV2_def
  NN_SWS_FRAME_BITMASK_RSV3_def NN_SWS_FRAME_BITMASK_OPCODE_def NN_SWS_FRAME_BITMASK_MASKED_def
  NN_SWS_FRAME_BITMASK_NOT_MASKED_def NN_SWS_FRAME_BITMASK_LENGTH_def NN_SWS_PAYLOAD_FRAME_16_def
  NN_SWS_PAYLOAD_FRAME_63_def
lemmas ws_opcodes =
  NN_WS_OPCODE_FRAGMENT_def NN_WS_OPCODE_TEXT_def NN_WS_OPCODE_BINARY_def NN_WS_OPCODE_CLOSE_def
  NN_WS_OPCODE_PING_def NN_WS_OPCODE_PONG_def

section \<open>The session\<close>

datatype sws_buf = INMSG_CONTROL | MSG_CHUNK
datatype sws_target = INHDR nat | BUF sws_buf

datatype sws_event =
  NN_WS_HANDSHAKE_START | NN_WS_HANDSHAKE_STOP | SOCK_RM | SWS_RAISE int | SWS_PIPE pipe_event
| SWAP_OWNER | FSM_STOPPED

definition NN_SWS_RETURN_ERROR :: int where "NN_SWS_RETURN_ERROR = 1"
definition NN_SWS_RETURN_CLOSE_HANDSHAKE :: int where "NN_SWS_RETURN_CLOSE_HANDSHAKE = 2"

text \<open>
  The array of chunks holds the bytes of each chunk; the chunk being received is the last.
  \<open>sws_mask\<close> is the offset of the mask in \<open>inhdr\<close>. The fields from \<open>sws_receiving\<close> on are not in the
  structure: what the socket has been asked for and given, the limit \<open>NN_RCVMAXSIZE\<close>, which sizes
  \<open>malloc\<close> can give at the moment, the state of the random number generator, and the events.
\<close>

record nn_sws =
  sws_st :: sws_state
  sws_msg_type :: byte
  sws_mode :: sws_mode
  sws_pipebase :: nn_pipebase
  instate :: sws_instate
  inhdr :: "byte list"
  sws_opcode :: byte
  payload_ctl :: byte
  masked :: bool
  sws_mask :: "nat option"
  ext_hdr_len :: nat
  is_final_frame :: bool
  is_control_frame :: bool
  continuing :: bool
  utf8_code_pt_fragment :: "byte list"
  utf8_code_pt_fragment_len :: nat
  pings_received :: u32
  pongs_received :: u32
  inmsg_array :: "byte list list"
  inmsg_current_chunk_buf :: "sws_buf option"
  inmsg_current_chunk_len :: u64
  inmsg_total_size :: u64
  inmsg_chunks :: u32
  inmsg_hdr :: byte
  inmsg_control :: "byte list"
  fail_msg :: "byte list"
  fail_msg_len :: nat
  outstate :: sws_outstate
  outhdr :: "byte list"
  outmsg :: msg
  sws_receiving :: "(sws_target \<times> nat) option"
  sws_sent :: "byte list list"
  sws_rcvmaxsize :: int
  sws_malloc :: "u64 \<Rightarrow> bool"
  sws_random :: u64
  sws_events :: "sws_event list"

definition raise_event :: "nn_sws \<Rightarrow> sws_event \<Rightarrow> nn_sws" where
  "raise_event self e = self\<lparr>sws_events := sws_events self @ [e]\<rparr>"

definition nn_usock_recv :: "nn_sws \<Rightarrow> sws_target \<Rightarrow> nat \<Rightarrow> nn_sws" where
  "nn_usock_recv self buf len = self\<lparr>sws_receiving := Some (buf, len)\<rparr>"

definition nn_usock_send :: "nn_sws \<Rightarrow> byte list \<Rightarrow> nn_sws" where
  "nn_usock_send self bs = self\<lparr>sws_sent := sws_sent self @ [bs]\<rparr>"

text \<open>The socket has received what it was asked for.\<close>

definition usock_fill :: "nn_sws \<Rightarrow> byte list \<Rightarrow> nn_sws option" where
  "usock_fill self bs = do {
     (buf, len) \<leftarrow> sws_receiving self;
     if length bs \<noteq> len then None
     else (let self = self\<lparr>sws_receiving := None\<rparr> in
       case buf of
         INHDR off \<Rightarrow> map_option (\<lambda>h. self\<lparr>inhdr := h\<rparr>) (poke (inhdr self) off bs)
       | BUF INMSG_CONTROL \<Rightarrow> map_option (\<lambda>c. self\<lparr>inmsg_control := c\<rparr>) (poke (inmsg_control self) 0 bs)
       | BUF MSG_CHUNK \<Rightarrow>
           if inmsg_array self = [] then None
           else map_option (\<lambda>c. self\<lparr>inmsg_array := butlast (inmsg_array self) @ [c]\<rparr>)
             (poke (last (inmsg_array self)) 0 bs)) }"

definition sws_pipe_received :: "nn_sws \<Rightarrow> nn_sws option" where
  "sws_pipe_received self = do {
     (p, ev) \<leftarrow> nn_pipebase_received (sws_pipebase self);
     Some (self\<lparr>sws_pipebase := p, sws_events := sws_events self @ map SWS_PIPE ev\<rparr>) }"

definition sws_pipe_sent :: "nn_sws \<Rightarrow> nn_sws option" where
  "sws_pipe_sent self = do {
     (p, ev) \<leftarrow> nn_pipebase_sent (sws_pipebase self);
     Some (self\<lparr>sws_pipebase := p, sws_events := sws_events self @ map SWS_PIPE ev\<rparr>) }"

definition sws_pipe_stop :: "nn_sws \<Rightarrow> nn_sws" where
  "sws_pipe_stop self = (
     let (rm, p) = nn_pipebase_stop (sws_pipebase self) in
     self\<lparr>sws_pipebase := p, sws_events := sws_events self @ (if rm then [SOCK_RM] else [])\<rparr>)"

text \<open>\<open>nn_sws_init\<close> sets some fields; the others keep what the memory holds.\<close>

definition nn_sws_init :: "int \<Rightarrow> int \<Rightarrow> nn_sws \<Rightarrow> nn_sws" where
  "nn_sws_init sndprio rcvprio self = self\<lparr>sws_st := SWS_IDLE, sws_pipebase := nn_pipebase_init sndprio rcvprio,
     instate := SWS_IN_NONE, inmsg_array := [], outstate := SWS_OUT_NONE, outmsg := plain_msg [],
     continuing := False, utf8_code_pt_fragment := replicate NN_SWS_UTF8_MAX_CODEPOINT_LEN 0,
     utf8_code_pt_fragment_len := 0, pings_received := 0, pongs_received := 0\<rparr>"

definition nn_sws_term :: "nn_sws \<Rightarrow> nn_sws option" where
  "nn_sws_term self = (
     if sws_st self \<noteq> SWS_IDLE then None
     else do { _ \<leftarrow> nn_pipebase_term (sws_pipebase self); Some (self\<lparr>inmsg_array := []\<rparr>) })"

text \<open>A list item of two pointers and a chunk reference of 32 bytes.\<close>

definition sizeof_msg_chunk :: u64 where "sizeof_msg_chunk = 48"

definition nn_msg_chunk_new :: "nn_sws \<Rightarrow> u64 \<Rightarrow> nn_sws option" where
  "nn_msg_chunk_new self sz = (
     if \<not> sws_malloc self sizeof_msg_chunk then None
     else if \<not> chunkref_fits (sws_malloc self) sz then None
     else Some (self\<lparr>inmsg_array := inmsg_array self @ [replicate (unat sz) 0]\<rparr>))"

section \<open>Masking\<close>

fun mask_bytes :: "byte list \<Rightarrow> nat \<Rightarrow> byte list \<Rightarrow> byte list" where
  "mask_bytes key i [] = []"
| "mask_bytes key i (b # bs) = (b XOR key ! (i mod length key)) # mask_bytes key (Suc i) bs"

text \<open>
  The loop variable is an \<open>unsigned\<close>: the loop over \<open>2 ^ 32\<close> bytes or more does not end. The result
  is the payload and the position in the mask after it.
\<close>

definition nn_sws_mask_payload :: "byte list \<Rightarrow> byte list \<Rightarrow> nat option \<Rightarrow> (byte list \<times> nat) option" where
  "nn_sws_mask_payload payload key mask_start_pos = (
     if length payload \<ge> 2 ^ 32 \<or> key = [] then None
     else (case mask_start_pos of
         Some start \<Rightarrow> Some (mask_bytes key start payload, (length payload + start) mod length key)
       | None \<Rightarrow> Some (mask_bytes key 0 payload, 0)))"

section \<open>Closing the connection\<close>

definition chars :: "string \<Rightarrow> byte list" where
  "chars s = map of_char s"

text \<open>
  The close frame of \<open>nn_sws_fail_conn\<close>, written into \<open>fail_msg\<close>: the memory, how much of it is the
  frame, and the state of the random number generator.
\<close>

definition build_close_frame ::
  "sws_mode \<Rightarrow> u64 \<Rightarrow> byte list \<Rightarrow> u16 \<Rightarrow> byte list \<Rightarrow> (byte list \<times> nat \<times> u64) option" where
  "build_close_frame mode random m code reason = (
     let reason_len = length reason;
         payload_len = reason_len + NN_SWS_CLOSE_CODE_LEN in
     if payload_len > NN_SWS_PAYLOAD_MAX_LENGTH then None
     else do {
       m \<leftarrow> poke m 0 [NN_SWS_FRAME_BITMASK_FIN OR NN_WS_OPCODE_CLOSE];
       m \<leftarrow> poke m 1 [word_of_nat payload_len];
       let fail_msg_len = NN_SWS_FRAME_SIZE_INITIAL;
       case mode of
         NN_WS_SERVER \<Rightarrow> do {
           m \<leftarrow> poke m 1 [m ! 1 OR NN_SWS_FRAME_BITMASK_NOT_MASKED];
           m \<leftarrow> nn_puts m fail_msg_len code;
           m \<leftarrow> poke m (fail_msg_len + NN_SWS_CLOSE_CODE_LEN) reason;
           Some (m, fail_msg_len + NN_SWS_CLOSE_CODE_LEN + reason_len, random) }
       | NN_WS_CLIENT \<Rightarrow> do {
           m \<leftarrow> poke m 1 [m ! 1 OR NN_SWS_FRAME_BITMASK_MASKED];
           let (rand_mask, random) = nn_random_generate random NN_SWS_FRAME_SIZE_MASK;
           m \<leftarrow> poke m NN_SWS_FRAME_SIZE_INITIAL rand_mask;
           let fail_msg_len = fail_msg_len + NN_SWS_FRAME_SIZE_MASK;
           m \<leftarrow> nn_puts m fail_msg_len code;
           m \<leftarrow> poke m (fail_msg_len + NN_SWS_CLOSE_CODE_LEN) reason;
           (payload, _) \<leftarrow> nn_sws_mask_payload (slice fail_msg_len payload_len m) rand_mask None;
           m \<leftarrow> poke m fail_msg_len payload;
           Some (m, fail_msg_len + NN_SWS_CLOSE_CODE_LEN + reason_len, random) } })"

definition nn_sws_fail_conn :: "nn_sws \<Rightarrow> u16 \<Rightarrow> string \<Rightarrow> nn_sws option" where
  "nn_sws_fail_conn self code reason = (
     if sws_st self \<noteq> SWS_ACTIVE then None
     else do {
       let self = (sws_pipe_stop (self\<lparr>instate := SWS_CLOSED\<rparr>))\<lparr>inmsg_array := []\<rparr>;
       (m, len, random) \<leftarrow> build_close_frame (sws_mode self) (sws_random self) (fail_msg self) code (chars reason);
       let self = self\<lparr>fail_msg := m, fail_msg_len := len, sws_random := random\<rparr>;
       if outstate self = SWS_OUT_IDLE
       then Some ((nn_usock_send self (take len m))\<lparr>outstate := SWS_OUT_SENDING, sws_st := SWS_CLOSING_CONNECTION\<rparr>)
       else Some (raise_event (self\<lparr>sws_st := SWS_DONE\<rparr>) (SWS_RAISE NN_SWS_RETURN_CLOSE_HANDSHAKE)) })"

definition nn_sws_recv_hdr :: "nn_sws \<Rightarrow> nn_sws option" where
  "nn_sws_recv_hdr self = (
     if \<not> continuing self \<and> inmsg_array self \<noteq> [] then None
     else (
       let self = (if \<not> continuing self
             then self\<lparr>inmsg_current_chunk_buf := None, inmsg_chunks := 0, inmsg_current_chunk_len := 0, inmsg_total_size := 0\<rparr>
             else self);
           self = self\<lparr>inmsg_control := replicate NN_SWS_PAYLOAD_MAX_LENGTH 0,
             inhdr := replicate NN_SWS_FRAME_MAX_HDR_LEN 0, instate := RECV_HDR\<rparr> in
       Some (nn_usock_recv self (INHDR 0) NN_SWS_FRAME_SIZE_INITIAL)))"

section \<open>Sending a message\<close>

text \<open>
  Ancillary data, \<open>nn.h\<close> and \<open>core/global.c\<close>: a header is a length, a level and a type of 8, 4 and 4
  bytes; positions are offsets in the data.
\<close>

definition NN_CMSG_ALIGN :: "u64 \<Rightarrow> u64" where "NN_CMSG_ALIGN len = (len + 8 - 1) AND NOT (8 - 1)"
definition NN_CMSG_SPACE :: "u64 \<Rightarrow> u64" where "NN_CMSG_SPACE len = NN_CMSG_ALIGN len + NN_CMSG_ALIGN 16"
definition NN_WS :: nat where "NN_WS = 2 ^ 32 - 4"
definition NN_WS_MSG_TYPE :: nat where "NN_WS_MSG_TYPE = 1"

definition cmsg_len :: "byte list \<Rightarrow> nat \<Rightarrow> u64 option" where
  "cmsg_len data p = (if p + 8 \<le> length data then Some (word_of_nat (le_nat (slice p 8 data))) else None)"

text \<open>The inner \<open>None\<close> is the end of the list.\<close>

definition nn_cmsg_nxthdr :: "byte list \<Rightarrow> nat option \<Rightarrow> nat option option" where
  "nn_cmsg_nxthdr data cmsg = (
     let sz = word_of_nat (length data) in
     if sz < NN_CMSG_SPACE 0 then Some None
     else do {
       headsz \<leftarrow> (case cmsg of None \<Rightarrow> Some 0
         | Some p \<Rightarrow> map_option (\<lambda>l. word_of_nat p + NN_CMSG_ALIGN l) (cmsg_len data p));
       if headsz + NN_CMSG_SPACE 0 > sz then Some None
       else do {
         l \<leftarrow> cmsg_len data (unat headsz);
         if headsz + NN_CMSG_ALIGN l > sz then Some None else Some (Some (unat headsz)) } })"

partial_function (option) find_msg_type :: "byte list \<Rightarrow> nat option \<Rightarrow> nat option option" where
  "find_msg_type data cmsg = (case cmsg of None \<Rightarrow> Some None
     | Some p \<Rightarrow>
         if le_nat (slice (p + 8) 4 data) = NN_WS \<and> le_nat (slice (p + 12) 4 data) = NN_WS_MSG_TYPE
         then Some (Some p)
         else do { nxt \<leftarrow> nn_cmsg_nxthdr data (Some p); find_msg_type data nxt })"

definition out_opcode :: "nn_sws \<Rightarrow> byte option" where
  "out_opcode sws = (
     let hdrs = m_hdrs (outmsg sws) in
     if length hdrs > 0 then do {
       cmsg \<leftarrow> nn_cmsg_nxthdr hdrs None;
       cmsg \<leftarrow> find_msg_type hdrs cmsg;
       case cmsg of Some p \<Rightarrow> peek hdrs (p + 16) | None \<Rightarrow> Some (sws_msg_type sws) }
     else Some (sws_msg_type sws))"

text \<open>The length field, its extension behind the first two bytes, and the length of the header so far.\<close>

definition out_length :: "byte list \<Rightarrow> nat \<Rightarrow> (byte list \<times> nat) option" where
  "out_length hdr nn_msg_size = (
     let hdr_len = NN_SWS_FRAME_SIZE_INITIAL in
     if nn_msg_size \<le> NN_SWS_PAYLOAD_MAX_LENGTH then do {
       hdr \<leftarrow> poke hdr 1 [hdr ! 1 OR word_of_nat nn_msg_size];
       Some (hdr, hdr_len + NN_SWS_FRAME_SIZE_PAYLOAD_0) }
     else if nn_msg_size \<le> NN_SWS_PAYLOAD_MAX_LENGTH_16 then do {
       hdr \<leftarrow> poke hdr 1 [hdr ! 1 OR NN_SWS_PAYLOAD_FRAME_16];
       hdr \<leftarrow> nn_puts hdr hdr_len (word_of_nat nn_msg_size);
       Some (hdr, hdr_len + NN_SWS_FRAME_SIZE_PAYLOAD_16) }
     else do {
       hdr \<leftarrow> poke hdr 1 [hdr ! 1 OR NN_SWS_PAYLOAD_FRAME_63];
       hdr \<leftarrow> nn_putll hdr hdr_len (word_of_nat nn_msg_size);
       Some (hdr, hdr_len + NN_SWS_FRAME_SIZE_PAYLOAD_63) })"

definition nn_sws_send :: "nn_sws \<Rightarrow> msg \<Rightarrow> (int \<times> nn_sws) option" where
  "nn_sws_send sws m = (
     if sws_st sws \<noteq> SWS_ACTIVE \<or> outstate sws \<noteq> SWS_OUT_IDLE then None
     else do {
       let sws = sws\<lparr>outmsg := m\<rparr>;
       let hdr = replicate NN_SWS_FRAME_MAX_HDR_LEN 0;
       op \<leftarrow> out_opcode sws;
       hdr \<leftarrow> poke hdr 0 [op OR NN_SWS_FRAME_BITMASK_FIN];
       let nn_msg_size = length (m_sphdr (outmsg sws)) + length (m_body (outmsg sws));
       (hdr, hdr_len) \<leftarrow> out_length hdr nn_msg_size;
       (hdr, hdr_len, sws) \<leftarrow> (case sws_mode sws of
           NN_WS_CLIENT \<Rightarrow> do {
             hdr \<leftarrow> poke hdr 1 [hdr ! 1 OR NN_SWS_FRAME_BITMASK_MASKED];
             let (rand_mask, random) = nn_random_generate (sws_random sws) NN_SWS_FRAME_SIZE_MASK;
             hdr \<leftarrow> poke hdr hdr_len rand_mask;
             (sphdr, mask_pos) \<leftarrow> nn_sws_mask_payload (m_sphdr (outmsg sws)) rand_mask (Some 0);
             (body, mask_pos) \<leftarrow> nn_sws_mask_payload (m_body (outmsg sws)) rand_mask (Some mask_pos);
             Some (hdr, hdr_len + NN_SWS_FRAME_SIZE_MASK,
               sws\<lparr>outmsg := (outmsg sws)\<lparr>m_sphdr := sphdr, m_body := body\<rparr>, sws_random := random\<rparr>) }
         | NN_WS_SERVER \<Rightarrow> do {
             hdr \<leftarrow> poke hdr 1 [hdr ! 1 OR NN_SWS_FRAME_BITMASK_NOT_MASKED];
             Some (hdr, hdr_len, sws) });
       let sws = sws\<lparr>outhdr := hdr\<rparr>;
       let sws = nn_usock_send sws (take hdr_len hdr @ m_sphdr (outmsg sws) @ m_body (outmsg sws));
       Some (0, sws\<lparr>outstate := SWS_OUT_SENDING\<rparr>) })"

section \<open>Delivering a message\<close>

text \<open>The ancillary data of a delivered message: one header with the opcode, in memory that was \<open>fresh\<close>.\<close>

definition opcode_cmsg :: "byte list \<Rightarrow> byte \<Rightarrow> byte list option" where
  "opcode_cmsg fresh opcode_hdr = (
     let cmsgsz = NN_CMSG_SPACE 1 in
     if length fresh \<noteq> unat cmsgsz then None
     else do {
       m \<leftarrow> poke fresh 8 (le_bytes 4 NN_WS);
       m \<leftarrow> poke m 12 (le_bytes 4 NN_WS_MSG_TYPE);
       m \<leftarrow> poke m 0 (le_bytes 8 (unat cmsgsz));
       poke m 16 [opcode_hdr] })"

definition nn_sws_recv :: "byte list \<Rightarrow> nn_sws \<Rightarrow> (int \<times> msg \<times> nn_sws) option" where
  "nn_sws_recv fresh sws = (
     if sws_st sws \<noteq> SWS_ACTIVE then None
     else case instate sws of
       RECVD_CHUNKED \<Rightarrow> (
         let opcode_hdr = inmsg_hdr sws in
         if \<not> is_final_frame sws \<or> opcode_hdr AND NN_SWS_FRAME_BITMASK_FIN = 0 then None
         else (
           let opcode_hdr = opcode_hdr AND NOT NN_SWS_FRAME_BITMASK_FIN;
               op = opcode_hdr AND NN_SWS_FRAME_BITMASK_OPCODE in
           if op \<noteq> NN_WS_OPCODE_BINARY \<and> op \<noteq> NN_WS_OPCODE_TEXT then None
           else if \<not> chunkref_fits (sws_malloc sws) (inmsg_total_size sws) then None
           else (
             let body = concat (inmsg_array sws) in
             if length body \<noteq> unat (inmsg_total_size sws) then None
             else do {
               sws \<leftarrow> nn_sws_recv_hdr (sws\<lparr>inmsg_array := [], continuing := False\<rparr>);
               hdrs \<leftarrow> opcode_cmsg fresh opcode_hdr;
               Some (0, \<lparr>m_sphdr = [], m_hdrs = hdrs, m_body = body\<rparr>, sws) })))
     | RECVD_CONTROL \<Rightarrow> do {
         opcode_hdr \<leftarrow> peek (inhdr sws) 0;
         if \<not> is_final_frame sws \<or> opcode_hdr AND NN_SWS_FRAME_BITMASK_FIN = 0 then None
         else (
           let opcode_hdr = opcode_hdr AND NOT NN_SWS_FRAME_BITMASK_FIN;
               op = opcode_hdr AND NN_SWS_FRAME_BITMASK_OPCODE in
           if op \<noteq> NN_WS_OPCODE_PING \<and> op \<noteq> NN_WS_OPCODE_PONG then None
           else if \<not> chunkref_fits (sws_malloc sws) (inmsg_current_chunk_len sws) then None
          else if unat (inmsg_current_chunk_len sws) > length (inmsg_control sws) then None
           else do {
             let body = take (unat (inmsg_current_chunk_len sws)) (inmsg_control sws);
             sws \<leftarrow> nn_sws_recv_hdr sws;
             hdrs \<leftarrow> opcode_cmsg fresh opcode_hdr;
             Some (0, \<lparr>m_sphdr = [], m_hdrs = hdrs, m_body = body\<rparr>, sws) }) }
     | _ \<Rightarrow> None)"

section \<open>The current chunk\<close>

text \<open>The bytes at \<open>inmsg_current_chunk_buf\<close>, and storing them.\<close>

definition chunk_bytes_at :: "nn_sws \<Rightarrow> byte list option" where
  "chunk_bytes_at self = (
     let n = unat (inmsg_current_chunk_len self) in
     case inmsg_current_chunk_buf self of
       None \<Rightarrow> None
     | Some INMSG_CONTROL \<Rightarrow> if n \<le> length (inmsg_control self) then Some (take n (inmsg_control self)) else None
     | Some MSG_CHUNK \<Rightarrow>
         if inmsg_array self = [] \<or> n > length (last (inmsg_array self)) then None
         else Some (take n (last (inmsg_array self))))"

definition store_chunk :: "nn_sws \<Rightarrow> byte list \<Rightarrow> nn_sws option" where
  "store_chunk self bs = (case inmsg_current_chunk_buf self of
       None \<Rightarrow> None
     | Some INMSG_CONTROL \<Rightarrow> map_option (\<lambda>c. self\<lparr>inmsg_control := c\<rparr>) (poke (inmsg_control self) 0 bs)
     | Some MSG_CHUNK \<Rightarrow>
         if inmsg_array self = [] then None
         else map_option (\<lambda>c. self\<lparr>inmsg_array := butlast (inmsg_array self) @ [c]\<rparr>)
           (poke (last (inmsg_array self)) 0 bs))"

section \<open>Validating text\<close>

text \<open>
  The loop that continues a code point cut off at the end of the previous chunk: every branch of
  its body leaves it, so it runs at most once. \<open>Inl\<close> is an early return with the verdict,
  \<open>Inr\<close> the bytes left after a complete code point.
\<close>

definition continue_code_point ::
  "byte list \<Rightarrow> nat \<Rightarrow> byte list \<Rightarrow> (byte list \<times> nat \<times> (int + byte list)) option" where
  "continue_code_point fragment fragment_len pos = (case pos of
       [] \<Rightarrow> Some (fragment, fragment_len, Inr [])
     | b # pos \<Rightarrow> do {
         fragment \<leftarrow> poke fragment fragment_len [b];
         let fragment_len = fragment_len + 1;
         let code_point_len = nn_utf8_code_point (take fragment_len fragment);
         Some (fragment, fragment_len, if code_point_len > 0 then Inr pos else Inl code_point_len) })"

text \<open>The loop over whole code points: what is left of the bytes, and why it stopped there.\<close>

datatype scan_end = All_valid | Invalid_at "byte list" | Fragment_at "byte list"

function scan_code_points :: "byte list \<Rightarrow> scan_end option" where
  "scan_code_points pos = (
     if pos = [] then Some All_valid
     else (
       let code_point_len = nn_utf8_code_point pos in
       if code_point_len > 0 then
         (if length pos < nat code_point_len then None else scan_code_points (drop (nat code_point_len) pos))
       else if code_point_len = NN_SWS_UTF8_INVALID then Some (Invalid_at pos)
       else if length pos < NN_SWS_UTF8_MAX_CODEPOINT_LEN then Some (Fragment_at pos) else None))"
  by pat_completeness auto
termination
  by (relation "measure length") auto

declare scan_code_points.simps [simp del]

definition sws_chunk_done :: "nn_sws \<Rightarrow> nn_sws option" where
  "sws_chunk_done self = (
     if is_final_frame self then sws_pipe_received (self\<lparr>instate := RECVD_CHUNKED\<rparr>) else nn_sws_recv_hdr self)"

definition nn_sws_validate_utf8_chunk :: "nn_sws \<Rightarrow> nn_sws option" where
  "nn_sws_validate_utf8_chunk self = do {
     pos \<leftarrow> chunk_bytes_at self;
     let fragment_len = utf8_code_pt_fragment_len self;
     (self, pos) \<leftarrow> (if fragment_len \<noteq> 0 then
         (if fragment_len \<ge> NN_SWS_UTF8_MAX_CODEPOINT_LEN then None
          else map_option (\<lambda>(f, l, r). (self\<lparr>utf8_code_pt_fragment := f, utf8_code_pt_fragment_len := l\<rparr>, r))
            (continue_code_point (utf8_code_pt_fragment self) fragment_len pos))
       else Some (self, Inr pos));
     case pos of
       Inl verdict \<Rightarrow>
         if verdict = NN_SWS_UTF8_INVALID
         then nn_sws_fail_conn self NN_SWS_CLOSE_ERR_INVALID_FRAME ''Invalid UTF-8 code point split on previous frame.''
         else if is_final_frame self
         then nn_sws_fail_conn self NN_SWS_CLOSE_ERR_INVALID_FRAME ''Truncated UTF-8 payload with invalid code point.''
         else nn_sws_recv_hdr self
     | Inr pos \<Rightarrow>
         if utf8_code_pt_fragment_len self \<ge> NN_SWS_UTF8_MAX_CODEPOINT_LEN then None
         else do {
           result \<leftarrow> scan_code_points pos;
           case result of
             Invalid_at _ \<Rightarrow> nn_sws_fail_conn
               (self\<lparr>utf8_code_pt_fragment_len := 0, utf8_code_pt_fragment := replicate NN_SWS_UTF8_MAX_CODEPOINT_LEN 0\<rparr>)
               NN_SWS_CLOSE_ERR_INVALID_FRAME ''Invalid UTF-8 code point in payload.''
           | Fragment_at rest \<Rightarrow> do {
               fragment \<leftarrow> poke (utf8_code_pt_fragment self) 0 rest;
               let self = self\<lparr>utf8_code_pt_fragment_len := length rest, utf8_code_pt_fragment := fragment\<rparr>;
               if is_final_frame self
               then nn_sws_fail_conn self NN_SWS_CLOSE_ERR_INVALID_FRAME ''Truncated UTF-8 payload with invalid code point.''
               else nn_sws_recv_hdr self }
           | All_valid \<Rightarrow> sws_chunk_done
               (self\<lparr>utf8_code_pt_fragment_len := 0, utf8_code_pt_fragment := replicate NN_SWS_UTF8_MAX_CODEPOINT_LEN 0\<rparr>) } }"

definition nn_sws_acknowledge_close_handshake :: "nn_sws \<Rightarrow> nn_sws option" where
  "nn_sws_acknowledge_close_handshake self = (
     if inmsg_current_chunk_len self = 0 then nn_sws_fail_conn self NN_SWS_CLOSE_NORMAL ''''
     else do {
       buf \<leftarrow> chunk_bytes_at self;
       if length buf < NN_SWS_CLOSE_CODE_LEN then None
       else do {
         result \<leftarrow> scan_code_points (drop NN_SWS_CLOSE_CODE_LEN buf);
         if result \<noteq> All_valid
         then nn_sws_fail_conn self NN_SWS_CLOSE_ERR_PROTO ''Invalid UTF-8 sent as Close Reason.''
         else do {
           close_code \<leftarrow> nn_gets buf 0;
           if close_code \<in> {NN_SWS_CLOSE_NORMAL, NN_SWS_CLOSE_GOING_AWAY, NN_SWS_CLOSE_ERR_PROTO,
               NN_SWS_CLOSE_ERR_WUT, NN_SWS_CLOSE_ERR_INVALID_FRAME, NN_SWS_CLOSE_ERR_POLICY,
               NN_SWS_CLOSE_ERR_TOOBIG, NN_SWS_CLOSE_ERR_EXTENSION, NN_SWS_CLOSE_ERR_SERVER}
             \<or> 3000 \<le> close_code \<and> close_code \<le> 3999 \<or> 4000 \<le> close_code \<and> close_code \<le> 4999
           then nn_sws_fail_conn self close_code ''''
           else nn_sws_fail_conn self NN_SWS_CLOSE_ERR_PROTO ''Unrecognized close code.'' } } })"

section \<open>Incoming frames\<close>

text \<open>
  The chunk a payload goes to: control messages into their own buffer, the others into a new
  chunk of the array, after the check against \<open>NN_RCVMAXSIZE\<close>.
\<close>

definition sws_start_payload :: "nn_sws \<Rightarrow> string \<Rightarrow> nn_sws option" where
  "sws_start_payload sws too_big = do {
     let len = inmsg_current_chunk_len sws;
     if is_control_frame sws
     then Some (nn_usock_recv (sws\<lparr>inmsg_current_chunk_buf := Some INMSG_CONTROL, instate := RECV_PAYLOAD\<rparr>)
       (BUF INMSG_CONTROL) (unat len))
     else (
       let sws = sws\<lparr>inmsg_total_size := inmsg_total_size sws + len\<rparr>;
           opt = sws_rcvmaxsize sws in
       if opt \<ge> 0 \<and> inmsg_total_size sws > word_of_int opt then nn_sws_fail_conn sws NN_SWS_CLOSE_ERR_TOOBIG too_big
       else do {
         sws \<leftarrow> nn_msg_chunk_new (sws\<lparr>inmsg_chunks := inmsg_chunks sws + 1\<rparr>) len;
         Some (nn_usock_recv (sws\<lparr>inmsg_current_chunk_buf := Some MSG_CHUNK, instate := RECV_PAYLOAD\<rparr>)
           (BUF MSG_CHUNK) (unat len)) }) }"

text \<open>The end of the first two bytes of a header: more header, or the payload.\<close>

definition sws_header_rest :: "nn_sws \<Rightarrow> nn_sws option" where
  "sws_header_rest sws = (
     if ext_hdr_len sws = 0 then
       (if sws_mode sws \<noteq> NN_WS_CLIENT then None
        else if \<not> (0 < payload_ctl sws \<and> unat (payload_ctl sws) \<le> NN_SWS_PAYLOAD_MAX_LENGTH) then None
        else sws_start_payload (sws\<lparr>inmsg_current_chunk_len := ucast (payload_ctl sws)\<rparr>)
          ''Message larger than application allows.'')
     else Some (nn_usock_recv (sws\<lparr>instate := RECV_HDREXT\<rparr>) (INHDR NN_SWS_FRAME_SIZE_INITIAL) (ext_hdr_len sws)))"

definition sws_data_frame :: "nn_sws \<Rightarrow> nn_sws option" where
  "sws_data_frame sws = (
     if ext_hdr_len sws = 0 \<and> payload_ctl sws = 0 then
       (if sws_mode sws \<noteq> NN_WS_CLIENT then None
        else (
          let sws = sws\<lparr>inmsg_current_chunk_len := 0\<rparr> in
          if continuing sws then nn_sws_recv_hdr sws
          else sws_pipe_received (sws\<lparr>instate := RECVD_CHUNKED\<rparr>)))
     else sws_header_rest sws)"

definition sws_ping_frame :: "nn_sws \<Rightarrow> nn_sws option" where
  "sws_ping_frame sws = (
     if unat (payload_ctl sws) > NN_SWS_PAYLOAD_MAX_LENGTH
     then nn_sws_fail_conn sws NN_SWS_CLOSE_ERR_PROTO ''Control frame payload exceeds allowable length.''
     else if \<not> is_final_frame sws
     then nn_sws_fail_conn sws NN_SWS_CLOSE_ERR_PROTO ''Cannot fragment control message (FIN=0).''
     else if ext_hdr_len sws = 0 \<and> payload_ctl sws = 0
     then sws_pipe_received (sws\<lparr>inmsg_current_chunk_len := 0, instate := RECVD_CONTROL\<rparr>)
     else sws_header_rest sws)"

definition sws_close_frame :: "nn_sws \<Rightarrow> nn_sws option" where
  "sws_close_frame sws = (
     if \<not> is_final_frame sws
     then nn_sws_fail_conn sws NN_SWS_CLOSE_ERR_PROTO ''Cannot fragment control message (FIN=0).''
     else if unat (payload_ctl sws) > NN_SWS_PAYLOAD_MAX_LENGTH
     then nn_sws_fail_conn sws NN_SWS_CLOSE_ERR_PROTO ''Control frame payload exceeds allowable length.''
     else if payload_ctl sws = 1
     then nn_sws_fail_conn sws NN_SWS_CLOSE_ERR_PROTO ''Expected 2byte close code.''
     else if ext_hdr_len sws = 0 \<and> payload_ctl sws = 0
     then nn_sws_acknowledge_close_handshake (sws\<lparr>inmsg_current_chunk_len := 0\<rparr>)
     else sws_header_rest sws)"

definition sws_frame_opcode :: "nn_sws \<Rightarrow> nn_sws option" where
  "sws_frame_opcode sws = (
     if sws_opcode sws = NN_WS_OPCODE_TEXT \<or> sws_opcode sws = NN_WS_OPCODE_BINARY then
       (let sws = sws\<lparr>is_control_frame := False\<rparr> in
        if continuing sws
        then nn_sws_fail_conn sws NN_SWS_CLOSE_ERR_PROTO ''Expected continuation frame opcode.''
        else sws_data_frame (if \<not> is_final_frame sws then sws\<lparr>continuing := True\<rparr> else sws))
     else if sws_opcode sws = NN_WS_OPCODE_FRAGMENT
     then sws_data_frame (sws\<lparr>is_control_frame := False, continuing := \<not> is_final_frame sws\<rparr>)
     else if sws_opcode sws = NN_WS_OPCODE_PING
     then sws_ping_frame (sws\<lparr>is_control_frame := True, pings_received := pings_received sws + 1\<rparr>)
     else if sws_opcode sws = NN_WS_OPCODE_PONG
     then sws_ping_frame (sws\<lparr>is_control_frame := True, pongs_received := pongs_received sws + 1\<rparr>)
     else if sws_opcode sws = NN_WS_OPCODE_CLOSE then sws_close_frame (sws\<lparr>is_control_frame := True\<rparr>)
     else nn_sws_fail_conn sws NN_SWS_CLOSE_ERR_PROTO ''Invalid opcode.'')"

definition sws_frame_length :: "nn_sws \<Rightarrow> byte \<Rightarrow> byte \<Rightarrow> nn_sws option" where
  "sws_frame_length sws b0 b1 = (
     let sws = sws\<lparr>sws_opcode := b0 AND NN_SWS_FRAME_BITMASK_OPCODE, payload_ctl := b1 AND NN_SWS_FRAME_BITMASK_LENGTH\<rparr> in
     if \<not> continuing sws \<and> sws_opcode sws = NN_WS_OPCODE_FRAGMENT
     then nn_sws_fail_conn sws NN_SWS_CLOSE_ERR_PROTO ''No message to continue.''
     else (
       let sws = (if \<not> continuing sws then sws\<lparr>inmsg_hdr := b0 OR NN_SWS_FRAME_BITMASK_FIN\<rparr> else sws) in
       if unat (payload_ctl sws) \<le> NN_SWS_PAYLOAD_MAX_LENGTH
       then sws_frame_opcode (sws\<lparr>ext_hdr_len := ext_hdr_len sws + NN_SWS_FRAME_SIZE_PAYLOAD_0\<rparr>)
       else if payload_ctl sws = NN_SWS_PAYLOAD_FRAME_16
       then sws_frame_opcode (sws\<lparr>ext_hdr_len := ext_hdr_len sws + NN_SWS_FRAME_SIZE_PAYLOAD_16\<rparr>)
       else if payload_ctl sws = NN_SWS_PAYLOAD_FRAME_63
       then sws_frame_opcode (sws\<lparr>ext_hdr_len := ext_hdr_len sws + NN_SWS_FRAME_SIZE_PAYLOAD_63\<rparr>)
       else None))"

definition sws_received_hdr :: "nn_sws \<Rightarrow> nn_sws option" where
  "sws_received_hdr sws = do {
     b0 \<leftarrow> peek (inhdr sws) 0;
     b1 \<leftarrow> peek (inhdr sws) 1;
     if b0 AND NN_SWS_FRAME_BITMASK_RSV1 \<noteq> 0 \<or> b0 AND NN_SWS_FRAME_BITMASK_RSV2 \<noteq> 0 \<or> b0 AND NN_SWS_FRAME_BITMASK_RSV3 \<noteq> 0
     then nn_sws_fail_conn sws NN_SWS_CLOSE_ERR_PROTO ''RSV1, RSV2, and RSV3 must be unset.''
     else (
       let sws = sws\<lparr>is_final_frame := b0 AND NN_SWS_FRAME_BITMASK_FIN \<noteq> 0,
         masked := b1 AND NN_SWS_FRAME_BITMASK_MASKED \<noteq> 0\<rparr> in
       case sws_mode sws of
         NN_WS_SERVER \<Rightarrow>
           if masked sws then sws_frame_length (sws\<lparr>ext_hdr_len := NN_SWS_FRAME_SIZE_MASK\<rparr>) b0 b1
           else nn_sws_fail_conn sws NN_SWS_CLOSE_ERR_PROTO ''Server expects MASK bit to be set.''
       | NN_WS_CLIENT \<Rightarrow>
           if masked sws then nn_sws_fail_conn sws NN_SWS_CLOSE_ERR_PROTO ''Client expects MASK bit to be unset.''
           else sws_frame_length (sws\<lparr>ext_hdr_len := 0\<rparr>) b0 b1) }"

text \<open>The extended header: the length and where the mask is.\<close>

definition sws_extended_length :: "nn_sws \<Rightarrow> nn_sws option option" where
  "sws_extended_length sws = (
     if unat (payload_ctl sws) \<le> NN_SWS_PAYLOAD_MAX_LENGTH
     then Some (Some (sws\<lparr>inmsg_current_chunk_len := ucast (payload_ctl sws),
       sws_mask := if masked sws then Some NN_SWS_FRAME_SIZE_INITIAL else None\<rparr>))
     else if payload_ctl sws = NN_SWS_PAYLOAD_FRAME_16
     then do {
       n \<leftarrow> nn_gets (inhdr sws) NN_SWS_FRAME_SIZE_INITIAL;
       Some (Some (sws\<lparr>inmsg_current_chunk_len := ucast n,
         sws_mask := if masked sws then Some (NN_SWS_FRAME_SIZE_INITIAL + NN_SWS_FRAME_SIZE_PAYLOAD_16) else None\<rparr>)) }
     else if payload_ctl sws = NN_SWS_PAYLOAD_FRAME_63
     then do {
       n \<leftarrow> nn_getll (inhdr sws) NN_SWS_FRAME_SIZE_INITIAL;
       Some (Some (sws\<lparr>inmsg_current_chunk_len := n,
         sws_mask := if masked sws then Some (NN_SWS_FRAME_SIZE_INITIAL + NN_SWS_FRAME_SIZE_PAYLOAD_63) else None\<rparr>)) }
     else Some None)"

definition sws_received_hdrext :: "nn_sws \<Rightarrow> nn_sws option" where
  "sws_received_hdrext sws = (
     if ext_hdr_len sws = 0 then None
     else do {
       ext \<leftarrow> sws_extended_length sws;
       case ext of
         None \<Rightarrow> nn_sws_fail_conn sws NN_SWS_CLOSE_ERR_PROTO ''Invalid payload length.''
       | Some sws \<Rightarrow>
           if inmsg_current_chunk_len sws = 0 then
             (if is_final_frame sws then
                (if sws_opcode sws = NN_WS_OPCODE_CLOSE then nn_sws_acknowledge_close_handshake sws
                 else sws_pipe_received (sws\<lparr>instate := if is_control_frame sws then RECVD_CONTROL else RECVD_CHUNKED\<rparr>))
              else nn_sws_recv_hdr sws)
           else sws_start_payload sws ''Message size exceeds limit.'' })"

definition sws_unmask :: "nn_sws \<Rightarrow> nn_sws option" where
  "sws_unmask sws = (
     if \<not> masked sws then Some sws
     else do {
       m \<leftarrow> sws_mask sws;
       payload \<leftarrow> chunk_bytes_at sws;
       key \<leftarrow> (if m + NN_SWS_FRAME_SIZE_MASK \<le> length (inhdr sws) then Some (slice m NN_SWS_FRAME_SIZE_MASK (inhdr sws)) else None);
       (payload, _) \<leftarrow> nn_sws_mask_payload payload key None;
       store_chunk sws payload })"

definition sws_received_payload :: "nn_sws \<Rightarrow> nn_sws option" where
  "sws_received_payload sws = do {
     sws \<leftarrow> sws_unmask sws;
     if sws_opcode sws = NN_WS_OPCODE_TEXT then nn_sws_validate_utf8_chunk sws
     else if sws_opcode sws = NN_WS_OPCODE_BINARY then sws_chunk_done sws
     else if sws_opcode sws = NN_WS_OPCODE_FRAGMENT then
       (if inmsg_hdr sws AND NN_SWS_FRAME_BITMASK_OPCODE = NN_WS_OPCODE_TEXT then nn_sws_validate_utf8_chunk sws
        else sws_chunk_done sws)
     else if sws_opcode sws = NN_WS_OPCODE_PING \<or> sws_opcode sws = NN_WS_OPCODE_PONG
     then sws_pipe_received (sws\<lparr>instate := RECVD_CONTROL\<rparr>)
     else if sws_opcode sws = NN_WS_OPCODE_CLOSE then nn_sws_acknowledge_close_handshake sws
     else None }"

section \<open>The state machine\<close>

datatype sws_input =
  NN_FSM_START | NN_WS_HANDSHAKE_OK | NN_WS_HANDSHAKE_ERROR | NN_WS_HANDSHAKE_STOPPED
| NN_USOCK_SENT | NN_USOCK_RECEIVED | NN_USOCK_SHUTDOWN | NN_USOCK_ERROR

definition sws_done :: "nn_sws \<Rightarrow> int \<Rightarrow> nn_sws" where
  "sws_done sws code = raise_event (sws\<lparr>sws_st := SWS_DONE\<rparr>) (SWS_RAISE code)"

definition sws_active :: "nn_sws \<Rightarrow> sws_input \<Rightarrow> nn_sws option" where
  "sws_active sws input = (case input of
       NN_USOCK_SENT \<Rightarrow>
         if outstate sws \<noteq> SWS_OUT_SENDING then None
         else sws_pipe_sent (sws\<lparr>outstate := SWS_OUT_IDLE, outmsg := plain_msg []\<rparr>)
     | NN_USOCK_RECEIVED \<Rightarrow> (case instate sws of
           RECV_HDR \<Rightarrow> sws_received_hdr sws
         | RECV_HDREXT \<Rightarrow> sws_received_hdrext sws
         | RECV_PAYLOAD \<Rightarrow> sws_received_payload sws
         | _ \<Rightarrow> None)
     | NN_USOCK_SHUTDOWN \<Rightarrow> Some ((sws_pipe_stop sws)\<lparr>sws_st := SWS_BROKEN_CONNECTION\<rparr>)
     | NN_USOCK_ERROR \<Rightarrow> Some (sws_done (sws_pipe_stop sws) NN_SWS_RETURN_ERROR)
     | _ \<Rightarrow> None)"

text \<open>\<open>add\<close> is \<open>nn_sock_add\<close>, called by \<open>nn_pipebase_start\<close>.\<close>

definition nn_sws_handler :: "(nn_pipebase \<Rightarrow> int) \<Rightarrow> nn_sws \<Rightarrow> sws_input \<Rightarrow> nn_sws option" where
  "nn_sws_handler add sws input = (case sws_st sws of
       SWS_IDLE \<Rightarrow> (case input of
           NN_FSM_START \<Rightarrow> Some ((raise_event sws NN_WS_HANDSHAKE_START)\<lparr>sws_st := SWS_HANDSHAKE\<rparr>)
         | _ \<Rightarrow> None)
     | SWS_HANDSHAKE \<Rightarrow> (case input of
           NN_WS_HANDSHAKE_OK \<Rightarrow> Some ((raise_event sws NN_WS_HANDSHAKE_STOP)\<lparr>sws_st := SWS_STOPPING_HANDSHAKE\<rparr>)
         | NN_WS_HANDSHAKE_ERROR \<Rightarrow> Some (sws_done sws NN_SWS_RETURN_CLOSE_HANDSHAKE)
         | _ \<Rightarrow> None)
     | SWS_STOPPING_HANDSHAKE \<Rightarrow> (case input of
           NN_WS_HANDSHAKE_STOPPED \<Rightarrow> do {
             (rc, p, ev) \<leftarrow> nn_pipebase_start add (sws_pipebase sws);
             let sws = sws\<lparr>sws_pipebase := p, sws_events := sws_events sws @ map SWS_PIPE ev\<rparr>;
             if rc < 0 then Some (sws_done sws NN_SWS_RETURN_ERROR)
             else do {
               sws \<leftarrow> nn_sws_recv_hdr sws;
               Some (sws\<lparr>outstate := SWS_OUT_IDLE, sws_st := SWS_ACTIVE\<rparr>) } }
         | _ \<Rightarrow> None)
     | SWS_ACTIVE \<Rightarrow> sws_active sws input
     | SWS_CLOSING_CONNECTION \<Rightarrow> (case input of
           NN_USOCK_SENT \<Rightarrow>
             if outstate sws \<noteq> SWS_OUT_SENDING then None
             else Some (sws_done (sws\<lparr>outstate := SWS_OUT_IDLE\<rparr>) NN_SWS_RETURN_CLOSE_HANDSHAKE)
         | NN_USOCK_SHUTDOWN \<Rightarrow> Some sws
         | NN_USOCK_ERROR \<Rightarrow> Some (sws_done sws NN_SWS_RETURN_ERROR)
         | _ \<Rightarrow> None)
     | SWS_BROKEN_CONNECTION \<Rightarrow> (case input of
           NN_USOCK_ERROR \<Rightarrow> Some (sws_done sws NN_SWS_RETURN_ERROR)
         | _ \<Rightarrow> None)
     | _ \<Rightarrow> None)"

text \<open>
  \<open>nn_sws_start\<close> takes over the socket. \<open>nn_sws_shutdown\<close> is called for the action \<open>NN_FSM_STOP\<close>
  and again for every event while the handshake is not idle yet.
\<close>

definition nn_sws_start :: "(nn_pipebase \<Rightarrow> int) \<Rightarrow> nn_sws \<Rightarrow> sws_mode \<Rightarrow> byte \<Rightarrow> nn_sws option" where
  "nn_sws_start add self mode msg_type =
     nn_sws_handler add (raise_event (self\<lparr>sws_mode := mode, sws_msg_type := msg_type\<rparr>) SWAP_OWNER) NN_FSM_START"

definition nn_sws_shutdown :: "nn_sws \<Rightarrow> bool \<Rightarrow> bool \<Rightarrow> nn_sws option" where
  "nn_sws_shutdown sws stop handshake_isidle = (
     let sws = (if stop then (raise_event (sws_pipe_stop sws) NN_WS_HANDSHAKE_STOP)\<lparr>sws_st := SWS_STOPPING\<rparr> else sws) in
     if sws_st sws \<noteq> SWS_STOPPING then None
     else if handshake_isidle
     then Some ((raise_event (raise_event sws SWAP_OWNER) FSM_STOPPED)\<lparr>sws_st := SWS_IDLE\<rparr>)
     else Some sws)"

end
