(* ===== verification/NN_Sws_Inv.thy ===== *)
theory NN_Sws_Inv
  imports NN_Sws
begin

text \<open>
  The invariant of an active WebSocket session, and that every step of it that a peer or the
  user can cause keeps it, closes the connection, or is one of two named accidents.
\<close>

unbundle bit_operations_syntax

section \<open>Closing and the next header\<close>

definition sws_sized :: "nn_sws \<Rightarrow> bool" where
  "sws_sized s \<longleftrightarrow> length (inhdr s) = NN_SWS_FRAME_MAX_HDR_LEN \<and> length (inmsg_control s) = NN_SWS_PAYLOAD_MAX_LENGTH
     \<and> length (fail_msg s) = NN_SWS_PAYLOAD_MAX_LENGTH \<and> length (utf8_code_pt_fragment s) = NN_SWS_UTF8_MAX_CODEPOINT_LEN"

definition sws_closed :: "nn_sws \<Rightarrow> bool" where
  "sws_closed s \<longleftrightarrow> sws_st s \<in> {SWS_CLOSING_CONNECTION, SWS_DONE} \<and> instate s = SWS_CLOSED \<and> sws_sized s"

lemma length_mask_bytes [simp]: "length (mask_bytes key i bs) = length bs"
  by (induction bs arbitrary: i) simp_all

lemma length_chars [simp]: "length (chars s) = length s"
  by (simp add: chars_def)

lemma random_key: "fst (nn_random_generate r NN_SWS_FRAME_SIZE_MASK) \<noteq> []"
  using length_random [of r NN_SWS_FRAME_SIZE_MASK] by (auto simp: frame_sizes simp del: length_random)

lemma length_bytes_u16 [simp]: "length (bytes2 v) = 2"
  by simp

lemma poke_then:
  "i + length bs \<le> length m \<Longrightarrow> poke m i bs = Some (overwrite m i bs) \<and> length (overwrite m i bs) = length m"
  by (simp add: poke_def length_overwrite)

lemma close_frame_ok:
  assumes m: "length m = 125" and r: "length reason \<le> 60"
  shows "\<exists>m' len rnd'. build_close_frame mode rnd m code reason = Some (m', len, rnd') \<and> length m' = 125 \<and> len \<le> 125"
proof -
  obtain key rnd' where k: "nn_random_generate rnd NN_SWS_FRAME_SIZE_MASK = (key, rnd')" by fastforce
  then have key: "length key = 4" "key \<noteq> []"
    using length_random [of rnd NN_SWS_FRAME_SIZE_MASK] random_key [of rnd] by (simp_all add: frame_sizes)
  show ?thesis
  proof (cases mode)
    case NN_WS_SERVER
    with m r show ?thesis
      by (simp add: build_close_frame_def Let_def frame_sizes poke_then nn_puts_eq length_overwrite)
  next
    case NN_WS_CLIENT
    with m r key k show ?thesis
      by (simp add: build_close_frame_def Let_def frame_sizes poke_then nn_puts_eq length_overwrite nn_sws_mask_payload_def)
  qed
qed

lemma fail_conn_ok:
  assumes s: "sws_sized s" "sws_st s = SWS_ACTIVE" and r: "length reason \<le> 60"
  shows "\<exists>s'. nn_sws_fail_conn s code reason = Some s' \<and> sws_closed s'"
proof -
  have "length (fail_msg s) = 125" "length (chars reason) \<le> 60" using s r by (simp_all add: sws_sized_def frame_sizes)
  from close_frame_ok [OF this] obtain m' len rnd' where
    "build_close_frame (sws_mode s) (sws_random s) (fail_msg s) code (chars reason) = Some (m', len, rnd')" "length m' = 125"
    by blast
  then show ?thesis using s
    by (auto simp: nn_sws_fail_conn_def sws_pipe_stop_def nn_pipebase_stop_def Let_def sws_closed_def sws_sized_def
        raise_event_def nn_usock_send_def frame_sizes)
qed

section \<open>The invariant\<close>

text \<open>An opcode byte that a delivered message may have: final, text or binary.\<close>

definition data_hdr :: "byte \<Rightarrow> bool" where
  "data_hdr h \<longleftrightarrow> h AND NN_SWS_FRAME_BITMASK_FIN \<noteq> 0 \<and>
     h AND NN_SWS_FRAME_BITMASK_OPCODE \<in> {NN_WS_OPCODE_TEXT, NN_WS_OPCODE_BINARY}"

definition control_hdr :: "byte \<Rightarrow> bool" where
  "control_hdr h \<longleftrightarrow> h AND NN_SWS_FRAME_BITMASK_FIN \<noteq> 0 \<and>
     h AND NN_SWS_FRAME_BITMASK_OPCODE \<in> {NN_WS_OPCODE_PING, NN_WS_OPCODE_PONG}"

text \<open>What holds in every active state: the fragments of a message are kept while it continues.\<close>

definition sws_base :: "nn_sws \<Rightarrow> bool" where
  "sws_base s \<longleftrightarrow> sws_sized s \<and> sws_st s = SWS_ACTIVE \<and> utf8_code_pt_fragment_len s < NN_SWS_UTF8_MAX_CODEPOINT_LEN
     \<and> unat (inmsg_total_size s) = length (concat (inmsg_array s))
     \<and> (continuing s \<longrightarrow> data_hdr (inmsg_hdr s))"

definition hdr_inv :: "nn_sws \<Rightarrow> bool" where
  "hdr_inv s \<longleftrightarrow> sws_base s \<and> instate s = RECV_HDR \<and> sws_receiving s = Some (INHDR 0, NN_SWS_FRAME_SIZE_INITIAL)
     \<and> pb_instate (sws_pipebase s) = IN_ASYNC \<and> (\<not> continuing s \<longrightarrow> inmsg_array s = [])"

text \<open>The frame whose header is being looked at.\<close>

definition data_frame :: "nn_sws \<Rightarrow> bool" where
  "data_frame s \<longleftrightarrow> \<not> is_control_frame s \<and> sws_opcode s \<in> {NN_WS_OPCODE_TEXT, NN_WS_OPCODE_BINARY, NN_WS_OPCODE_FRAGMENT}
     \<and> (continuing s \<longleftrightarrow> \<not> is_final_frame s) \<and> data_hdr (inmsg_hdr s)"

definition control_frame :: "nn_sws \<Rightarrow> bool" where
  "control_frame s \<longleftrightarrow> is_control_frame s \<and> is_final_frame s \<and> unat (payload_ctl s) \<le> NN_SWS_PAYLOAD_MAX_LENGTH
     \<and> (sws_opcode s = NN_WS_OPCODE_CLOSE \<and> payload_ctl s \<noteq> 1
        \<or> sws_opcode s \<in> {NN_WS_OPCODE_PING, NN_WS_OPCODE_PONG} \<and> control_hdr (inhdr s ! 0))
     \<and> (\<not> continuing s \<longrightarrow> inmsg_array s = [])"

definition frame_ok :: "nn_sws \<Rightarrow> bool" where
  "frame_ok s \<longleftrightarrow> sws_base s \<and> pb_instate (sws_pipebase s) = IN_ASYNC \<and> (masked s \<longleftrightarrow> sws_mode s = NN_WS_SERVER)
     \<and> (data_frame s \<or> control_frame s)"

definition ext_size :: "nn_sws \<Rightarrow> nat" where
  "ext_size s = (if masked s then NN_SWS_FRAME_SIZE_MASK else 0) +
     (if unat (payload_ctl s) \<le> NN_SWS_PAYLOAD_MAX_LENGTH then 0
      else if payload_ctl s = NN_SWS_PAYLOAD_FRAME_16 then NN_SWS_FRAME_SIZE_PAYLOAD_16 else NN_SWS_FRAME_SIZE_PAYLOAD_63)"

definition ext_pre :: "nn_sws \<Rightarrow> bool" where
  "ext_pre s \<longleftrightarrow> frame_ok s \<and> instate s = RECV_HDREXT \<and> ext_hdr_len s = ext_size s \<and> 0 < ext_hdr_len s
     \<and> (NN_SWS_PAYLOAD_MAX_LENGTH < unat (payload_ctl s) \<longrightarrow> payload_ctl s \<in> {NN_SWS_PAYLOAD_FRAME_16, NN_SWS_PAYLOAD_FRAME_63})"

definition ext_inv :: "nn_sws \<Rightarrow> bool" where
  "ext_inv s \<longleftrightarrow> ext_pre s \<and> sws_receiving s = Some (INHDR NN_SWS_FRAME_SIZE_INITIAL, ext_hdr_len s)"

definition chunk_ok :: "nn_sws \<Rightarrow> bool" where
  "chunk_ok s \<longleftrightarrow> (if is_control_frame s
     then inmsg_current_chunk_buf s = Some INMSG_CONTROL \<and> unat (inmsg_current_chunk_len s) \<le> NN_SWS_PAYLOAD_MAX_LENGTH
       \<and> (sws_opcode s = NN_WS_OPCODE_CLOSE \<longrightarrow> NN_SWS_CLOSE_CODE_LEN \<le> unat (inmsg_current_chunk_len s))
     else inmsg_current_chunk_buf s = Some MSG_CHUNK \<and> inmsg_array s \<noteq> []
       \<and> length (last (inmsg_array s)) = unat (inmsg_current_chunk_len s))"

definition payload_pre :: "nn_sws \<Rightarrow> bool" where
  "payload_pre s \<longleftrightarrow> frame_ok s \<and> instate s = RECV_PAYLOAD \<and> chunk_ok s \<and> 0 < unat (inmsg_current_chunk_len s)
     \<and> (masked s \<longrightarrow> (\<exists>m. sws_mask s = Some m \<and> m + NN_SWS_FRAME_SIZE_MASK \<le> NN_SWS_FRAME_MAX_HDR_LEN))"

definition payload_inv :: "nn_sws \<Rightarrow> bool" where
  "payload_inv s \<longleftrightarrow> payload_pre s
     \<and> (\<exists>b. inmsg_current_chunk_buf s = Some b \<and> sws_receiving s = Some (BUF b, unat (inmsg_current_chunk_len s)))"

definition ready_inv :: "nn_sws \<Rightarrow> bool" where
  "ready_inv s \<longleftrightarrow> sws_base s \<and> pb_instate (sws_pipebase s) = IN_IDLE \<and> is_final_frame s \<and>
     (instate s = RECVD_CHUNKED \<and> data_hdr (inmsg_hdr s) \<or>
      instate s = RECVD_CONTROL \<and> control_hdr (inhdr s ! 0) \<and> unat (inmsg_current_chunk_len s) \<le> NN_SWS_PAYLOAD_MAX_LENGTH
        \<and> (\<not> continuing s \<longrightarrow> inmsg_array s = []))"

definition sws_inv :: "nn_sws \<Rightarrow> bool" where
  "sws_inv s \<longleftrightarrow> hdr_inv s \<or> ext_inv s \<or> payload_inv s \<or> ready_inv s"

lemmas sws_invs = sws_inv_def hdr_inv_def ext_inv_def ext_pre_def payload_inv_def payload_pre_def ready_inv_def

text \<open>The outcome of a step.\<close>

definition sws_survives :: "nn_sws option \<Rightarrow> bool" where
  "sws_survives r \<longleftrightarrow> (\<exists>s. r = Some s \<and> (sws_inv s \<or> sws_closed s))"

lemma survives_fail: "sws_base s \<Longrightarrow> length reason \<le> 60 \<Longrightarrow> sws_survives (nn_sws_fail_conn s code reason)"
  using fail_conn_ok [of s reason code] by (auto simp: sws_survives_def sws_base_def)

section \<open>The steps\<close>

lemma survives_next_header:
  assumes "sws_base s" "pb_instate (sws_pipebase s) = IN_ASYNC" "\<not> continuing s \<Longrightarrow> inmsg_array s = []"
  shows "sws_survives (nn_sws_recv_hdr s)"
  using assms by (auto simp: sws_survives_def nn_sws_recv_hdr_def Let_def sws_inv_def hdr_inv_def sws_base_def sws_sized_def
      nn_usock_recv_def)

lemma survives_received:
  assumes "sws_base s" "pb_instate (sws_pipebase s) = IN_ASYNC" "is_final_frame s"
    "instate s = RECVD_CHUNKED \<and> data_hdr (inmsg_hdr s) \<or> instate s = RECVD_CONTROL \<and> control_hdr (inhdr s ! 0)
      \<and> unat (inmsg_current_chunk_len s) \<le> NN_SWS_PAYLOAD_MAX_LENGTH \<and> (\<not> continuing s \<longrightarrow> inmsg_array s = [])"
  shows "sws_survives (sws_pipe_received s)"
proof -
  have "nn_pipebase_received (sws_pipebase s) = Some ((sws_pipebase s)\<lparr>pb_instate := IN_IDLE\<rparr>, [NN_PIPE_IN])"
    using assms(2) by (simp add: nn_pipebase_received_def)
  then show ?thesis using assms
    by (auto simp: sws_survives_def sws_pipe_received_def sws_inv_def ready_inv_def sws_base_def sws_sized_def)
qed

lemma survives_chunk_done:
  assumes "frame_ok s" "data_frame s"
  shows "sws_survives (sws_chunk_done s)"
proof (cases "is_final_frame s")
  case True
  then show ?thesis unfolding sws_chunk_done_def
    using assms by (auto simp: frame_ok_def data_frame_def sws_base_def sws_sized_def intro!: survives_received)
next
  case False
  then show ?thesis unfolding sws_chunk_done_def
    using assms by (auto simp: frame_ok_def data_frame_def intro!: survives_next_header)
qed

lemma scan_ends: "\<exists>r. scan_code_points pos = Some r \<and> (\<forall>q. r = Fragment_at q \<longrightarrow> length q < 4)"
proof (induction pos rule: scan_code_points.induct)
  case (1 pos)
  show ?case
  proof (cases "pos = [] \<or> nn_utf8_code_point pos \<le> 0")
    case True
    have "nn_utf8_code_point pos = NN_SWS_UTF8_FRAGMENT" if "nn_utf8_code_point pos \<le> 0" "nn_utf8_code_point pos \<noteq> NN_SWS_UTF8_INVALID"
      using code_point_range [of pos] that by auto
    with True code_point_fragment [of pos] show ?thesis
      by (subst scan_code_points.simps) (auto simp: Let_def NN_SWS_UTF8_MAX_CODEPOINT_LEN_def)
  next
    case False
    then obtain n where n: "nn_utf8_code_point pos = int n" "0 < n" using zero_less_imp_eq_int [of "nn_utf8_code_point pos"] by auto
    then obtain c where "n = length (utf8_encode c)" "take n pos = utf8_encode c" using code_point_iff by blast
    then have le: "n \<le> length pos" by (metis length_take min.cobounded2 min.commute)
    have "\<exists>r. scan_code_points (drop n pos) = Some r \<and> (\<forall>q. r = Fragment_at q \<longrightarrow> length q < 4)"
      using 1 [OF _ refl] False n le by simp
    moreover have "scan_code_points pos = scan_code_points (drop n pos)"
      using False n le by (subst scan_code_points.simps) simp
    ultimately show ?thesis by simp
  qed
qed

text \<open>The first accident: a code point of four bytes whose last byte comes in another frame.\<close>

definition completes_four :: "nn_sws \<Rightarrow> bool" where
  "completes_four s \<longleftrightarrow> utf8_code_pt_fragment_len s = 3 \<and> (case chunk_bytes_at s of
     Some (b # _) \<Rightarrow> nn_utf8_code_point (take 3 (utf8_code_pt_fragment s) @ [b]) > 0 | _ \<Rightarrow> False)"

definition in_text :: "nn_sws \<Rightarrow> bool" where
  "in_text s \<longleftrightarrow> sws_opcode s = NN_WS_OPCODE_TEXT \<or>
     sws_opcode s = NN_WS_OPCODE_FRAGMENT \<and> inmsg_hdr s AND NN_SWS_FRAME_BITMASK_OPCODE = NN_WS_OPCODE_TEXT"

lemma chunk_bytes_ok:
  assumes "chunk_ok s" "sws_sized s"
  shows "\<exists>bs. chunk_bytes_at s = Some bs \<and> length bs = unat (inmsg_current_chunk_len s)"
  using assms by (auto simp: chunk_ok_def chunk_bytes_at_def Let_def sws_sized_def split: if_splits)

lemma frame_ok_utf8:
  "frame_ok s \<Longrightarrow> l < 4 \<Longrightarrow> length f = 4 \<Longrightarrow>
     frame_ok (s\<lparr>utf8_code_pt_fragment := f, utf8_code_pt_fragment_len := l\<rparr>)"
  "data_frame (s\<lparr>utf8_code_pt_fragment := f, utf8_code_pt_fragment_len := l\<rparr>) \<longleftrightarrow> data_frame s"
  by (auto simp: frame_ok_def data_frame_def control_frame_def sws_base_def sws_sized_def frame_sizes)

lemma survives_fail': "sws_sized s \<Longrightarrow> sws_st s = SWS_ACTIVE \<Longrightarrow> length reason \<le> 60 \<Longrightarrow>
    sws_survives (nn_sws_fail_conn s code reason)"
  using fail_conn_ok [of s reason code] by (auto simp: sws_survives_def)

lemma survives_data_header: "frame_ok s \<Longrightarrow> data_frame s \<Longrightarrow> \<not> is_final_frame s \<Longrightarrow> sws_survives (nn_sws_recv_hdr s)"
  by (rule survives_next_header) (auto simp: frame_ok_def data_frame_def)

lemma fragment_verdict: "nn_utf8_code_point bs \<le> 0 \<Longrightarrow> nn_utf8_code_point bs \<noteq> NN_SWS_UTF8_INVALID \<Longrightarrow>
    nn_utf8_code_point bs = NN_SWS_UTF8_FRAGMENT"
  using code_point_range [of bs] by auto

lemma continue_ok:
  assumes "length f = 4" "l < 4" "pos = b # rest"
  shows "continue_code_point f l pos = Some (f[l := b], l + 1,
      if nn_utf8_code_point (take l f @ [b]) > 0 then Inr rest else Inl (nn_utf8_code_point (take l f @ [b])))"
proof -
  have "poke f l [b] = Some (f[l := b])"
    using assms by (simp add: poke_def overwrite_def upd_conv_take_nth_drop)
  moreover have "take (l + 1) (f[l := b]) = take l f @ [b]"
    using assms by (simp add: take_Suc_conv_app_nth)
  ultimately show ?thesis using assms(3) by (simp add: continue_code_point_def Let_def)
qed

lemma survives_scan:
  assumes s: "frame_ok s" "data_frame s" "utf8_code_pt_fragment_len s < 4"
  shows "sws_survives (if utf8_code_pt_fragment_len s \<ge> NN_SWS_UTF8_MAX_CODEPOINT_LEN then None
    else do {
      result \<leftarrow> scan_code_points pos;
      case result of
        Invalid_at _ \<Rightarrow> nn_sws_fail_conn
          (s\<lparr>utf8_code_pt_fragment_len := 0, utf8_code_pt_fragment := replicate NN_SWS_UTF8_MAX_CODEPOINT_LEN 0\<rparr>)
          NN_SWS_CLOSE_ERR_INVALID_FRAME ''Invalid UTF-8 code point in payload.''
      | Fragment_at rest \<Rightarrow> do {
          fragment \<leftarrow> poke (utf8_code_pt_fragment s) 0 rest;
          let self = s\<lparr>utf8_code_pt_fragment_len := length rest, utf8_code_pt_fragment := fragment\<rparr>;
          if is_final_frame self
          then nn_sws_fail_conn self NN_SWS_CLOSE_ERR_INVALID_FRAME ''Truncated UTF-8 payload with invalid code point.''
          else nn_sws_recv_hdr self }
      | All_valid \<Rightarrow> sws_chunk_done
          (s\<lparr>utf8_code_pt_fragment_len := 0, utf8_code_pt_fragment := replicate NN_SWS_UTF8_MAX_CODEPOINT_LEN 0\<rparr>) })"
proof -
  obtain r where r: "scan_code_points pos = Some r" "\<forall>q. r = Fragment_at q \<longrightarrow> length q < 4" using scan_ends by blast
  have sz: "length (utf8_code_pt_fragment s) = 4" and act: "sws_st s = SWS_ACTIVE" and sized: "sws_sized s"
    using s(1) by (simp_all add: frame_ok_def sws_base_def sws_sized_def frame_sizes)
  let ?clear = "s\<lparr>utf8_code_pt_fragment_len := 0, utf8_code_pt_fragment := replicate NN_SWS_UTF8_MAX_CODEPOINT_LEN 0\<rparr>"
  have clear: "?clear = s\<lparr>utf8_code_pt_fragment := replicate 4 0, utf8_code_pt_fragment_len := 0\<rparr>" by (simp add: frame_sizes)
  have szc: "sws_sized ?clear" "sws_st ?clear = SWS_ACTIVE" using sized act by (simp_all add: sws_sized_def)
  show ?thesis
  proof (cases r)
    case All_valid
    have "frame_ok ?clear" "data_frame ?clear" unfolding clear using s frame_ok_utf8 by simp_all
    from survives_chunk_done [OF this] All_valid r(1) s(3) show ?thesis by (simp add: frame_sizes)
  next
    case (Invalid_at q)
    with r(1) s(3) survives_fail' [OF szc] show ?thesis by (simp add: frame_sizes)
  next
    case (Fragment_at q)
    with r(2) have q: "length q < 4" by simp
    then have p: "poke (utf8_code_pt_fragment s) 0 q = Some (overwrite (utf8_code_pt_fragment s) 0 q)"
        "length (overwrite (utf8_code_pt_fragment s) 0 q) = 4" using sz by (simp_all add: poke_def length_overwrite)
    let ?s = "s\<lparr>utf8_code_pt_fragment_len := length q, utf8_code_pt_fragment := overwrite (utf8_code_pt_fragment s) 0 q\<rparr>"
    have eq: "?s = s\<lparr>utf8_code_pt_fragment := overwrite (utf8_code_pt_fragment s) 0 q, utf8_code_pt_fragment_len := length q\<rparr>" by simp
    have ok: "frame_ok ?s" "data_frame ?s" unfolding eq using s q p(2) frame_ok_utf8 by simp_all
    then have "sws_sized ?s" "sws_st ?s = SWS_ACTIVE" by (simp_all add: frame_ok_def sws_base_def)
    with Fragment_at r(1) s(3) p(1) survives_fail' [of ?s] survives_data_header [OF ok] show ?thesis
      by (cases "is_final_frame s") (simp_all add: frame_sizes)
  qed
qed

lemma survives_validate:
  assumes s: "frame_ok s" "data_frame s" "chunk_ok s" "0 < unat (inmsg_current_chunk_len s)"
  shows "sws_survives (nn_sws_validate_utf8_chunk s) \<or> nn_sws_validate_utf8_chunk s = None \<and> completes_four s"
proof -
  have fl: "utf8_code_pt_fragment_len s < 4" and sz: "length (utf8_code_pt_fragment s) = 4" and act: "sws_st s = SWS_ACTIVE"
      and sized: "sws_sized s"
    using s(1) by (simp_all add: frame_ok_def sws_base_def sws_sized_def frame_sizes)
  obtain b pos where pos: "chunk_bytes_at s = Some (b # pos)"
    using chunk_bytes_ok [OF s(3) sized] s(4) by (metis length_greater_0_conv neq_Nil_conv)
  show ?thesis
  proof (cases "utf8_code_pt_fragment_len s = 0")
    case True
    have "sws_survives (nn_sws_validate_utf8_chunk s)"
      using survives_scan [OF s(1,2) fl, of "b # pos"] True pos by (simp add: nn_sws_validate_utf8_chunk_def)
    then show ?thesis ..
  next
    case False
    let ?l = "utf8_code_pt_fragment_len s" and ?f = "utf8_code_pt_fragment s"
    let ?cp = "nn_utf8_code_point (take ?l ?f @ [b])"
    let ?s = "s\<lparr>utf8_code_pt_fragment := ?f[?l := b], utf8_code_pt_fragment_len := ?l + 1\<rparr>"
    have cont: "continue_code_point ?f ?l (b # pos) = Some (?f[?l := b], ?l + 1, if ?cp > 0 then Inr pos else Inl ?cp)"
      using continue_ok [OF sz fl refl] by simp
    have szs: "sws_sized ?s" "sws_st ?s = SWS_ACTIVE" using sized act by (simp_all add: sws_sized_def)
    show ?thesis
    proof (cases "?cp > 0")
      case True
      show ?thesis
      proof (cases "?l = 3")
        case True
        with \<open>?cp > 0\<close> False fl pos cont have none: "nn_sws_validate_utf8_chunk s = None"
          by (simp add: nn_sws_validate_utf8_chunk_def frame_sizes)
        then show ?thesis using \<open>?cp > 0\<close> True pos by (simp add: completes_four_def)
      next
        case False
        with fl have l: "?l + 1 < 4" by simp
        have ok: "frame_ok ?s" "data_frame ?s" using s frame_ok_utf8 l sz by simp_all
        have "sws_survives (nn_sws_validate_utf8_chunk s)"
          using survives_scan [OF ok, of pos] l \<open>?l \<noteq> 0\<close> \<open>?cp > 0\<close> fl pos cont
          by (simp add: nn_sws_validate_utf8_chunk_def frame_sizes)
        then show ?thesis ..
      qed
    next
      case False
      show ?thesis
      proof (cases "?cp = NN_SWS_UTF8_INVALID")
        case True
        with False \<open>?l \<noteq> 0\<close> fl pos cont survives_fail' [OF szs] have "sws_survives (nn_sws_validate_utf8_chunk s)"
          by (simp add: nn_sws_validate_utf8_chunk_def frame_sizes)
        then show ?thesis ..
      next
        case ni: False
        with False have fr: "?cp = NN_SWS_UTF8_FRAGMENT" by (intro fragment_verdict) simp_all
        with code_point_fragment [OF this] sz fl have l: "?l + 1 < 4" by simp
        have ok: "frame_ok ?s" "data_frame ?s" using s frame_ok_utf8 l sz by simp_all
        have "sws_survives (nn_sws_validate_utf8_chunk s)"
          using survives_data_header [OF ok] survives_fail' [OF szs] ni False \<open>?l \<noteq> 0\<close> fl pos cont
          by (cases "is_final_frame s") (simp_all add: nn_sws_validate_utf8_chunk_def frame_sizes)
        then show ?thesis ..
      qed
    qed
  qed
qed

lemma survives_close:
  assumes s: "sws_sized s" "sws_st s = SWS_ACTIVE"
    and len: "inmsg_current_chunk_len s = 0 \<or> chunk_ok s \<and> is_control_frame s \<and> sws_opcode s = NN_WS_OPCODE_CLOSE"
  shows "sws_survives (nn_sws_acknowledge_close_handshake s)"
proof (cases "inmsg_current_chunk_len s = 0")
  case True
  with survives_fail' [OF s] show ?thesis by (simp add: nn_sws_acknowledge_close_handshake_def)
next
  case False
  with len have c: "chunk_ok s" "is_control_frame s" "sws_opcode s = NN_WS_OPCODE_CLOSE" by simp_all
  obtain bs where bs: "chunk_bytes_at s = Some bs" "length bs = unat (inmsg_current_chunk_len s)"
    using chunk_bytes_ok [OF c(1) s(1)] by blast
  then have l: "2 \<le> length bs" using c by (simp add: chunk_ok_def frame_sizes)
  obtain r where r: "scan_code_points (drop 2 bs) = Some r" using scan_ends by blast
  have g: "nn_gets bs 0 = Some (dec2 (slice 0 2 bs))" using l by (simp add: nn_gets_eq)
  show ?thesis
  proof (cases "r = All_valid")
    case True
    with False l r g bs survives_fail' [OF s] show ?thesis
      by (simp add: nn_sws_acknowledge_close_handshake_def frame_sizes)
  next
    case False
    with \<open>inmsg_current_chunk_len s \<noteq> 0\<close> l r g bs survives_fail' [OF s] show ?thesis
      by (simp add: nn_sws_acknowledge_close_handshake_def frame_sizes)
  qed
qed

text \<open>The second accident: the sizes of the fragments do not fit \<open>size_t\<close> any more.\<close>

definition sizes_wrap :: "nn_sws \<Rightarrow> nat \<Rightarrow> bool" where
  "sizes_wrap s len \<longleftrightarrow> 2 ^ 64 - 32 \<le> unat (inmsg_total_size s) + len"

definition mask_ok :: "nn_sws \<Rightarrow> bool" where
  "mask_ok s \<longleftrightarrow> (masked s \<longrightarrow> (\<exists>m. sws_mask s = Some m \<and> m + NN_SWS_FRAME_SIZE_MASK \<le> NN_SWS_FRAME_MAX_HDR_LEN))"

text \<open>
  The third: the limit lets a frame of this length pass, but there is no memory for it (see
  \<open>nn_msg_chunk_new\<close>).
\<close>

definition no_memory :: "nn_sws \<Rightarrow> u64 \<Rightarrow> bool" where
  "no_memory s len \<longleftrightarrow> (sws_rcvmaxsize s < 0 \<or> inmsg_total_size s + len \<le> word_of_int (sws_rcvmaxsize s))
     \<and> \<not> (sws_malloc s sizeof_msg_chunk \<and> chunkref_fits (sws_malloc s) len)"

text \<open>The frame has no extended header, so that its payload is asked for at once.\<close>

definition short_without_memory :: "nn_sws \<Rightarrow> bool" where
  "short_without_memory s \<longleftrightarrow> \<not> is_control_frame s \<and> ext_hdr_len s = 0 \<and> payload_ctl s \<noteq> 0 \<and> no_memory s (ucast (payload_ctl s))"

lemma survives_start_payload:
  assumes s: "frame_ok s" "mask_ok s" and len: "0 < unat (inmsg_current_chunk_len s)"
    "is_control_frame s \<Longrightarrow> unat (inmsg_current_chunk_len s) \<le> NN_SWS_PAYLOAD_MAX_LENGTH
      \<and> (sws_opcode s = NN_WS_OPCODE_CLOSE \<longrightarrow> NN_SWS_CLOSE_CODE_LEN \<le> unat (inmsg_current_chunk_len s))"
    and r: "length reason \<le> 60" and fits: "\<not> sizes_wrap s (unat (inmsg_current_chunk_len s))"
    and mem: "\<not> is_control_frame s \<Longrightarrow> \<not> no_memory s (inmsg_current_chunk_len s)"
  shows "sws_survives (sws_start_payload s reason)"
proof (cases "is_control_frame s")
  case True
  let ?s = "nn_usock_recv (s\<lparr>inmsg_current_chunk_buf := Some INMSG_CONTROL, instate := RECV_PAYLOAD\<rparr>)
    (BUF INMSG_CONTROL) (unat (inmsg_current_chunk_len s))"
  have "payload_inv ?s" using s len True
    by (simp add: payload_inv_def payload_pre_def nn_usock_recv_def frame_ok_def sws_base_def sws_sized_def data_frame_def control_frame_def
        chunk_ok_def mask_ok_def)
  moreover have "sws_start_payload s reason = Some ?s" using True by (simp add: sws_start_payload_def)
  ultimately show ?thesis by (simp add: sws_survives_def sws_inv_def)
next
  case False
  then have d: "data_frame s" using s(1) by (auto simp: frame_ok_def control_frame_def)
  let ?len = "inmsg_current_chunk_len s"
  let ?t = "s\<lparr>inmsg_total_size := inmsg_total_size s + ?len\<rparr>"
  have tot: "unat (inmsg_total_size s + ?len) = unat (inmsg_total_size s) + unat ?len"
    using fits unat_add_lem [of "inmsg_total_size s" ?len] by (simp add: sizes_wrap_def)
  show ?thesis
  proof (cases "sws_rcvmaxsize s \<ge> 0 \<and> inmsg_total_size s + ?len > word_of_int (sws_rcvmaxsize s)")
    case True
    have "sws_sized ?t" "sws_st ?t = SWS_ACTIVE" using s(1) by (simp_all add: frame_ok_def sws_base_def sws_sized_def)
    from survives_fail' [OF this r] True False show ?thesis by (simp add: sws_start_payload_def)
  next
    case no: False
    let ?s = "nn_usock_recv (?t\<lparr>inmsg_chunks := inmsg_chunks s + 1, inmsg_array := inmsg_array s @ [replicate (unat ?len) 0],
      inmsg_current_chunk_buf := Some MSG_CHUNK, instate := RECV_PAYLOAD\<rparr>) (BUF MSG_CHUNK) (unat ?len)"
    have "payload_inv ?s" using s len(1) d False tot
      by (simp add: payload_inv_def payload_pre_def nn_usock_recv_def frame_ok_def sws_base_def sws_sized_def data_frame_def control_frame_def
          chunk_ok_def mask_ok_def)
    moreover have "sws_start_payload s reason = Some ?s"
      using no False mem by (auto simp: sws_start_payload_def nn_msg_chunk_new_def no_memory_def Let_def)
    ultimately show ?thesis by (simp add: sws_survives_def sws_inv_def)
  qed
qed

lemma survives_header_rest:
  assumes s: "frame_ok s" and ext: "ext_hdr_len s = ext_size s" "ext_hdr_len s = 0 \<Longrightarrow> payload_ctl s \<noteq> 0"
    "NN_SWS_PAYLOAD_MAX_LENGTH < unat (payload_ctl s) \<Longrightarrow> payload_ctl s \<in> {NN_SWS_PAYLOAD_FRAME_16, NN_SWS_PAYLOAD_FRAME_63}"
    and fits: "\<not> sizes_wrap s (unat (payload_ctl s))" and mem: "\<not> short_without_memory s"
  shows "sws_survives (sws_header_rest s)"
proof (cases "ext_hdr_len s = 0")
  case True
  with ext(1) have m: "\<not> masked s" "unat (payload_ctl s) \<le> NN_SWS_PAYLOAD_MAX_LENGTH"
    by (auto simp: ext_size_def frame_sizes split: if_splits)
  then have c: "sws_mode s = NN_WS_CLIENT" using s by (cases "sws_mode s") (simp_all add: frame_ok_def)
  let ?s = "s\<lparr>inmsg_current_chunk_len := ucast (payload_ctl s)\<rparr>"
  have u: "unat (inmsg_current_chunk_len ?s) = unat (payload_ctl s)" by (simp add: unat_ucast_byte_up)
  have z: "0 < unat (payload_ctl s)" using ext(2) True by (simp add: unat_gt_0)
  have "frame_ok ?s" "mask_ok ?s" "\<not> sizes_wrap ?s (unat (inmsg_current_chunk_len ?s))"
    using s m(1) fits u by (simp_all add: frame_ok_def sws_base_def sws_sized_def data_frame_def control_frame_def mask_ok_def sizes_wrap_def)
  moreover have "unat (inmsg_current_chunk_len ?s) \<le> NN_SWS_PAYLOAD_MAX_LENGTH
      \<and> (sws_opcode ?s = NN_WS_OPCODE_CLOSE \<longrightarrow> NN_SWS_CLOSE_CODE_LEN \<le> unat (inmsg_current_chunk_len ?s))" if "is_control_frame ?s"
  proof -
    have "sws_opcode s = NN_WS_OPCODE_CLOSE \<longrightarrow> payload_ctl s \<noteq> 1"
      using s that by (auto simp: frame_ok_def control_frame_def data_frame_def ws_opcodes)
    moreover have "unat (payload_ctl s) = 1 \<longleftrightarrow> payload_ctl s = 1" by (simp add: word_unat_eq_iff)
    ultimately show ?thesis using m(2) z u by (auto simp: frame_sizes)
  qed
  moreover have "sws_header_rest s = sws_start_payload ?s ''Message larger than application allows.''"
    using True c m(2) z by (simp add: sws_header_rest_def word_less_nat_alt)
  moreover have "\<not> no_memory ?s (inmsg_current_chunk_len ?s)" if "\<not> is_control_frame ?s"
    using mem that True ext(2) by (auto simp: short_without_memory_def no_memory_def)
  ultimately show ?thesis using survives_start_payload [of ?s] z u by simp
next
  case False
  let ?s = "nn_usock_recv (s\<lparr>instate := RECV_HDREXT\<rparr>) (INHDR NN_SWS_FRAME_SIZE_INITIAL) (ext_hdr_len s)"
  have "ext_inv ?s" using s ext False
    by (simp add: ext_inv_def ext_pre_def nn_usock_recv_def frame_ok_def sws_base_def sws_sized_def data_frame_def control_frame_def ext_size_def)
  moreover have "sws_header_rest s = Some ?s" using False by (simp add: sws_header_rest_def)
  ultimately show ?thesis by (simp add: sws_survives_def sws_inv_def)
qed

section \<open>A header\<close>

lemma or_fin:
  "(b OR NN_SWS_FRAME_BITMASK_FIN) AND NN_SWS_FRAME_BITMASK_OPCODE = b AND NN_SWS_FRAME_BITMASK_OPCODE"
  "(b OR NN_SWS_FRAME_BITMASK_FIN) AND NN_SWS_FRAME_BITMASK_FIN \<noteq> 0"
  by (simp_all add: frame_bits bit.conj_disj_distrib2)

lemma data_hdr_or_fin: "data_hdr (b OR NN_SWS_FRAME_BITMASK_FIN) \<longleftrightarrow>
    b AND NN_SWS_FRAME_BITMASK_OPCODE \<in> {NN_WS_OPCODE_TEXT, NN_WS_OPCODE_BINARY}"
  unfolding data_hdr_def or_fin(1) using or_fin(2) by simp

text \<open>The opcode is one of a data frame and may come here.\<close>

definition takes_data :: "nn_sws \<Rightarrow> bool" where
  "takes_data s \<longleftrightarrow> (if continuing s then sws_opcode s = NN_WS_OPCODE_FRAGMENT
     else sws_opcode s = NN_WS_OPCODE_TEXT \<or> sws_opcode s = NN_WS_OPCODE_BINARY)"

text \<open>After the first two bytes, before the opcode is looked at.\<close>

definition opcode_pre :: "nn_sws \<Rightarrow> bool" where
  "opcode_pre s \<longleftrightarrow> sws_base s \<and> pb_instate (sws_pipebase s) = IN_ASYNC \<and> (masked s \<longleftrightarrow> sws_mode s = NN_WS_SERVER)
     \<and> (\<not> continuing s \<longrightarrow> inmsg_array s = [] \<and> sws_opcode s \<noteq> NN_WS_OPCODE_FRAGMENT
         \<and> inmsg_hdr s = inhdr s ! 0 OR NN_SWS_FRAME_BITMASK_FIN)
     \<and> sws_opcode s = inhdr s ! 0 AND NN_SWS_FRAME_BITMASK_OPCODE
     \<and> (is_final_frame s \<longleftrightarrow> inhdr s ! 0 AND NN_SWS_FRAME_BITMASK_FIN \<noteq> 0)
     \<and> ext_hdr_len s = ext_size s \<and> \<not> sizes_wrap s (unat (payload_ctl s))
     \<and> (NN_SWS_PAYLOAD_MAX_LENGTH < unat (payload_ctl s) \<longrightarrow> payload_ctl s \<in> {NN_SWS_PAYLOAD_FRAME_16, NN_SWS_PAYLOAD_FRAME_63})"

lemma survives_data_frame:
  assumes s: "frame_ok s" "data_frame s" and ext: "ext_hdr_len s = ext_size s"
    "NN_SWS_PAYLOAD_MAX_LENGTH < unat (payload_ctl s) \<longrightarrow> payload_ctl s \<in> {NN_SWS_PAYLOAD_FRAME_16, NN_SWS_PAYLOAD_FRAME_63}"
    and fits: "\<not> sizes_wrap s (unat (payload_ctl s))" and mem: "\<not> short_without_memory s"
  shows "sws_survives (sws_data_frame s)"
proof (cases "ext_hdr_len s = 0 \<and> payload_ctl s = 0")
  case True
  then have "\<not> masked s" using ext(1) by (auto simp: ext_size_def frame_sizes split: if_splits)
  then have c: "sws_mode s = NN_WS_CLIENT" using s by (cases "sws_mode s") (simp_all add: frame_ok_def)
  let ?s = "s\<lparr>inmsg_current_chunk_len := 0\<rparr>"
  have ok: "frame_ok ?s" "data_frame ?s"
    using s by (simp_all add: frame_ok_def sws_base_def sws_sized_def data_frame_def control_frame_def)
  have "continuing s \<longleftrightarrow> \<not> is_final_frame s" using s(2) by (simp add: data_frame_def)
  with True c have "sws_data_frame s = sws_chunk_done ?s" by (simp add: sws_data_frame_def sws_chunk_done_def)
  with survives_chunk_done [OF ok] show ?thesis by simp
next
  case False
  with survives_header_rest [OF s(1) ext(1) _ _ fits mem] ext(2) show ?thesis
    by (auto simp: sws_data_frame_def)
qed

lemma survives_ping_frame:
  assumes s: "opcode_pre s" "is_control_frame s" "sws_opcode s \<in> {NN_WS_OPCODE_PING, NN_WS_OPCODE_PONG}"
  shows "sws_survives (sws_ping_frame s)"
proof -
  have base: "sws_base s" and act: "sws_sized s" "sws_st s = SWS_ACTIVE" using s(1) by (simp_all add: opcode_pre_def sws_base_def)
  show ?thesis
  proof (cases "unat (payload_ctl s) \<le> NN_SWS_PAYLOAD_MAX_LENGTH \<and> is_final_frame s")
    case False
    with survives_fail' [OF act] show ?thesis by (auto simp: sws_ping_frame_def)
  next
    case True
    have h: "control_hdr (inhdr s ! 0)" using s True by (auto simp: opcode_pre_def control_hdr_def)
    then have ok: "frame_ok s" using s True by (auto simp: frame_ok_def opcode_pre_def control_frame_def)
    show ?thesis
    proof (cases "ext_hdr_len s = 0 \<and> payload_ctl s = 0")
      case zero: True
      let ?s = "s\<lparr>inmsg_current_chunk_len := 0, instate := RECVD_CONTROL\<rparr>"
      have "sws_base ?s" using base by (simp add: sws_base_def sws_sized_def)
      then have "sws_survives (sws_pipe_received ?s)"
        by (rule survives_received) (use s True h in \<open>auto simp: opcode_pre_def\<close>)
      with True zero show ?thesis by (simp add: sws_ping_frame_def)
    next
      case False
      with True have "sws_ping_frame s = sws_header_rest s" by (auto simp: sws_ping_frame_def)
      with survives_header_rest [OF ok] s(1,2) False show ?thesis by (auto simp: opcode_pre_def short_without_memory_def)
    qed
  qed
qed

lemma survives_close_frame:
  assumes s: "opcode_pre s" "is_control_frame s" "sws_opcode s = NN_WS_OPCODE_CLOSE"
  shows "sws_survives (sws_close_frame s)"
proof -
  have act: "sws_sized s" "sws_st s = SWS_ACTIVE" using s(1) by (simp_all add: opcode_pre_def sws_base_def)
  show ?thesis
  proof (cases "unat (payload_ctl s) \<le> NN_SWS_PAYLOAD_MAX_LENGTH \<and> is_final_frame s \<and> payload_ctl s \<noteq> 1")
    case False
    with survives_fail' [OF act] show ?thesis by (auto simp: sws_close_frame_def)
  next
    case True
    then have ok: "frame_ok s" using s by (auto simp: frame_ok_def opcode_pre_def control_frame_def)
    show ?thesis
    proof (cases "ext_hdr_len s = 0 \<and> payload_ctl s = 0")
      case zero: True
      let ?s = "s\<lparr>inmsg_current_chunk_len := 0\<rparr>"
      have "sws_survives (nn_sws_acknowledge_close_handshake ?s)"
        by (rule survives_close) (use act in \<open>simp_all add: sws_sized_def\<close>)
      with True zero show ?thesis by (simp add: sws_close_frame_def)
    next
      case False
      with True have "sws_close_frame s = sws_header_rest s" by (auto simp: sws_close_frame_def)
      with survives_header_rest [OF ok] s(1,2) False show ?thesis by (auto simp: opcode_pre_def short_without_memory_def)
    qed
  qed
qed

lemma opcode_pre_update:
  "opcode_pre s \<Longrightarrow> opcode_pre (s\<lparr>is_control_frame := c, pings_received := n\<rparr>)"
  "opcode_pre s \<Longrightarrow> opcode_pre (s\<lparr>is_control_frame := c, pongs_received := n\<rparr>)"
  "opcode_pre s \<Longrightarrow> opcode_pre (s\<lparr>is_control_frame := c\<rparr>)"
  by (auto simp: opcode_pre_def sws_base_def sws_sized_def ext_size_def sizes_wrap_def)

lemma short_without_memory_update [simp]:
  "short_without_memory (s\<lparr>is_control_frame := c, continuing := b\<rparr>) = short_without_memory (s\<lparr>is_control_frame := c\<rparr>)"
  by (simp add: short_without_memory_def no_memory_def)

lemma survives_frame_opcode:
  assumes s: "opcode_pre s" and mem: "takes_data s \<Longrightarrow> \<not> short_without_memory (s\<lparr>is_control_frame := False\<rparr>)"
  shows "sws_survives (sws_frame_opcode s)"
proof -
  have act: "sws_sized s" "sws_st s = SWS_ACTIVE" using s by (simp_all add: opcode_pre_def sws_base_def)
  consider (msg) "sws_opcode s \<in> {NN_WS_OPCODE_TEXT, NN_WS_OPCODE_BINARY}" | (fragment) "sws_opcode s = NN_WS_OPCODE_FRAGMENT"
    | (ping) "sws_opcode s = NN_WS_OPCODE_PING" | (pong) "sws_opcode s = NN_WS_OPCODE_PONG" | (close) "sws_opcode s = NN_WS_OPCODE_CLOSE"
    | (other) "sws_opcode s \<notin> {NN_WS_OPCODE_TEXT, NN_WS_OPCODE_BINARY, NN_WS_OPCODE_FRAGMENT, NN_WS_OPCODE_PING, NN_WS_OPCODE_PONG, NN_WS_OPCODE_CLOSE}"
    by blast
  then show ?thesis
  proof cases
    case msg
    show ?thesis
    proof (cases "continuing s")
      case True
      have "sws_sized (s\<lparr>is_control_frame := False\<rparr>)" using act by (simp add: sws_sized_def)
      from survives_fail' [OF this] act True msg show ?thesis by (auto simp: sws_frame_opcode_def)
    next
      case False
      let ?s = "if \<not> is_final_frame s then s\<lparr>is_control_frame := False, continuing := True\<rparr> else s\<lparr>is_control_frame := False\<rparr>"
      have d: "data_hdr (inmsg_hdr s)" using s False msg by (simp add: opcode_pre_def data_hdr_or_fin)
      have df: "data_frame ?s" using msg False d by (auto simp: data_frame_def)
      have "frame_ok ?s" using df s False d by (auto simp: frame_ok_def opcode_pre_def sws_base_def sws_sized_def)
      moreover have "sws_frame_opcode s = sws_data_frame ?s" using msg False by (auto simp: sws_frame_opcode_def)
      moreover have "sws_survives (sws_data_frame ?s)"
      proof (rule survives_data_frame [OF \<open>frame_ok ?s\<close> df])
        have "takes_data s" using msg False by (simp add: takes_data_def)
        from mem [OF this] show "\<not> short_without_memory ?s" by simp
      qed (use s in \<open>auto simp: opcode_pre_def ext_size_def sizes_wrap_def\<close>)
      ultimately show ?thesis by simp
    qed
  next
    case fragment
    then have c: "continuing s" using s by (auto simp: opcode_pre_def)
    let ?s = "s\<lparr>is_control_frame := False, continuing := \<not> is_final_frame s\<rparr>"
    have d: "data_hdr (inmsg_hdr s)" using s c by (simp add: opcode_pre_def sws_base_def)
    have df: "data_frame ?s" using fragment d by (auto simp: data_frame_def)
    have "frame_ok ?s" using df s d by (auto simp: frame_ok_def opcode_pre_def sws_base_def sws_sized_def)
    moreover have "sws_frame_opcode s = sws_data_frame ?s" using fragment by (auto simp: sws_frame_opcode_def ws_opcodes)
    moreover have "sws_survives (sws_data_frame ?s)"
    proof (rule survives_data_frame [OF \<open>frame_ok ?s\<close> df])
      have "takes_data s" using fragment c by (simp add: takes_data_def)
      from mem [OF this] show "\<not> short_without_memory ?s" by simp
    qed (use s in \<open>auto simp: opcode_pre_def ext_size_def sizes_wrap_def\<close>)
    ultimately show ?thesis by simp
  next
    case ping
    with survives_ping_frame [OF opcode_pre_update(1) [OF s, where c = True and n = "pings_received s + 1"]] show ?thesis
      by (simp add: sws_frame_opcode_def ws_opcodes)
  next
    case pong
    with survives_ping_frame [OF opcode_pre_update(2) [OF s, where c = True and n = "pongs_received s + 1"]] show ?thesis
      by (simp add: sws_frame_opcode_def ws_opcodes)
  next
    case close
    with survives_close_frame [OF opcode_pre_update(3) [OF s, where c = True]] show ?thesis
      by (simp add: sws_frame_opcode_def ws_opcodes)
  next
    case other
    with survives_fail' [OF act] show ?thesis by (simp add: sws_frame_opcode_def)
  qed
qed

lemma length_field: "unat (b AND NN_SWS_FRAME_BITMASK_LENGTH) \<le> 127" for b :: byte
proof -
  have "b AND NN_SWS_FRAME_BITMASK_LENGTH \<le> NN_SWS_FRAME_BITMASK_LENGTH" by (rule word_and_le1)
  then show ?thesis by (simp add: word_le_nat_alt NN_SWS_FRAME_BITMASK_LENGTH_def)
qed

lemma long_length_field:
  "NN_SWS_PAYLOAD_MAX_LENGTH < unat (b AND NN_SWS_FRAME_BITMASK_LENGTH) \<longleftrightarrow>
     b AND NN_SWS_FRAME_BITMASK_LENGTH \<in> {NN_SWS_PAYLOAD_FRAME_16, NN_SWS_PAYLOAD_FRAME_63}" for b :: byte
proof -
  let ?n = "unat (b AND NN_SWS_FRAME_BITMASK_LENGTH)"
  have "125 < ?n \<longleftrightarrow> ?n = 126 \<or> ?n = 127" using length_field [of b] by linarith
  then show ?thesis by (simp add: NN_SWS_PAYLOAD_MAX_LENGTH_def NN_SWS_PAYLOAD_FRAME_16_def NN_SWS_PAYLOAD_FRAME_63_def word_unat_eq_iff)
qed

text \<open>The same, from the first two bytes: they announce a data frame that may come here, with a length from 1 to 125.\<close>

definition data_first :: "nn_sws \<Rightarrow> byte \<Rightarrow> bool" where
  "data_first s b0 \<longleftrightarrow> (let op = b0 AND NN_SWS_FRAME_BITMASK_OPCODE in
     if continuing s then op = NN_WS_OPCODE_FRAGMENT else op = NN_WS_OPCODE_TEXT \<or> op = NN_WS_OPCODE_BINARY)"

definition short_refused :: "nn_sws \<Rightarrow> byte \<Rightarrow> bool" where
  "short_refused s l \<longleftrightarrow> l \<noteq> 0 \<and> unat l \<le> NN_SWS_PAYLOAD_MAX_LENGTH \<and> no_memory s (ucast l)"

lemma survives_frame_length:
  assumes s: "sws_base s" "pb_instate (sws_pipebase s) = IN_ASYNC" "masked s \<longleftrightarrow> sws_mode s = NN_WS_SERVER"
      "\<not> continuing s \<longrightarrow> inmsg_array s = []" "ext_hdr_len s = (if masked s then NN_SWS_FRAME_SIZE_MASK else 0)"
      "is_final_frame s \<longleftrightarrow> inhdr s ! 0 AND NN_SWS_FRAME_BITMASK_FIN \<noteq> 0"
    and fits: "\<not> sizes_wrap s (unat (b1 AND NN_SWS_FRAME_BITMASK_LENGTH))"
    and mem: "\<not> masked s \<Longrightarrow> data_first s (inhdr s ! 0) \<Longrightarrow> \<not> short_refused s (b1 AND NN_SWS_FRAME_BITMASK_LENGTH)"
  shows "sws_survives (sws_frame_length s (inhdr s ! 0) b1)"
proof -
  let ?b0 = "inhdr s ! 0"
  let ?t = "s\<lparr>sws_opcode := ?b0 AND NN_SWS_FRAME_BITMASK_OPCODE, payload_ctl := b1 AND NN_SWS_FRAME_BITMASK_LENGTH\<rparr>"
  have act: "sws_sized ?t" "sws_st ?t = SWS_ACTIVE" using s(1) by (simp_all add: sws_base_def sws_sized_def)
  show ?thesis
  proof (cases "\<not> continuing s \<and> ?b0 AND NN_SWS_FRAME_BITMASK_OPCODE = NN_WS_OPCODE_FRAGMENT")
    case True
    with survives_fail' [OF act] show ?thesis by (simp add: sws_frame_length_def)
  next
    case False
    let ?u = "if continuing s then ?t else ?t\<lparr>inmsg_hdr := ?b0 OR NN_SWS_FRAME_BITMASK_FIN\<rparr>"
    let ?v = "?u\<lparr>ext_hdr_len := ext_size ?u\<rparr>"
    have ctl: "payload_ctl ?u = b1 AND NN_SWS_FRAME_BITMASK_LENGTH" by simp
    have "opcode_pre ?v"
      using s False fits long_length_field [of b1]
      by (auto simp: opcode_pre_def sws_base_def sws_sized_def ext_size_def sizes_wrap_def)
    moreover have "\<not> short_without_memory (?v\<lparr>is_control_frame := False\<rparr>)" if t: "takes_data ?v"
    proof
      assume "short_without_memory (?v\<lparr>is_control_frame := False\<rparr>)"
      then have w: "ext_size ?u = 0" "payload_ctl ?u \<noteq> 0" "no_memory s (ucast (payload_ctl ?u))"
        by (simp_all add: short_without_memory_def no_memory_def split: if_splits)
      from w(1) ctl have "\<not> masked s" "short_refused s (b1 AND NN_SWS_FRAME_BITMASK_LENGTH)"
        using w(2,3) by (auto simp: ext_size_def short_refused_def frame_sizes split: if_splits)
      moreover have "data_first s ?b0" using t by (simp add: takes_data_def data_first_def split: if_splits)
      ultimately show False using mem by blast
    qed
    ultimately have "sws_survives (sws_frame_opcode ?v)" by (rule survives_frame_opcode)
    moreover have "sws_frame_length s ?b0 b1 = sws_frame_opcode ?v"
    proof -
      let ?k = "if unat (b1 AND NN_SWS_FRAME_BITMASK_LENGTH) \<le> NN_SWS_PAYLOAD_MAX_LENGTH then NN_SWS_FRAME_SIZE_PAYLOAD_0
        else if b1 AND NN_SWS_FRAME_BITMASK_LENGTH = NN_SWS_PAYLOAD_FRAME_16 then NN_SWS_FRAME_SIZE_PAYLOAD_16
        else NN_SWS_FRAME_SIZE_PAYLOAD_63"
      have "sws_frame_length s ?b0 b1 = sws_frame_opcode (?u\<lparr>ext_hdr_len := ext_hdr_len ?u + ?k\<rparr>)"
        using False long_length_field [of b1] by (simp add: sws_frame_length_def Let_def) auto
      moreover have "ext_hdr_len ?u + ?k = ext_size ?u" using s(5) by (simp add: ext_size_def frame_sizes)
      ultimately show ?thesis by simp
    qed
    ultimately show ?thesis by simp
  qed
qed

definition header_refused :: "nn_sws \<Rightarrow> bool" where
  "header_refused s \<longleftrightarrow> sws_mode s = NN_WS_CLIENT \<and> inhdr s ! 1 AND NN_SWS_FRAME_BITMASK_MASKED = 0
     \<and> inhdr s ! 0 AND NN_SWS_FRAME_BITMASK_RSV1 = 0 \<and> inhdr s ! 0 AND NN_SWS_FRAME_BITMASK_RSV2 = 0
     \<and> inhdr s ! 0 AND NN_SWS_FRAME_BITMASK_RSV3 = 0
     \<and> data_first s (inhdr s ! 0) \<and> short_refused s (inhdr s ! 1 AND NN_SWS_FRAME_BITMASK_LENGTH)"

lemma no_memory_update [simp]:
  "no_memory (s\<lparr>is_final_frame := a, masked := b, ext_hdr_len := c\<rparr>) l = no_memory s l"
  "no_memory (s\<lparr>is_final_frame := a, masked := b\<rparr>) l = no_memory s l"
  by (simp_all add: no_memory_def)

lemma survives_received_hdr:
  assumes s: "sws_base s" "pb_instate (sws_pipebase s) = IN_ASYNC" "\<not> continuing s \<longrightarrow> inmsg_array s = []"
    and fits: "\<not> sizes_wrap s (unat (inhdr s ! 1 AND NN_SWS_FRAME_BITMASK_LENGTH))" and mem: "\<not> header_refused s"
  shows "sws_survives (sws_received_hdr s)"
proof -
  have act: "sws_sized s" "sws_st s = SWS_ACTIVE" and l: "length (inhdr s) = 14"
    using s(1) by (simp_all add: sws_base_def sws_sized_def frame_sizes)
  let ?b0 = "inhdr s ! 0" and ?b1 = "inhdr s ! 1"
  let ?t = "s\<lparr>is_final_frame := ?b0 AND NN_SWS_FRAME_BITMASK_FIN \<noteq> 0, masked := ?b1 AND NN_SWS_FRAME_BITMASK_MASKED \<noteq> 0\<rparr>"
  have actt: "sws_sized ?t" "sws_st ?t = SWS_ACTIVE" using act by (simp_all add: sws_sized_def)
  have p: "peek (inhdr s) 0 = Some ?b0" "peek (inhdr s) 1 = Some ?b1" using l by (simp_all add: peek_def)
  show ?thesis
  proof (cases "?b0 AND NN_SWS_FRAME_BITMASK_RSV1 \<noteq> 0 \<or> ?b0 AND NN_SWS_FRAME_BITMASK_RSV2 \<noteq> 0 \<or> ?b0 AND NN_SWS_FRAME_BITMASK_RSV3 \<noteq> 0")
    case True
    with survives_fail' [OF act] p show ?thesis by (simp add: sws_received_hdr_def)
  next
    case False
    show ?thesis
    proof (cases "(?b1 AND NN_SWS_FRAME_BITMASK_MASKED \<noteq> 0) \<longleftrightarrow> sws_mode s = NN_WS_SERVER")
      case True
      let ?u = "?t\<lparr>ext_hdr_len := if masked ?t then NN_SWS_FRAME_SIZE_MASK else 0\<rparr>"
      have "sws_survives (sws_frame_length ?u (inhdr ?u ! 0) ?b1)"
        by (rule survives_frame_length)
          (use s fits True False mem in \<open>auto simp: sws_base_def sws_sized_def sizes_wrap_def header_refused_def
              data_first_def short_refused_def Let_def intro: sws_mode.exhaust\<close>)
      moreover have "sws_received_hdr s = sws_frame_length ?u ?b0 ?b1"
        using False True p by (cases "sws_mode s") (simp_all add: sws_received_hdr_def)
      ultimately show ?thesis by simp
    next
      case no: False
      then have "\<exists>r. sws_received_hdr s = nn_sws_fail_conn ?t NN_SWS_CLOSE_ERR_PROTO r \<and> length r \<le> 60"
        using False p by (cases "sws_mode s") (auto simp: sws_received_hdr_def)
      with survives_fail' [OF actt] show ?thesis by auto
    qed
  qed
qed

section \<open>An extended header\<close>

lemma extended_length_ok:
  assumes s: "ext_pre s"
  shows "\<exists>t. sws_extended_length s = Some (Some t) \<and> frame_ok t \<and> mask_ok t \<and>
    (is_control_frame t \<longrightarrow> unat (inmsg_current_chunk_len t) \<le> NN_SWS_PAYLOAD_MAX_LENGTH
      \<and> (sws_opcode t = NN_WS_OPCODE_CLOSE \<longrightarrow> inmsg_current_chunk_len t = 0 \<or> NN_SWS_CLOSE_CODE_LEN \<le> unat (inmsg_current_chunk_len t)))
    \<and> inmsg_total_size t = inmsg_total_size s"
proof -
  have l: "length (inhdr s) = 14" and f: "frame_ok s" using s by (simp_all add: ext_inv_def ext_pre_def frame_ok_def sws_base_def sws_sized_def frame_sizes)
  have upd: "frame_ok (s\<lparr>inmsg_current_chunk_len := n, sws_mask := m\<rparr>)" for n m
    using f by (simp add: frame_ok_def sws_base_def sws_sized_def data_frame_def control_frame_def)
  have ctl: "is_control_frame s \<Longrightarrow> unat (payload_ctl s) \<le> NN_SWS_PAYLOAD_MAX_LENGTH \<and>
      (sws_opcode s = NN_WS_OPCODE_CLOSE \<longrightarrow> payload_ctl s \<noteq> 1)"
    using f by (auto simp: frame_ok_def control_frame_def data_frame_def ws_opcodes)
  consider (small) "unat (payload_ctl s) \<le> NN_SWS_PAYLOAD_MAX_LENGTH"
    | (f16) "NN_SWS_PAYLOAD_MAX_LENGTH < unat (payload_ctl s)" "payload_ctl s = NN_SWS_PAYLOAD_FRAME_16"
    | (f63) "NN_SWS_PAYLOAD_MAX_LENGTH < unat (payload_ctl s)" "payload_ctl s = NN_SWS_PAYLOAD_FRAME_63"
    using s unfolding ext_inv_def ext_pre_def by fastforce
  then show ?thesis
  proof cases
    case small
    have "payload_ctl s = 0 \<or> 2 \<le> unat (payload_ctl s)" if "payload_ctl s \<noteq> 1"
    proof -
      have "unat (payload_ctl s) \<noteq> 1" using that by (simp add: word_unat_eq_iff)
      then have "unat (payload_ctl s) = 0 \<or> 2 \<le> unat (payload_ctl s)" by linarith
      then show ?thesis by (simp add: unat_eq_zero)
    qed
    then show ?thesis using small ctl upd
      by (auto simp: sws_extended_length_def mask_ok_def frame_sizes unat_ucast_byte_up)
  next
    case f16
    then show ?thesis using ctl upd l
      by (auto simp: sws_extended_length_def mask_ok_def frame_sizes nn_gets_eq)
  next
    case f63
    have "NN_SWS_PAYLOAD_FRAME_63 \<noteq> NN_SWS_PAYLOAD_FRAME_16" by (simp add: frame_bits)
    then show ?thesis using f63 ctl upd l
      by (auto simp: sws_extended_length_def mask_ok_def frame_sizes nn_getll_eq)
  qed
qed

lemma survives_received_hdrext:
  assumes s: "ext_pre s" and t: "sws_extended_length s = Some (Some t)"
    and fits: "\<not> sizes_wrap s (unat (inmsg_current_chunk_len t))"
    and mem: "inmsg_current_chunk_len t \<noteq> 0 \<Longrightarrow> \<not> is_control_frame t \<Longrightarrow> \<not> no_memory t (inmsg_current_chunk_len t)"
  shows "sws_survives (sws_received_hdrext s)"
proof -
  from extended_length_ok [OF s] t have ok: "frame_ok t" "mask_ok t" and tot: "inmsg_total_size t = inmsg_total_size s"
    and c: "is_control_frame t \<Longrightarrow> unat (inmsg_current_chunk_len t) \<le> NN_SWS_PAYLOAD_MAX_LENGTH
      \<and> (sws_opcode t = NN_WS_OPCODE_CLOSE \<longrightarrow> inmsg_current_chunk_len t = 0 \<or> NN_SWS_CLOSE_CODE_LEN \<le> unat (inmsg_current_chunk_len t))"
    by auto
  have act: "sws_sized t" "sws_st t = SWS_ACTIVE" using ok by (simp_all add: frame_ok_def sws_base_def)
  have e: "ext_hdr_len s \<noteq> 0" using s by (simp add: ext_inv_def ext_pre_def)
  show ?thesis
  proof (cases "inmsg_current_chunk_len t = 0")
    case False
    then have "0 < unat (inmsg_current_chunk_len t)" by (simp add: unat_gt_0)
    from survives_start_payload [OF ok this] c False fits e t tot mem show ?thesis
      by (simp add: sws_received_hdrext_def sizes_wrap_def)
  next
    case zero: True
    show ?thesis
    proof (cases "is_final_frame t")
      case False
      then have d: "data_frame t" using ok(1) by (auto simp: frame_ok_def control_frame_def)
      from survives_data_header [OF ok(1) d False] False zero e t show ?thesis by (simp add: sws_received_hdrext_def)
    next
      case final: True
      show ?thesis
      proof (cases "sws_opcode t = NN_WS_OPCODE_CLOSE")
        case True
        have "sws_survives (nn_sws_acknowledge_close_handshake t)" by (rule survives_close [OF act]) (simp add: zero)
        with True final zero e t show ?thesis by (simp add: sws_received_hdrext_def)
      next
        case False
        let ?t = "t\<lparr>instate := if is_control_frame t then RECVD_CONTROL else RECVD_CHUNKED\<rparr>"
        have base: "sws_base ?t" using ok(1) by (simp add: frame_ok_def sws_base_def sws_sized_def)
        have "sws_survives (sws_pipe_received ?t)"
          by (rule survives_received [OF base])
            (use ok(1) final zero False in \<open>auto simp: frame_ok_def data_frame_def control_frame_def\<close>)
        with False final zero e t show ?thesis by (simp add: sws_received_hdrext_def)
      qed
    qed
  qed
qed

section \<open>A payload\<close>

text \<open>The loop over the mask counts with 32 bits: it ends for less than \<open>2 ^ 32\<close> bytes.\<close>

lemma unmask_ok:
  assumes s: "frame_ok s" "chunk_ok s" "mask_ok s" and len: "masked s \<Longrightarrow> unat (inmsg_current_chunk_len s) < 2 ^ 32"
  shows "\<exists>t. sws_unmask s = Some t \<and> frame_ok t \<and> chunk_ok t \<and> inmsg_current_chunk_len t = inmsg_current_chunk_len s
    \<and> sws_opcode t = sws_opcode s \<and> is_control_frame t = is_control_frame s \<and> inmsg_hdr t = inmsg_hdr s"
proof (cases "masked s")
  case False
  then show ?thesis using s by (simp add: sws_unmask_def)
next
  case True
  then obtain m where m: "sws_mask s = Some m" "m + 4 \<le> 14" using s(3) by (auto simp: mask_ok_def frame_sizes)
  have sized: "sws_sized s" using s(1) by (simp add: frame_ok_def sws_base_def)
  then have l: "length (inhdr s) = 14" "length (inmsg_control s) = 125" by (simp_all add: sws_sized_def frame_sizes)
  obtain bs where bs: "chunk_bytes_at s = Some bs" "length bs = unat (inmsg_current_chunk_len s)"
    using chunk_bytes_ok [OF s(2) sized] by blast
  define p where "p = mask_bytes (slice m 4 (inhdr s)) 0 bs"
  have lp: "length p = unat (inmsg_current_chunk_len s)" using bs by (simp add: p_def)
  have "slice m 4 (inhdr s) \<noteq> []" using m l(1) by (simp add: slice_def)
  with m l bs len [OF True] True have un: "sws_unmask s = store_chunk s p"
    by (simp add: sws_unmask_def frame_sizes nn_sws_mask_payload_def p_def)
  show ?thesis
  proof (cases "is_control_frame s")
    case True
    then have b: "inmsg_current_chunk_buf s = Some INMSG_CONTROL" "unat (inmsg_current_chunk_len s) \<le> 125"
      using s(2) by (simp_all add: chunk_ok_def frame_sizes)
    let ?t = "s\<lparr>inmsg_control := overwrite (inmsg_control s) 0 p\<rparr>"
    have "store_chunk s p = Some ?t" using b l lp by (simp add: store_chunk_def poke_def)
    moreover have "frame_ok ?t" "chunk_ok ?t" using s b l lp True
      by (auto simp: frame_ok_def sws_base_def sws_sized_def data_frame_def control_frame_def chunk_ok_def length_overwrite)
    ultimately show ?thesis using un by simp
  next
    case False
    then have b: "inmsg_current_chunk_buf s = Some MSG_CHUNK" "inmsg_array s \<noteq> []"
        "length (last (inmsg_array s)) = unat (inmsg_current_chunk_len s)"
      using s(2) by (simp_all add: chunk_ok_def)
    have d: "data_frame s" using s(1) False by (auto simp: frame_ok_def control_frame_def)
    let ?t = "s\<lparr>inmsg_array := butlast (inmsg_array s) @ [p]\<rparr>"
    have "length (concat (butlast (inmsg_array s) @ [last (inmsg_array s)])) = length (concat (butlast (inmsg_array s) @ [p]))"
      using lp b(3) by simp
    then have c: "length (concat (inmsg_array s)) = length (concat (butlast (inmsg_array s) @ [p]))"
      using b(2) by simp
    have "overwrite (last (inmsg_array s)) 0 p = p" using lp b(3) by (simp add: overwrite_def)
    then have "store_chunk s p = Some ?t" using b lp by (simp add: store_chunk_def poke_def)
    moreover have "frame_ok ?t" "chunk_ok ?t" using s d b lp False c
      by (auto simp: frame_ok_def sws_base_def sws_sized_def data_frame_def control_frame_def chunk_ok_def)
    ultimately show ?thesis using un by simp
  qed
qed

lemma survives_received_payload:
  assumes s: "payload_pre s" and fits: "masked s \<Longrightarrow> unat (inmsg_current_chunk_len s) < 2 ^ 32"
  shows "sws_survives (sws_received_payload s) \<or> (\<exists>t. sws_unmask s = Some t \<and> in_text t \<and> completes_four t)"
proof -
  have p: "frame_ok s" "chunk_ok s" "mask_ok s" using s(1) by (simp_all add: payload_inv_def payload_pre_def mask_ok_def)
  from unmask_ok [OF p fits] obtain t where t: "sws_unmask s = Some t" "frame_ok t" "chunk_ok t"
      "inmsg_current_chunk_len t = inmsg_current_chunk_len s" "sws_opcode t = sws_opcode s" by blast
  have act: "sws_sized t" "sws_st t = SWS_ACTIVE" using t(2) by (simp_all add: frame_ok_def sws_base_def)
  have len: "0 < unat (inmsg_current_chunk_len t)" using s t(4) by (simp add: payload_inv_def payload_pre_def)
  show ?thesis
  proof (cases "is_control_frame t")
    case True
    then have c: "control_frame t" using t(2) by (auto simp: frame_ok_def data_frame_def)
    show ?thesis
    proof (cases "sws_opcode t = NN_WS_OPCODE_CLOSE")
      case close: True
      have "sws_survives (nn_sws_acknowledge_close_handshake t)"
        by (rule survives_close [OF act]) (use t(3) True close in simp)
      with close t(1) show ?thesis by (simp add: sws_received_payload_def ws_opcodes)
    next
      case False
      then have pp: "sws_opcode t \<in> {NN_WS_OPCODE_PING, NN_WS_OPCODE_PONG}" using c by (auto simp: control_frame_def)
      let ?t = "t\<lparr>instate := RECVD_CONTROL\<rparr>"
      have base: "sws_base ?t" using t(2) by (simp add: frame_ok_def sws_base_def sws_sized_def)
      have "sws_survives (sws_pipe_received ?t)"
        by (rule survives_received [OF base])
          (use t(2,3) c False True in \<open>auto simp: frame_ok_def control_frame_def chunk_ok_def\<close>)
      with pp t(1) show ?thesis by (auto simp: sws_received_payload_def ws_opcodes)
    qed
  next
    case False
    then have d: "data_frame t" using t(2) by (auto simp: frame_ok_def control_frame_def)
    have "sws_received_payload s = nn_sws_validate_utf8_chunk t \<and> in_text t \<or> sws_received_payload s = sws_chunk_done t"
      using d t(1) by (auto simp: data_frame_def sws_received_payload_def in_text_def ws_opcodes)
    with survives_validate [OF t(2) d t(3) len] survives_chunk_done [OF t(2) d] t(1) show ?thesis by auto
  qed
qed

end
