(* ===== verification/NN_Sws_Session.thy ===== *)
theory NN_Sws_Session
  imports NN_Sws_Inv
begin

text \<open>
  The runs of a WebSocket session, from its initialisation: what the peer sends, the user takes and
  sends, and the socket reports, while the memory that \<open>malloc\<close> can give changes. The invariant holds in every active state of them; what follows is
  what a peer can and cannot make the session do, and what becomes of a session that is used for a
  second connection.
\<close>

unbundle bit_operations_syntax

section \<open>Steps\<close>

text \<open>The bytes asked for arrive.\<close>

definition sws_deliver :: "(nn_pipebase \<Rightarrow> int) \<Rightarrow> nn_sws \<Rightarrow> byte list \<Rightarrow> nn_sws option" where
  "sws_deliver add s bs = do { s \<leftarrow> usock_fill s bs; nn_sws_handler add s NN_USOCK_RECEIVED }"

text \<open>\<open>nn_pipe_recv\<close> and \<open>nn_pipe_send\<close> on the pipe of the session, which completes later.\<close>

definition sws_pipe_recv :: "byte list \<Rightarrow> nn_sws \<Rightarrow> (msg \<times> nn_sws) option" where
  "sws_pipe_recv fresh s = (
     if pb_instate (sws_pipebase s) \<noteq> IN_IDLE then None
     else do {
       (rc, m, s) \<leftarrow> nn_sws_recv fresh (s\<lparr>sws_pipebase := (sws_pipebase s)\<lparr>pb_instate := IN_RECEIVING\<rparr>\<rparr>);
       Some (m, s\<lparr>sws_pipebase := (sws_pipebase s)\<lparr>pb_instate := IN_ASYNC\<rparr>\<rparr>) })"

definition sws_pipe_send :: "msg \<Rightarrow> nn_sws \<Rightarrow> nn_sws option" where
  "sws_pipe_send m s = (
     if pb_outstate (sws_pipebase s) \<noteq> OUT_IDLE then None
     else do {
       (rc, s) \<leftarrow> nn_sws_send (s\<lparr>sws_pipebase := (sws_pipebase s)\<lparr>pb_outstate := OUT_SENDING\<rparr>\<rparr>) m;
       Some (s\<lparr>sws_pipebase := (sws_pipebase s)\<lparr>pb_outstate := OUT_ASYNC\<rparr>\<rparr>) })"

text \<open>The connection comes up: the handshake succeeds and its state machine has stopped.\<close>

definition sws_connect :: "(nn_pipebase \<Rightarrow> int) \<Rightarrow> nn_sws \<Rightarrow> sws_mode \<Rightarrow> byte \<Rightarrow> nn_sws option" where
  "sws_connect add s mode msg_type = do {
     s \<leftarrow> nn_sws_start add s mode msg_type;
     s \<leftarrow> nn_sws_handler add s NN_WS_HANDSHAKE_OK;
     nn_sws_handler add s NN_WS_HANDSHAKE_STOPPED }"

text \<open>A session with fragments the machine has no memory for.\<close>

definition sws_huge :: "nn_sws \<Rightarrow> bool" where
  "sws_huge s \<longleftrightarrow> 2 ^ 63 \<le> length (concat (inmsg_array s))"

text \<open>
  The states of a session on its first connection. \<open>m\<close> is the memory of the structure, whose arrays
  have the lengths of their declarations.
\<close>

inductive session :: "(nn_pipebase \<Rightarrow> int) \<Rightarrow> nn_sws \<Rightarrow> bool" for add where
  session_start: "sws_sized m \<Longrightarrow> sws_connect add (nn_sws_init sp rp m) mode t = Some s \<Longrightarrow> session add s"
| session_bytes: "session add s \<Longrightarrow> sws_deliver add s bs = Some s' \<Longrightarrow> \<not> sws_huge s' \<Longrightarrow> session add s'"
| session_recv: "session add s \<Longrightarrow> sws_pipe_recv fresh s = Some (m, s') \<Longrightarrow> session add s'"
| session_send: "session add s \<Longrightarrow> sws_pipe_send m s = Some s' \<Longrightarrow> session add s'"
| session_memory: "session add s \<Longrightarrow> session add (s\<lparr>sws_malloc := f\<rparr>)"
| session_event: "session add s \<Longrightarrow> e \<noteq> NN_USOCK_RECEIVED \<Longrightarrow> nn_sws_handler add s e = Some s' \<Longrightarrow> session add s'"

section \<open>The invariant holds\<close>

lemma usock_fill_fields:
  "usock_fill s bs = Some t \<Longrightarrow> sws_st t = sws_st s \<and> instate t = instate s \<and> sws_pipebase t = sws_pipebase s
    \<and> continuing t = continuing s \<and> sws_receiving t = None \<and> inmsg_total_size t = inmsg_total_size s"
  by (cases "sws_receiving s") (auto simp: usock_fill_def Let_def split: if_splits sws_target.splits sws_buf.splits prod.splits)

section \<open>Where a peer can make the session fail\<close>

text \<open>
  The bytes have arrived. A frame that is not a control frame needs a chunk, which is asked for with
  the header if it has no extended length or mask, and else with the extended header; there may be no
  memory for it. A masked payload of \<open>2 ^ 32\<close> bytes or more is never unmasked, and a four byte code
  point that began in an earlier frame fails an assertion.
\<close>

definition refused :: "nn_sws \<Rightarrow> bool" where
  "refused s \<longleftrightarrow> \<not> is_control_frame s \<and> inmsg_current_chunk_len s \<noteq> 0 \<and> no_memory s (inmsg_current_chunk_len s)"

definition sws_crash :: "nn_sws \<Rightarrow> bool" where
  "sws_crash s \<longleftrightarrow> (case instate s of
       RECV_HDR \<Rightarrow> header_refused s
     | RECV_HDREXT \<Rightarrow> (case sws_extended_length s of Some (Some t) \<Rightarrow> refused t | _ \<Rightarrow> False)
     | RECV_PAYLOAD \<Rightarrow> masked s \<and> 2 ^ 32 \<le> unat (inmsg_current_chunk_len s)
         \<or> in_text s \<and> (case sws_unmask s of Some t \<Rightarrow> completes_four t | None \<Rightarrow> False)
     | _ \<Rightarrow> False)"

definition sws_goes_on :: "nn_sws option \<Rightarrow> bool" where
  "sws_goes_on r \<longleftrightarrow> sws_survives r \<or> (\<exists>s. r = Some s \<and> sws_huge s)"

lemma start_payload_cases:
  assumes s: "frame_ok s" "mask_ok s" and len: "0 < unat (inmsg_current_chunk_len s)"
    "is_control_frame s \<Longrightarrow> unat (inmsg_current_chunk_len s) \<le> NN_SWS_PAYLOAD_MAX_LENGTH
      \<and> (sws_opcode s = NN_WS_OPCODE_CLOSE \<longrightarrow> NN_SWS_CLOSE_CODE_LEN \<le> unat (inmsg_current_chunk_len s))"
    and r: "length reason \<le> 60" and small: "\<not> sws_huge s"
  shows "if refused s then sws_start_payload s reason = None else sws_goes_on (sws_start_payload s reason)"
proof (cases "refused s")
  case True
  then show ?thesis by (auto simp: refused_def no_memory_def sws_start_payload_def nn_msg_chunk_new_def Let_def not_less)
next
  case mem: False
  have act: "sws_sized s" "sws_st s = SWS_ACTIVE" and tot: "unat (inmsg_total_size s) = length (concat (inmsg_array s))"
    using s(1) by (simp_all add: frame_ok_def sws_base_def)
  let ?len = "inmsg_current_chunk_len s"
  have nz: "?len \<noteq> 0" using len(1) by auto
  have "sws_goes_on (sws_start_payload s reason)"
  proof (cases "sizes_wrap s (unat ?len)")
    case False
    have "\<not> is_control_frame s \<Longrightarrow> \<not> no_memory s ?len" using mem nz by (simp add: refused_def)
    with survives_start_payload [OF s len r False] show ?thesis by (simp add: sws_goes_on_def)
  next
    case True
    then have w: "2 ^ 64 - 32 \<le> length (concat (inmsg_array s)) + unat ?len" using tot by (simp add: sizes_wrap_def)
    then have ctl: "\<not> is_control_frame s" using len(2) small by (auto simp: sws_huge_def frame_sizes)
    let ?t = "s\<lparr>inmsg_total_size := inmsg_total_size s + ?len\<rparr>"
    show ?thesis
    proof (cases "sws_rcvmaxsize s \<ge> 0 \<and> inmsg_total_size s + ?len > word_of_int (sws_rcvmaxsize s)")
      case True
      have "sws_sized ?t" "sws_st ?t = SWS_ACTIVE" using act by (simp_all add: sws_sized_def)
      from survives_fail' [OF this r] True ctl show ?thesis
        by (auto simp: sws_start_payload_def sws_goes_on_def Let_def)
    next
      case no: False
      have "\<exists>s'. sws_start_payload s reason = Some s' \<and> inmsg_array s' = inmsg_array s @ [replicate (unat ?len) 0]"
        using no ctl mem nz by (auto simp: sws_start_payload_def nn_msg_chunk_new_def nn_usock_recv_def refused_def no_memory_def Let_def not_less)
      with w show ?thesis by (auto simp: sws_goes_on_def sws_huge_def)
    qed
  qed
  with mem show ?thesis by simp
qed

text \<open>The first two bytes announce a frame for which there is no memory.\<close>

lemma received_hdr_refused:
  assumes s: "sws_base s" and h: "header_refused s"
  shows "sws_received_hdr s = None"
proof -
  have "length (inhdr s) = 14" using s by (simp add: sws_base_def sws_sized_def frame_sizes)
  then have p: "peek (inhdr s) 0 = Some (inhdr s ! 0)" "peek (inhdr s) 1 = Some (inhdr s ! 1)" by (simp_all add: peek_def)
  let ?l = "inhdr s ! 1 AND NN_SWS_FRAME_BITMASK_LENGTH"
  have l: "?l \<noteq> 0" "unat ?l \<le> 125" "0 < ?l" using h by (auto simp: header_refused_def short_refused_def frame_sizes word_gt_0)
  have mem: "no_memory s (ucast ?l)" using h by (simp add: header_refused_def short_refused_def)
  have none: "sws_start_payload t reason = None"
    if "\<not> is_control_frame t" "inmsg_total_size t = inmsg_total_size s" "sws_rcvmaxsize t = sws_rcvmaxsize s"
      "sws_malloc t = sws_malloc s" "inmsg_current_chunk_len t = ucast ?l" for t reason
    using mem that by (auto simp: no_memory_def sws_start_payload_def nn_msg_chunk_new_def Let_def not_less)
  have d: "sws_data_frame t = None"
    if "ext_hdr_len t = 0" "payload_ctl t = ?l" "sws_mode t = NN_WS_CLIENT" "\<not> is_control_frame t"
      "inmsg_total_size t = inmsg_total_size s" "sws_rcvmaxsize t = sws_rcvmaxsize s" "sws_malloc t = sws_malloc s" for t
    using that l by (simp add: sws_data_frame_def sws_header_rest_def frame_sizes none)
  have "sws_mode s = NN_WS_CLIENT" "inhdr s ! 1 AND NN_SWS_FRAME_BITMASK_MASKED = 0"
    "inhdr s ! 0 AND NN_SWS_FRAME_BITMASK_RSV1 = 0" "inhdr s ! 0 AND NN_SWS_FRAME_BITMASK_RSV2 = 0"
    "inhdr s ! 0 AND NN_SWS_FRAME_BITMASK_RSV3 = 0" "data_first s (inhdr s ! 0)"
    using h by (simp_all add: header_refused_def)
  then show ?thesis using p l
    by (auto simp: sws_received_hdr_def sws_frame_length_def sws_frame_opcode_def data_first_def d Let_def frame_sizes ws_opcodes
        split: if_splits)
qed

lemma received_hdrext_cases:
  assumes s: "ext_pre s" and small: "\<not> sws_huge s"
  shows "if sws_crash s then sws_received_hdrext s = None else sws_goes_on (sws_received_hdrext s)"
proof -
  obtain t where t: "sws_extended_length s = Some (Some t)" "frame_ok t" "mask_ok t" "inmsg_total_size t = inmsg_total_size s"
    and c: "is_control_frame t \<Longrightarrow> unat (inmsg_current_chunk_len t) \<le> NN_SWS_PAYLOAD_MAX_LENGTH
      \<and> (sws_opcode t = NN_WS_OPCODE_CLOSE \<longrightarrow> inmsg_current_chunk_len t = 0 \<or> NN_SWS_CLOSE_CODE_LEN \<le> unat (inmsg_current_chunk_len t))"
    using extended_length_ok [OF s] by blast
  have base: "sws_base t" "sws_base s" using t(2) s by (simp_all add: frame_ok_def ext_pre_def)
  then have smallt: "\<not> sws_huge t" using t(4) small by (simp add: sws_huge_def sws_base_def)
  have i: "instate s = RECV_HDREXT" and e: "ext_hdr_len s \<noteq> 0" using s by (simp_all add: ext_pre_def)
  have crash: "sws_crash s \<longleftrightarrow> refused t" using i t(1) by (simp add: sws_crash_def)
  show ?thesis
  proof (cases "inmsg_current_chunk_len t = 0")
    case True
    have "\<not> sizes_wrap s (unat (inmsg_current_chunk_len t))"
      using True base(2) small by (simp add: sizes_wrap_def sws_base_def sws_huge_def)
    from survives_received_hdrext [OF s t(1) this] True crash show ?thesis by (simp add: sws_goes_on_def refused_def)
  next
    case False
    then have "0 < unat (inmsg_current_chunk_len t)" by (simp add: unat_gt_0)
    then have "if refused t then sws_start_payload t ''Message size exceeds limit.'' = None
        else sws_goes_on (sws_start_payload t ''Message size exceeds limit.'')"
      by (rule start_payload_cases [OF t(2,3)]) (use c False smallt in simp_all)
    with False e t(1) crash show ?thesis by (simp add: sws_received_hdrext_def)
  qed
qed

lemma validate_crash:
  assumes "completes_four s" "sws_sized s"
  shows "nn_sws_validate_utf8_chunk s = None"
proof -
  obtain b pos where b: "chunk_bytes_at s = Some (b # pos)" "utf8_code_pt_fragment_len s = 3"
      "nn_utf8_code_point (take 3 (utf8_code_pt_fragment s) @ [b]) > 0"
    using assms(1) by (auto simp: completes_four_def split: option.splits list.splits)
  have "length (utf8_code_pt_fragment s) = 4" using assms(2) by (simp add: sws_sized_def frame_sizes)
  from continue_ok [OF this _ refl, where l = 3] b show ?thesis
    by (simp add: nn_sws_validate_utf8_chunk_def frame_sizes)
qed

lemma received_payload_cases:
  assumes s: "payload_pre s"
  shows "if sws_crash s then sws_received_payload s = None else sws_goes_on (sws_received_payload s)"
proof (cases "masked s \<and> 2 ^ 32 \<le> unat (inmsg_current_chunk_len s)")
  case True
  have p: "frame_ok s" "chunk_ok s" "instate s = RECV_PAYLOAD" using s by (simp_all add: payload_pre_def)
  then have "sws_sized s" by (simp add: frame_ok_def sws_base_def)
  then obtain bs where "chunk_bytes_at s = Some bs" "length bs = unat (inmsg_current_chunk_len s)"
    using chunk_bytes_ok [OF p(2)] by blast
  then have "sws_unmask s = None" using True
    by (cases "sws_mask s") (simp_all add: sws_unmask_def nn_sws_mask_payload_def)
  then have "sws_received_payload s = None" by (simp add: sws_received_payload_def)
  then show ?thesis using True p(3) by (simp add: sws_crash_def)
next
  case False
  have p: "frame_ok s" "chunk_ok s" "mask_ok s" "instate s = RECV_PAYLOAD" using s by (simp_all add: payload_pre_def mask_ok_def)
  have fits: "masked s \<Longrightarrow> unat (inmsg_current_chunk_len s) < 2 ^ 32" using False by simp
  from unmask_ok [OF p(1-3) fits] obtain t where t: "sws_unmask s = Some t" "frame_ok t" "chunk_ok t"
      "sws_opcode t = sws_opcode s" "inmsg_hdr t = inmsg_hdr s" by blast
  have crash: "sws_crash s \<longleftrightarrow> in_text t \<and> completes_four t"
    using False p(4) t by (auto simp: sws_crash_def in_text_def)
  have val: "sws_received_payload s = nn_sws_validate_utf8_chunk t" if "in_text t"
    using that t(1) by (auto simp: in_text_def sws_received_payload_def ws_opcodes)
  show ?thesis
  proof (cases "in_text t \<and> completes_four t")
    case True
    have "sws_sized t" using t(2) by (simp add: frame_ok_def sws_base_def)
    with True validate_crash val crash show ?thesis by simp
  next
    case no: False
    have "sws_survives (sws_received_payload s)"
      using survives_received_payload [OF s fits] no t(1) by auto
    with no crash show ?thesis by (auto simp: sws_goes_on_def)
  qed
qed

section \<open>The bytes are where they were asked for\<close>

lemma overwrite_all: "length bs = length m \<Longrightarrow> overwrite m 0 bs = bs"
  by (simp add: overwrite_def)

lemma fill_header:
  assumes "sws_sized s" "sws_receiving s = Some (INHDR off, length bs)" "off + length bs \<le> 14"
  shows "usock_fill s bs = Some (s\<lparr>sws_receiving := None, inhdr := overwrite (inhdr s) off bs\<rparr>)"
    "length (overwrite (inhdr s) off bs) = 14"
  using assms by (simp_all add: usock_fill_def sws_sized_def frame_sizes poke_def length_overwrite)

lemma fill_hdr:
  assumes s: "hdr_inv s" and bs: "length bs = 2"
  shows "\<exists>t. usock_fill s bs = Some t \<and> sws_base t \<and> instate t = RECV_HDR \<and> pb_instate (sws_pipebase t) = IN_ASYNC
    \<and> (\<not> continuing t \<longrightarrow> inmsg_array t = []) \<and> inmsg_array t = inmsg_array s"
  using s bs fill_header [of s 0 bs]
  by (auto simp: hdr_inv_def sws_base_def sws_sized_def frame_sizes)

lemma fill_ext:
  assumes s: "ext_inv s" and bs: "length bs = ext_hdr_len s"
  shows "\<exists>t. usock_fill s bs = Some t \<and> ext_pre t \<and> inmsg_array t = inmsg_array s"
proof -
  have base: "sws_sized s" using s by (simp add: ext_inv_def ext_pre_def frame_ok_def sws_base_def)
  have len: "2 + length bs \<le> 14" using s bs by (simp add: ext_inv_def ext_pre_def ext_size_def frame_sizes)
  let ?t = "s\<lparr>sws_receiving := None, inhdr := overwrite (inhdr s) 2 bs\<rparr>"
  have f: "usock_fill s bs = Some ?t" "length (overwrite (inhdr s) 2 bs) = 14"
    using fill_header [OF base _ len] s bs by (simp_all add: ext_inv_def frame_sizes)
  have "overwrite (inhdr s) 2 bs ! 0 = inhdr s ! 0"
    using base by (simp add: overwrite_def sws_sized_def frame_sizes nth_append)
  moreover have "ext_size ?t = ext_size s" by (simp add: ext_size_def)
  ultimately have "ext_pre ?t" using s f(2)
    by (simp add: ext_inv_def ext_pre_def frame_ok_def sws_base_def sws_sized_def data_frame_def control_frame_def frame_sizes(7))
  with f(1) show ?thesis by auto
qed

lemma fill_payload:
  assumes s: "payload_inv s" and bs: "length bs = unat (inmsg_current_chunk_len s)"
  shows "\<exists>t. usock_fill s bs = Some t \<and> payload_pre t"
proof -
  have base: "sws_sized s" and pre: "payload_pre s" using s by (simp_all add: payload_inv_def payload_pre_def frame_ok_def sws_base_def)
  show ?thesis
  proof (cases "is_control_frame s")
    case True
    then have b: "sws_receiving s = Some (BUF INMSG_CONTROL, length bs)" "length bs \<le> 125"
      using s bs by (auto simp: payload_inv_def payload_pre_def chunk_ok_def frame_sizes)
    let ?t = "s\<lparr>sws_receiving := None, inmsg_control := overwrite (inmsg_control s) 0 bs\<rparr>"
    have "usock_fill s bs = Some ?t" using b base by (simp add: usock_fill_def poke_def sws_sized_def frame_sizes)
    moreover have "length (overwrite (inmsg_control s) 0 bs) = NN_SWS_PAYLOAD_MAX_LENGTH"
      using base b by (simp add: length_overwrite sws_sized_def frame_sizes)
    then have "payload_pre ?t" using pre
      by (simp add: payload_pre_def frame_ok_def sws_base_def sws_sized_def data_frame_def control_frame_def chunk_ok_def)
    ultimately show ?thesis by blast
  next
    case False
    then have b: "sws_receiving s = Some (BUF MSG_CHUNK, length bs)" "inmsg_array s \<noteq> []" "length (last (inmsg_array s)) = length bs"
      using s bs by (auto simp: payload_inv_def payload_pre_def chunk_ok_def)
    let ?t = "s\<lparr>sws_receiving := None, inmsg_array := butlast (inmsg_array s) @ [bs]\<rparr>"
    have "usock_fill s bs = Some ?t" using b by (simp add: usock_fill_def poke_def overwrite_all)
    moreover have "length (concat (inmsg_array s)) = length (concat (butlast (inmsg_array s) @ [last (inmsg_array s)]))"
      using b(2) by simp
    then have "length (concat (inmsg_array s)) = length (concat (butlast (inmsg_array s) @ [bs]))" using b(3) by simp
    then have "payload_pre ?t" using pre b False bs
      by (auto simp: payload_pre_def frame_ok_def sws_base_def sws_sized_def data_frame_def control_frame_def chunk_ok_def)
    ultimately show ?thesis by blast
  qed
qed

text \<open>What the socket is asked for, and how the session takes it.\<close>

lemma deliver_cases:
  assumes s: "sws_inv s" "\<not> sws_huge s" and r: "sws_receiving s = Some (b, length bs)" "\<not> ready_inv s"
  shows "\<exists>t. usock_fill s bs = Some t \<and>
    (if sws_crash t then sws_deliver add s bs = None else sws_goes_on (sws_deliver add s bs))"
proof -
  from s(1) r(2) consider "hdr_inv s" | "ext_inv s" | "payload_inv s" by (auto simp: sws_inv_def)
  then show ?thesis
  proof cases
    case 1
    then have "length bs = 2" using r by (simp add: hdr_inv_def frame_sizes)
    from fill_hdr [OF 1 this] obtain t where t: "usock_fill s bs = Some t" "sws_base t" "instate t = RECV_HDR"
        "pb_instate (sws_pipebase t) = IN_ASYNC" "\<not> continuing t \<longrightarrow> inmsg_array t = []" "inmsg_array t = inmsg_array s" by blast
    have "unat (inhdr t ! 1 AND NN_SWS_FRAME_BITMASK_LENGTH) \<le> 127" by (rule length_field)
    then have "\<not> sizes_wrap t (unat (inhdr t ! 1 AND NN_SWS_FRAME_BITMASK_LENGTH))"
      using t(2,6) s(2) by (simp add: sizes_wrap_def sws_base_def sws_huge_def)
    from survives_received_hdr [OF t(2,4) _ this] t(5) have "\<not> header_refused t \<longrightarrow> sws_survives (sws_received_hdr t)" by blast
    with t(1-3) received_hdr_refused [OF t(2)] show ?thesis
      by (simp add: sws_deliver_def nn_sws_handler_def sws_base_def sws_active_def sws_crash_def sws_goes_on_def)
  next
    case 2
    then have "length bs = ext_hdr_len s" using r by (simp add: ext_inv_def)
    from fill_ext [OF 2 this] obtain t where t: "usock_fill s bs = Some t" "ext_pre t" "inmsg_array t = inmsg_array s" by blast
    then have "\<not> sws_huge t" using s(2) by (simp add: sws_huge_def)
    from received_hdrext_cases [OF t(2) this] t(1,2) show ?thesis
      by (simp add: sws_deliver_def nn_sws_handler_def ext_pre_def frame_ok_def sws_base_def sws_active_def)
  next
    case 3
    then have "length bs = unat (inmsg_current_chunk_len s)" using r by (auto simp: payload_inv_def)
    from fill_payload [OF 3 this] obtain t where t: "usock_fill s bs = Some t" "payload_pre t" by blast
    from received_payload_cases [OF t(2)] t show ?thesis
      by (simp add: sws_deliver_def nn_sws_handler_def payload_pre_def frame_ok_def sws_base_def sws_active_def)
  qed
qed

section \<open>The invariant of a run\<close>

text \<open>The session asks the socket for bytes exactly while it waits for some.\<close>

definition asks :: "nn_sws \<Rightarrow> nn_sws option \<Rightarrow> bool" where
  "asks s r \<longleftrightarrow> (\<forall>t. r = Some t \<longrightarrow> sws_receiving t = sws_receiving s \<or> instate t \<in> {RECV_HDR, RECV_HDREXT, RECV_PAYLOAD})"

named_theorems ask_intros

lemma asks_None [ask_intros]: "asks s None"
  by (simp add: asks_def)

lemma asks_fail [ask_intros]: "sws_receiving u = sws_receiving s \<Longrightarrow> asks s (nn_sws_fail_conn u c r)"
  by (cases "build_close_frame (sws_mode u) (sws_random u) (fail_msg u) c (chars r)")
    (auto simp: asks_def nn_sws_fail_conn_def sws_pipe_stop_def nn_pipebase_stop_def Let_def raise_event_def nn_usock_send_def
      split: if_splits)

lemma asks_recv_hdr [ask_intros]: "asks s (nn_sws_recv_hdr u)"
  by (auto simp: asks_def nn_sws_recv_hdr_def Let_def nn_usock_recv_def)

lemma asks_received [ask_intros]: "sws_receiving u = sws_receiving s \<Longrightarrow> asks s (sws_pipe_received u)"
  by (cases "nn_pipebase_received (sws_pipebase u)") (auto simp: asks_def sws_pipe_received_def)

lemma asks_bind [ask_intros]: "(\<And>x. r = Some x \<Longrightarrow> asks s (f x)) \<Longrightarrow> asks s (r \<bind> f)"
  by (cases r) (auto simp: asks_def)

lemma asks_if [ask_intros]: "(b \<Longrightarrow> asks s x) \<Longrightarrow> (\<not> b \<Longrightarrow> asks s y) \<Longrightarrow> asks s (if b then x else y)"
  by simp

lemma asks_mode [ask_intros]:
  "(m = NN_WS_CLIENT \<Longrightarrow> asks s x) \<Longrightarrow> (m = NN_WS_SERVER \<Longrightarrow> asks s y) \<Longrightarrow>
     asks s (case m of NN_WS_CLIENT \<Rightarrow> x | NN_WS_SERVER \<Rightarrow> y)"
  by (cases m) simp_all

lemma asks_start_payload [ask_intros]: "sws_receiving u = sws_receiving s \<Longrightarrow> asks s (sws_start_payload u r)"
  unfolding sws_start_payload_def Let_def by (intro ask_intros) (simp_all add: asks_def nn_usock_recv_def)

lemma asks_header_rest [ask_intros]: "sws_receiving u = sws_receiving s \<Longrightarrow> asks s (sws_header_rest u)"
  unfolding sws_header_rest_def by (intro ask_intros) (simp_all add: asks_def nn_usock_recv_def)

lemma asks_data_frame [ask_intros]: "sws_receiving u = sws_receiving s \<Longrightarrow> asks s (sws_data_frame u)"
  unfolding sws_data_frame_def Let_def by (intro ask_intros) simp_all

lemma asks_ping_frame [ask_intros]: "sws_receiving u = sws_receiving s \<Longrightarrow> asks s (sws_ping_frame u)"
  unfolding sws_ping_frame_def Let_def by (intro ask_intros) simp_all

lemma asks_ack [ask_intros]: "sws_receiving u = sws_receiving s \<Longrightarrow> asks s (nn_sws_acknowledge_close_handshake u)"
  unfolding nn_sws_acknowledge_close_handshake_def Let_def by (intro ask_intros) simp_all

lemma asks_close_frame [ask_intros]: "sws_receiving u = sws_receiving s \<Longrightarrow> asks s (sws_close_frame u)"
  unfolding sws_close_frame_def Let_def by (intro ask_intros) simp_all

lemma asks_frame_opcode [ask_intros]: "sws_receiving u = sws_receiving s \<Longrightarrow> asks s (sws_frame_opcode u)"
  unfolding sws_frame_opcode_def Let_def by (intro ask_intros) simp_all

lemma asks_frame_length [ask_intros]: "sws_receiving u = sws_receiving s \<Longrightarrow> asks s (sws_frame_length u b0 b1)"
  unfolding sws_frame_length_def Let_def by (intro ask_intros) simp_all

lemma asks_received_hdr [ask_intros]: "sws_receiving u = sws_receiving s \<Longrightarrow> asks s (sws_received_hdr u)"
  unfolding sws_received_hdr_def Let_def by (intro ask_intros) simp_all

lemma asks_received_hdrext [ask_intros]: "sws_receiving u = sws_receiving s \<Longrightarrow> asks s (sws_received_hdrext u)"
proof -
  assume u: "sws_receiving u = sws_receiving s"
  have e: "sws_receiving t = sws_receiving u" if "sws_extended_length u = Some (Some t)" for t
    using that by (auto simp: sws_extended_length_def split: if_splits option.splits Option.bind_splits)
  show ?thesis unfolding sws_received_hdrext_def
  proof (intro ask_intros)
    fix ext
    assume "sws_extended_length u = Some ext"
    with e u show "asks s (case ext of None \<Rightarrow> nn_sws_fail_conn u NN_SWS_CLOSE_ERR_PROTO ''Invalid payload length.''
       | Some sws \<Rightarrow>
           if inmsg_current_chunk_len sws = 0 then
             (if is_final_frame sws then
                (if sws_opcode sws = NN_WS_OPCODE_CLOSE then nn_sws_acknowledge_close_handshake sws
                 else sws_pipe_received (sws\<lparr>instate := if is_control_frame sws then RECVD_CONTROL else RECVD_CHUNKED\<rparr>))
              else nn_sws_recv_hdr sws)
           else sws_start_payload sws ''Message size exceeds limit.'')"
      by (cases ext) (auto intro!: ask_intros)
  qed
qed

lemma asks_chunk_done [ask_intros]: "sws_receiving u = sws_receiving s \<Longrightarrow> asks s (sws_chunk_done u)"
  unfolding sws_chunk_done_def by (intro ask_intros) simp_all

lemma asks_validate [ask_intros]: "sws_receiving u = sws_receiving s \<Longrightarrow> asks s (nn_sws_validate_utf8_chunk u)"
  unfolding nn_sws_validate_utf8_chunk_def Let_def
  by (intro ask_intros) (auto split: if_splits sum.splits scan_end.splits intro!: ask_intros)

lemma asks_payload: "sws_receiving u = sws_receiving s \<Longrightarrow> asks s (sws_received_payload u)"
proof -
  assume u: "sws_receiving u = sws_receiving s"
  have e: "sws_receiving t = sws_receiving u" if "sws_unmask u = Some t" for t
    using that by (auto simp: sws_unmask_def store_chunk_def split: if_splits option.splits sws_buf.splits Option.bind_splits)
  show ?thesis unfolding sws_received_payload_def by (intro ask_intros) (simp_all add: e u)
qed

definition run_inv :: "nn_sws \<Rightarrow> bool" where
  "run_inv s \<longleftrightarrow> (if sws_st s = SWS_ACTIVE
     then sws_inv s \<and> \<not> sws_huge s \<and> (ready_inv s \<longrightarrow> sws_receiving s = None)
     else sws_st s \<in> {SWS_CLOSING_CONNECTION, SWS_BROKEN_CONNECTION, SWS_DONE})"

lemma hdr_not_ready: "hdr_inv s \<Longrightarrow> \<not> ready_inv s"
  by (auto simp: hdr_inv_def ready_inv_def)

lemma run_inv_hdr: "hdr_inv s \<Longrightarrow> \<not> sws_huge s \<Longrightarrow> run_inv s"
  using hdr_not_ready [of s] by (simp add: run_inv_def sws_inv_def hdr_inv_def sws_base_def)

lemma connect_ok:
  assumes m: "sws_sized m" and c: "sws_connect add (nn_sws_init sp rp m) mode t = Some s"
  shows "run_inv s"
proof -
  let ?p = "(nn_pipebase_init sp rp)\<lparr>pb_state := P_ACTIVE, pb_instate := IN_ASYNC, pb_outstate := OUT_IDLE\<rparr>"
  show ?thesis
  proof (cases "add ?p < 0")
    case True
    with c have "sws_st s = SWS_DONE"
      by (auto simp: sws_connect_def nn_sws_start_def nn_sws_handler_def nn_sws_init_def nn_pipebase_start_def
          nn_pipebase_init_def Let_def raise_event_def sws_done_def)
    then show ?thesis by (simp add: run_inv_def)
  next
    case False
    with c m have "hdr_inv s \<and> inmsg_array s = []"
      by (auto simp: sws_connect_def nn_sws_start_def nn_sws_handler_def nn_sws_init_def nn_pipebase_start_def
          nn_pipebase_init_def Let_def raise_event_def nn_sws_recv_hdr_def nn_usock_recv_def hdr_inv_def sws_base_def sws_sized_def
          frame_sizes)
    then show ?thesis using run_inv_hdr [of s] by (simp add: sws_huge_def)
  qed
qed

lemma bytes_ok:
  assumes s: "run_inv s" and d: "sws_deliver add s bs = Some s'" "\<not> sws_huge s'"
  shows "run_inv s'"
proof -
  obtain t where t: "usock_fill s bs = Some t" "nn_sws_handler add t NN_USOCK_RECEIVED = Some s'"
    using d(1) by (cases "usock_fill s bs") (auto simp: sws_deliver_def)
  note f = usock_fill_fields [OF t(1)]
  have act: "sws_st s = SWS_ACTIVE"
    using t(2) f s by (auto simp: run_inv_def nn_sws_handler_def split: if_splits)
  obtain b n where r: "sws_receiving s = Some (b, n)" using t(1) by (cases "sws_receiving s") (auto simp: usock_fill_def)
  then have n: "n = length bs" using t(1) by (auto simp: usock_fill_def split: if_splits)
  have inv: "sws_inv s" "\<not> sws_huge s" "\<not> ready_inv s" using s act r by (auto simp: run_inv_def)
  from deliver_cases [OF inv(1,2) r [unfolded n] inv(3), of add] d have "sws_survives (Some s')"
    by (auto simp: sws_goes_on_def split: if_splits)
  then have i: "sws_inv s' \<or> sws_closed s'" by (simp add: sws_survives_def)
  have "asks t (nn_sws_handler add t NN_USOCK_RECEIVED)"
    using f act asks_received_hdr [of t t] asks_received_hdrext [of t t] asks_payload [of t t]
    by (cases "instate t") (simp_all add: nn_sws_handler_def sws_active_def asks_None)
  with t(2) f have "sws_receiving s' = None \<or> instate s' \<in> {RECV_HDR, RECV_HDREXT, RECV_PAYLOAD}" by (simp add: asks_def)
  then have "ready_inv s' \<longrightarrow> sws_receiving s' = None" by (auto simp: ready_inv_def)
  moreover have "sws_inv s' \<Longrightarrow> sws_st s' = SWS_ACTIVE"
    by (auto simp: sws_inv_def hdr_inv_def ext_inv_def ext_pre_def payload_inv_def payload_pre_def ready_inv_def frame_ok_def sws_base_def)
  ultimately show ?thesis using i d(2) by (auto simp: run_inv_def sws_closed_def)
qed

lemma idle_is_ready: "sws_inv s \<Longrightarrow> pb_instate (sws_pipebase s) = IN_IDLE \<Longrightarrow> ready_inv s"
  by (auto simp: sws_inv_def hdr_inv_def ext_inv_def ext_pre_def payload_inv_def payload_pre_def frame_ok_def)

lemma recv_hdr_inv:
  assumes "nn_sws_recv_hdr u = Some s" "sws_base u" "\<not> continuing u \<longrightarrow> inmsg_array u = []"
  shows "hdr_inv (s\<lparr>sws_pipebase := (sws_pipebase s)\<lparr>pb_instate := IN_ASYNC\<rparr>\<rparr>) \<and> inmsg_array s = inmsg_array u"
  using assms by (auto simp: nn_sws_recv_hdr_def Let_def nn_usock_recv_def hdr_inv_def sws_base_def sws_sized_def split: if_splits)

lemma recv_ok:
  assumes s: "run_inv s" and d: "sws_pipe_recv fresh s = Some (m, s')"
  shows "run_inv s'"
proof -
  let ?s = "s\<lparr>sws_pipebase := (sws_pipebase s)\<lparr>pb_instate := IN_RECEIVING\<rparr>\<rparr>"
  have idle: "pb_instate (sws_pipebase s) = IN_IDLE" using d by (simp add: sws_pipe_recv_def split: if_splits)
  with d obtain rc u where u: "nn_sws_recv fresh ?s = Some (rc, m, u)"
      "s' = u\<lparr>sws_pipebase := (sws_pipebase u)\<lparr>pb_instate := IN_ASYNC\<rparr>\<rparr>"
    by (cases "nn_sws_recv fresh ?s") (auto simp: sws_pipe_recv_def)
  then have "sws_st s = SWS_ACTIVE" by (auto simp: nn_sws_recv_def split: if_splits)
  with s idle have r: "ready_inv s" "\<not> sws_huge s" using idle_is_ready [of s] by (simp_all add: run_inv_def)
  then have base: "sws_base ?s" by (simp add: ready_inv_def sws_base_def sws_sized_def)
  show ?thesis
  proof (cases "instate s = RECVD_CHUNKED")
    case True
    let ?t = "?s\<lparr>inmsg_array := [], continuing := False\<rparr>"
    from u(1) True have "nn_sws_recv_hdr ?t = Some u"
      by (auto simp: nn_sws_recv_def Let_def split: if_splits Option.bind_splits)
    then have "hdr_inv s' \<and> inmsg_array s' = []" using u(2) base
      by (auto simp: nn_sws_recv_hdr_def Let_def nn_usock_recv_def hdr_inv_def sws_base_def sws_sized_def)
    then show ?thesis using run_inv_hdr [of s'] by (simp add: sws_huge_def)
  next
    case False
    with r have c: "instate s = RECVD_CONTROL" "\<not> continuing ?s \<longrightarrow> inmsg_array ?s = []" by (auto simp: ready_inv_def)
    from u(1) c(1) have "nn_sws_recv_hdr ?s = Some u"
      by (auto simp: nn_sws_recv_def Let_def split: if_splits Option.bind_splits)
    from recv_hdr_inv [OF this base c(2)] u(2) r(2) show ?thesis
      using run_inv_hdr [of s'] by (simp add: sws_huge_def)
  qed
qed

lemma run_inv_outgoing [simp]:
  "run_inv (s\<lparr>outmsg := x\<rparr>) = run_inv s" "run_inv (s\<lparr>outhdr := h\<rparr>) = run_inv s" "run_inv (s\<lparr>outstate := o'\<rparr>) = run_inv s"
  "run_inv (s\<lparr>sws_malloc := f\<rparr>) = run_inv s" "run_inv (s\<lparr>sws_random := r\<rparr>) = run_inv s" "run_inv (s\<lparr>sws_sent := l\<rparr>) = run_inv s" "run_inv (s\<lparr>sws_events := e\<rparr>) = run_inv s"
  "run_inv (s\<lparr>sws_pipebase := (sws_pipebase s)\<lparr>pb_outstate := p\<rparr>\<rparr>) = run_inv s"
  by (simp_all add: run_inv_def sws_inv_def hdr_inv_def ext_inv_def ext_pre_def payload_inv_def payload_pre_def ready_inv_def
      frame_ok_def sws_base_def sws_sized_def data_frame_def control_frame_def chunk_ok_def ext_size_def sws_huge_def)

lemma send_keeps:
  assumes "nn_sws_send s m = Some (rc, s')"
  shows "s' = s\<lparr>outmsg := outmsg s', outhdr := outhdr s', outstate := outstate s', sws_random := sws_random s', sws_sent := sws_sent s'\<rparr>"
  using assms unfolding nn_sws_send_def
  by (auto simp: Let_def nn_usock_send_def split: if_splits Option.bind_splits sws_mode.splits prod.splits intro!: nn_sws.equality)

lemma send_ok:
  assumes s: "run_inv s" and d: "sws_pipe_send m s = Some s'"
  shows "run_inv s'"
proof -
  let ?s = "s\<lparr>sws_pipebase := (sws_pipebase s)\<lparr>pb_outstate := OUT_SENDING\<rparr>\<rparr>"
  from d obtain rc u where u: "nn_sws_send ?s m = Some (rc, u)" "s' = u\<lparr>sws_pipebase := (sws_pipebase u)\<lparr>pb_outstate := OUT_ASYNC\<rparr>\<rparr>"
    by (cases "nn_sws_send ?s m") (auto simp: sws_pipe_send_def split: if_splits)
  have "run_inv ?s" using s by simp
  moreover have "u = ?s\<lparr>outmsg := outmsg u, outhdr := outhdr u, outstate := outstate u, sws_random := sws_random u, sws_sent := sws_sent u\<rparr>"
    by (rule send_keeps [OF u(1)])
  ultimately have "run_inv u" by (metis run_inv_outgoing)
  with u(2) show ?thesis by simp
qed

lemma event_ok:
  assumes s: "run_inv s" and d: "nn_sws_handler add s e = Some s'" "e \<noteq> NN_USOCK_RECEIVED"
  shows "run_inv s'"
proof (cases "sws_st s = SWS_ACTIVE \<and> e = NN_USOCK_SENT")
  case True
  let ?s = "s\<lparr>outstate := SWS_OUT_IDLE, outmsg := plain_msg []\<rparr>"
  from d True obtain p ev where p: "nn_pipebase_sent (sws_pipebase s) = Some (p, ev)"
      "s' = ?s\<lparr>sws_pipebase := p, sws_events := sws_events ?s @ map SWS_PIPE ev\<rparr>"
    by (cases "nn_pipebase_sent (sws_pipebase s)")
      (auto simp: nn_sws_handler_def sws_active_def sws_pipe_sent_def split: if_splits)
  then obtain o' where "p = (sws_pipebase s)\<lparr>pb_outstate := o'\<rparr>" by (auto simp: nn_pipebase_sent_def split: if_splits)
  with p have "s' = (?s\<lparr>sws_pipebase := (sws_pipebase ?s)\<lparr>pb_outstate := o'\<rparr>\<rparr>)\<lparr>sws_events := sws_events ?s @ map SWS_PIPE ev\<rparr>" by simp
  then show ?thesis using s by (simp only: run_inv_outgoing)
next
  case False
  then have "sws_st s' \<in> {SWS_CLOSING_CONNECTION, SWS_BROKEN_CONNECTION, SWS_DONE}" using d s
    by (cases e) (auto simp: nn_sws_handler_def sws_active_def run_inv_def sws_done_def raise_event_def sws_pipe_stop_def
        nn_pipebase_stop_def split: sws_state.splits if_splits)
  then show ?thesis by (auto simp: run_inv_def)
qed

lemma session_inv: "session add s \<Longrightarrow> run_inv s"
  by (induction rule: session.induct) (auto intro: connect_ok bytes_ok recv_ok send_ok event_ok)

end
