(* ===== verification/NN_Sws_Frames.thy ===== *)
theory NN_Sws_Frames
  imports NN_Sws_Session
begin

text \<open>
  What goes over the wire: a message is sent as one frame of RFC 6455, and a session that waits for
  a header takes such a frame apart again.
\<close>

unbundle bit_operations_syntax

section \<open>The frame of RFC 6455\<close>

text \<open>The payload masked with a key: octet \<open>i\<close> is combined with octet \<open>i mod 4\<close> of the key.\<close>

definition ws_masked :: "byte list \<Rightarrow> byte list \<Rightarrow> byte list" where
  "ws_masked key payload = map (\<lambda>i. payload ! i XOR key ! (i mod 4)) [0..<length payload]"

text \<open>The seven bits of the length, and the extended length.\<close>

definition ws_length :: "nat \<Rightarrow> byte \<times> byte list" where
  "ws_length n = (if n \<le> 125 then (word_of_nat n, []) else if n \<le> 65535 then (126, be_bytes 2 n) else (127, be_bytes 8 n))"

text \<open>A final frame, masked if there is a key.\<close>

definition ws_frame :: "byte \<Rightarrow> byte list option \<Rightarrow> byte list \<Rightarrow> byte list" where
  "ws_frame opcode key payload = (
     let (l, ext) = ws_length (length payload) in
     case key of
       None \<Rightarrow> [opcode OR 0x80, l] @ ext @ payload
     | Some k \<Rightarrow> [opcode OR 0x80, l OR 0x80] @ ext @ k @ ws_masked k payload)"

section \<open>Masking\<close>

lemma mask_bytes_nth: "i < length bs \<Longrightarrow> mask_bytes key p bs ! i = bs ! i XOR key ! ((p + i) mod length key)"
  by (induction bs arbitrary: p i) (auto simp: nth_Cons split: nat.splits)

lemma mask_bytes_masked: "length key = 4 \<Longrightarrow> mask_bytes key 0 bs = ws_masked key bs"
  by (rule nth_equalityI) (simp_all add: ws_masked_def mask_bytes_nth)

lemma mask_bytes_append:
  "mask_bytes key p (a @ b) = mask_bytes key p a @ mask_bytes key (p + length a) b"
  by (induction a arbitrary: p) simp_all

lemma mask_bytes_mod: "mask_bytes key (p mod length key) b = mask_bytes key p b"
  by (rule nth_equalityI) (simp_all add: mask_bytes_nth mod_simps)

lemma mask_bytes_twice: "mask_bytes key p (mask_bytes key p bs) = bs"
  by (induction bs arbitrary: p) (simp_all add: xor.assoc)

section \<open>Sending\<close>

lemma out_length_ok:
  assumes h: "length hdr = 14" "hdr ! 1 = 0" and n: "n < 2 ^ 64" and w: "ws_length n = (l, ext)"
  shows "\<exists>hdr'. out_length hdr n = Some (hdr', 2 + length ext) \<and> length hdr' = 14
    \<and> take (2 + length ext) hdr' = [hdr ! 0, l] @ ext \<and> length ext \<le> 8"
proof -
  obtain b0 t where t: "hdr = b0 # t" using h(1) by (cases hdr) simp_all
  with h(1) obtain b1 rest where "t = b1 # rest" by (cases t) simp_all
  with t h(1) have hdr: "hdr = b0 # b1 # rest" "length rest = 12" by simp_all
  have b1: "b1 = 0" using h(2) hdr by simp
  have be2: "bytes2 (word_of_nat n :: u16) = be_bytes 2 n" if "n \<le> 65535"
    using that by (simp add: bytes2_be unat_of_nat)
  have be8: "bytes8 (word_of_nat n :: u64) = be_bytes 8 n"
    using n by (simp add: bytes8_be unat_of_nat)
  consider "n \<le> 125" | "125 < n" "n \<le> 65535" | "65535 < n" by linarith
  then show ?thesis
  proof cases
    case 1
    with w hdr b1 show ?thesis by (auto simp: out_length_def ws_length_def frame_sizes poke_def overwrite_def)
  next
    case 2
    with w be2 hdr b1 show ?thesis
      by (auto simp: out_length_def ws_length_def frame_sizes frame_bits poke_def overwrite_def nn_puts_eq min_def)
  next
    case 3
    with w be8 hdr b1 show ?thesis
      by (auto simp: out_length_def ws_length_def frame_sizes frame_bits poke_def overwrite_def nn_putll_eq min_def)
  qed
qed

definition ws_key :: "nn_sws \<Rightarrow> byte list option" where
  "ws_key s = (case sws_mode s of NN_WS_CLIENT \<Rightarrow> Some (fst (nn_random_generate (sws_random s) 4)) | NN_WS_SERVER \<Rightarrow> None)"

lemma send_frame:
  assumes s: "sws_st s = SWS_ACTIVE" "outstate s = SWS_OUT_IDLE" and op: "out_opcode (s\<lparr>outmsg := m\<rparr>) = Some op"
    and len: "msg_size m < 2 ^ 32"
  shows "\<exists>s'. nn_sws_send s m = Some (0, s') \<and> sws_sent s' = sws_sent s @ [ws_frame op (ws_key s) (m_sphdr m @ m_body m)]"
proof -
  let ?n = "length (m_sphdr m) + length (m_body m)"
  obtain l ext where w: "ws_length ?n = (l, ext)" by fastforce
  let ?h0 = "(op OR 0x80) # replicate 13 (0 :: byte)"
  have p0: "poke (replicate NN_SWS_FRAME_MAX_HDR_LEN 0) 0 [op OR NN_SWS_FRAME_BITMASK_FIN] = Some ?h0"
    by (simp add: frame_sizes frame_bits poke_def overwrite_def)
  have n: "?n < 2 ^ 64" using len by (simp add: msg_size_def)
  obtain h1 where h1: "out_length ?h0 ?n = Some (h1, 2 + length ext)" "length h1 = 14"
      "take (2 + length ext) h1 = [op OR 0x80, l] @ ext" "length ext \<le> 8"
    using out_length_ok [of ?h0, OF _ _ n w] by (auto simp: numeral_eq_Suc)
  define r where "r = drop (2 + length ext) h1"
  have h1_eq: "h1 = (op OR 0x80) # l # ext @ r" using h1(3) append_take_drop_id [of "2 + length ext" h1] by (simp add: r_def)
  have r: "length ext + length r = 12" using h1(2) h1_eq by simp
  show ?thesis
  proof (cases "sws_mode s")
    case NN_WS_SERVER
    then show ?thesis
      using s op p0 h1(1) w r by (simp add: nn_sws_send_def Let_def nn_usock_send_def ws_frame_def ws_key_def frame_bits
          poke_def overwrite_def h1_eq)
  next
    case NN_WS_CLIENT
    obtain k rnd where k: "nn_random_generate (sws_random s) NN_SWS_FRAME_SIZE_MASK = (k, rnd)" by fastforce
    then have kl: "length k = 4" "k \<noteq> []" using length_random [of "sws_random s" NN_SWS_FRAME_SIZE_MASK] by (auto simp: frame_sizes)
    have key: "ws_key s = Some k" using k NN_WS_CLIENT by (simp add: ws_key_def frame_sizes)
    have p1: "poke h1 1 [h1 ! 1 OR NN_SWS_FRAME_BITMASK_MASKED] = Some ((op OR 0x80) # (l OR 0x80) # ext @ r)"
      using r by (simp add: poke_def overwrite_def h1_eq frame_bits)
    have p2: "poke ((op OR 0x80) # (l OR 0x80) # ext @ r) (2 + length ext) k = Some ((op OR 0x80) # (l OR 0x80) # ext @ k @ drop 4 r)"
      using r h1(4) kl by (simp add: poke_def overwrite_def drop_Cons')
    have m1: "nn_sws_mask_payload (m_sphdr m) k (Some 0) = Some (mask_bytes k 0 (m_sphdr m), length (m_sphdr m) mod length k)"
      using len kl by (simp add: nn_sws_mask_payload_def msg_size_def)
    have m2: "nn_sws_mask_payload (m_body m) k (Some (length (m_sphdr m) mod length k)) =
        Some (mask_bytes k (length (m_sphdr m)) (m_body m), (length (m_body m) + length (m_sphdr m) mod length k) mod length k)"
      using len kl(2) by (simp add: nn_sws_mask_payload_def msg_size_def mask_bytes_mod)
    have m: "ws_masked k (m_sphdr m @ m_body m) = mask_bytes k 0 (m_sphdr m) @ mask_bytes k (length (m_sphdr m)) (m_body m)"
      using kl by (simp add: mask_bytes_masked [symmetric] mask_bytes_append)
    have tk: "take (2 + length ext + NN_SWS_FRAME_SIZE_MASK) ((op OR 0x80) # (l OR 0x80) # ext @ k @ drop 4 r) =
        (op OR 0x80) # (l OR 0x80) # ext @ k"
      using kl by (simp add: frame_sizes take_Cons')
    show ?thesis
      using s op p0 h1(1) w p1 p2 m1 m2 k NN_WS_CLIENT tk
      by (simp add: nn_sws_send_def Let_def nn_usock_send_def ws_frame_def key m)
  qed
qed

section \<open>Receiving\<close>

text \<open>The bytes of a stream go to the session as it asks for them; what it has not asked for stays.\<close>

function sws_feed :: "(nn_pipebase \<Rightarrow> int) \<Rightarrow> nn_sws \<Rightarrow> byte list \<Rightarrow> (nn_sws \<times> byte list) option" where
  "sws_feed add s bs = (case sws_receiving s of
       None \<Rightarrow> Some (s, bs)
     | Some (buf, n) \<Rightarrow>
         if 0 < n \<and> n \<le> length bs
         then do { s \<leftarrow> sws_deliver add s (take n bs); sws_feed add s (drop n bs) }
         else Some (s, bs))"
  by pat_completeness auto
termination
  by (relation "measure (\<lambda>(_, _, bs). length bs)") auto

declare sws_feed.simps [simp del]

lemma feed_step:
  assumes "sws_receiving s = Some (buf, length a)" "a \<noteq> []" "sws_deliver add s a = Some s'"
  shows "sws_feed add s (a @ b) = sws_feed add s' b"
  using assms by (subst sws_feed.simps) simp

lemma feed_stop: "sws_receiving s = None \<Longrightarrow> sws_feed add s bs = Some (s, bs)"
  by (subst sws_feed.simps) simp

lemma length_bits:
  assumes "unat l < 128"
  shows "l AND 0x80 = (0 :: byte)" "l AND 0x7F = l" "(l OR 0x80) AND 0x80 \<noteq> (0 :: byte)" "(l OR 0x80) AND 0x7F = l"
proof -
  have m: "(0x7F :: byte) = mask 7" by (simp add: mask_eq_exp_minus_1)
  have "unat (take_bit 7 l) = take_bit 7 (unat l)" by (rule unsigned_take_bit_eq)
  also have "\<dots> = unat l" using assms by (simp add: take_bit_eq_mod)
  finally have "unat (take_bit 7 l) = unat l" .
  then show l: "l AND 0x7F = l" by (simp add: m take_bit_eq_mask [symmetric] word_unat_eq_iff)
  have "l AND 0x80 = l AND (0x7F AND 0x80)" by (metis and.assoc l)
  then show z: "l AND 0x80 = 0" by simp
  show "(l OR 0x80) AND 0x80 \<noteq> 0" using z by (simp add: bit.conj_disj_distrib2)
  show "(l OR 0x80) AND 0x7F = l" using l by (simp add: bit.conj_disj_distrib2)
qed

lemma ws_length_bound: "ws_length n = (l, ext) \<Longrightarrow> unat l < 128"
  by (auto simp: ws_length_def unat_of_nat split: if_splits)

definition data_opcode :: "byte \<Rightarrow> bool" where
  "data_opcode op \<longleftrightarrow> op = NN_WS_OPCODE_TEXT \<or> op = NN_WS_OPCODE_BINARY"

lemma data_opcode_bits:
  assumes "data_opcode op"
  shows "(op OR 0x80) AND 0x40 = 0" "(op OR 0x80) AND 0x20 = 0" "(op OR 0x80) AND 0x10 = 0" "(op OR 0x80) AND 0x80 = 0x80"
    "(op OR 0x80) AND 0x0F = op" "(op OR 0x80) OR 0x80 = op OR 0x80" "op \<noteq> 0"
  using assms by (auto simp: data_opcode_def ws_opcodes)

text \<open>The bytes of the header with the mask bit, and the state in which the rest of a header is looked at.\<close>

definition ws_masks :: "nn_sws \<Rightarrow> byte list option \<Rightarrow> bool" where
  "ws_masks r key \<longleftrightarrow> (case key of None \<Rightarrow> sws_mode r = NN_WS_CLIENT | Some k \<Rightarrow> sws_mode r = NN_WS_SERVER \<and> length k = 4)"

definition in_frame :: "nn_sws \<Rightarrow> byte \<Rightarrow> byte list option \<Rightarrow> byte \<Rightarrow> byte list \<Rightarrow> nn_sws" where
  "in_frame r op key l ext = r\<lparr>sws_receiving := None,
     inhdr := [op OR 0x80, if key = None then l else l OR 0x80] @ drop 2 (inhdr r),
     is_final_frame := True, masked := key \<noteq> None,
     ext_hdr_len := (if key = None then 0 else 4) + length ext,
     sws_opcode := op, payload_ctl := l, inmsg_hdr := op OR 0x80, is_control_frame := False\<rparr>"

lemma in_frame_ext: "ext_hdr_len (in_frame r op key l ext) = (if key = None then 0 else 4) + length ext"
  by (simp add: in_frame_def)

lemma in_frame_fields [simp]:
  "is_final_frame (in_frame r op key l ext)" "sws_opcode (in_frame r op key l ext) = op"
  "\<not> is_control_frame (in_frame r op key l ext)" "inmsg_hdr (in_frame r op key l ext) = op OR 0x80"
  "masked (in_frame r op key l ext) \<longleftrightarrow> key \<noteq> None" "continuing (in_frame r op key l ext) = continuing r"
  "sws_receiving (in_frame r op key l ext) = None" "inmsg_total_size (in_frame r op key l ext) = inmsg_total_size r"
  "inmsg_array (in_frame r op key l ext) = inmsg_array r" "sws_rcvmaxsize (in_frame r op key l ext) = sws_rcvmaxsize r" "sws_malloc (in_frame r op key l ext) = sws_malloc r"
  "sws_pipebase (in_frame r op key l ext) = sws_pipebase r" "sws_st (in_frame r op key l ext) = sws_st r"
  "utf8_code_pt_fragment_len (in_frame r op key l ext) = utf8_code_pt_fragment_len r"
  "utf8_code_pt_fragment (in_frame r op key l ext) = utf8_code_pt_fragment r"
  "fail_msg (in_frame r op key l ext) = fail_msg r" "inmsg_control (in_frame r op key l ext) = inmsg_control r"
  "sws_mode (in_frame r op key l ext) = sws_mode r"
  by (simp_all add: in_frame_def)

lemma deliver_header:
  assumes r: "hdr_inv r" "\<not> continuing r" and op: "data_opcode op" and k: "ws_masks r key" and w: "ws_length n = (l, ext)"
  shows "sws_deliver add r [op OR 0x80, if key = None then l else l OR 0x80] = sws_data_frame (in_frame r op key l ext)"
proof -
  let ?b1 = "if key = None then l else l OR 0x80"
  let ?t = "r\<lparr>sws_receiving := None, inhdr := [op OR 0x80, ?b1] @ drop 2 (inhdr r)\<rparr>"
  have len: "length (inhdr r) = 14" "sws_st r = SWS_ACTIVE" "instate r = RECV_HDR" "sws_receiving r = Some (INHDR 0, 2)"
    using r by (simp_all add: hdr_inv_def sws_base_def sws_sized_def frame_sizes)
  have fill: "usock_fill r [op OR 0x80, ?b1] = Some ?t"
    using len by (simp add: usock_fill_def poke_def overwrite_def numeral_2_eq_2)
  note lb = length_bits [OF ws_length_bound [OF w]]
  have b1: "?b1 AND 0x7F = l" "(?b1 AND 0x80 \<noteq> 0) = (key \<noteq> None)" using lb by auto
  have ctl: "unat l \<le> 125 \<and> ext = [] \<or> l = 126 \<and> length ext = 2 \<or> l = 127 \<and> length ext = 8"
    using w by (auto simp: ws_length_def unat_of_nat split: if_splits)
  let ?u = "?t\<lparr>is_final_frame := True, masked := key \<noteq> None, ext_hdr_len := if key = None then 0 else 4\<rparr>"
  have "sws_received_hdr ?t = sws_frame_length ?u (op OR 0x80) ?b1"
    using data_opcode_bits [OF op] b1 k
    by (auto simp: sws_received_hdr_def peek_def frame_bits frame_sizes ws_masks_def split: option.splits)
  also have "\<dots> = sws_data_frame (in_frame r op key l ext)"
  proof -
    let ?v = "?u\<lparr>sws_opcode := op, payload_ctl := l, inmsg_hdr := op OR 0x80,
      ext_hdr_len := (if key = None then 0 else 4) + length ext\<rparr>"
    have "sws_frame_length ?u (op OR 0x80) ?b1 = sws_frame_opcode ?v"
      using data_opcode_bits [OF op] b1 r(2) ctl
      by (auto simp: sws_frame_length_def Let_def frame_bits frame_sizes ws_opcodes simp del: add_2_eq_Suc add_2_eq_Suc')
    also have "\<dots> = sws_data_frame (?v\<lparr>is_control_frame := False\<rparr>)"
      using op r(2) by (auto simp: sws_frame_opcode_def Let_def data_opcode_def)
    also have "?v\<lparr>is_control_frame := False\<rparr> = in_frame r op key l ext" by (simp add: in_frame_def)
    finally show ?thesis .
  qed
  finally have "sws_received_hdr ?t = sws_data_frame (in_frame r op key l ext)" .
  then show ?thesis using fill len by (simp add: sws_deliver_def nn_sws_handler_def sws_active_def)
qed

text \<open>The limit of \<open>NN_RCVMAXSIZE\<close>, an \<open>int\<close>, allows the message.\<close>

definition within_limit :: "nn_sws \<Rightarrow> nat \<Rightarrow> bool" where
  "within_limit s n \<longleftrightarrow> sws_rcvmaxsize s < 0 \<or> int n \<le> sws_rcvmaxsize s \<and> sws_rcvmaxsize s < 2 ^ 31"

text \<open>There is memory for a message of one frame, and for the one it is handed on in.\<close>

definition memory_for :: "nn_sws \<Rightarrow> nat \<Rightarrow> bool" where
  "memory_for s n \<longleftrightarrow> sws_malloc s sizeof_msg_chunk \<and> chunkref_fits (sws_malloc s) (word_of_nat n)"

definition in_payload :: "nn_sws \<Rightarrow> nat \<Rightarrow> nn_sws" where
  "in_payload t n = t\<lparr>inmsg_total_size := word_of_nat n, inmsg_chunks := inmsg_chunks t + 1, inmsg_array := [replicate n 0],
     inmsg_current_chunk_buf := Some MSG_CHUNK, instate := RECV_PAYLOAD, sws_receiving := Some (BUF MSG_CHUNK, n)\<rparr>"

lemma unat_small: "n < 2 ^ 32 \<Longrightarrow> unat (word_of_nat n :: u64) = n"
  by (simp add: unat_of_nat)

lemma start_payload_first:
  assumes t: "\<not> is_control_frame t" "inmsg_total_size t = 0" "inmsg_array t = []" "inmsg_current_chunk_len t = word_of_nat n"
    and n: "n < 2 ^ 32" "within_limit t n" "memory_for t n"
  shows "sws_start_payload t r = Some (in_payload t n)"
proof -
  let ?len = "word_of_nat n :: u64"
  have u: "unat ?len = n" using n(1) by (rule unat_small)
  have "\<not> (sws_rcvmaxsize t \<ge> 0 \<and> ?len > word_of_int (sws_rcvmaxsize t))"
  proof
    assume a: "sws_rcvmaxsize t \<ge> 0 \<and> ?len > word_of_int (sws_rcvmaxsize t)"
    with n(2) have l: "int n \<le> sws_rcvmaxsize t" "sws_rcvmaxsize t < 2 ^ 31" by (auto simp: within_limit_def)
    with a have "uint (word_of_int (sws_rcvmaxsize t) :: u64) = sws_rcvmaxsize t" by (simp add: word_of_int_inverse)
    moreover have "uint ?len = int n" using u by (metis uint_nat)
    ultimately show False using a l by (simp add: word_less_def)
  qed
  then show ?thesis using t u n(3)
    by (auto simp: sws_start_payload_def nn_msg_chunk_new_def memory_for_def nn_usock_recv_def in_payload_def Let_def)
qed

lemma data_frame_rest:
  assumes r: "hdr_inv r" "\<not> continuing r" and k: "ws_masks r key" and w: "ws_length n = (l, ext)"
  shows "sws_data_frame (in_frame r op key l ext) = (
    if key = None \<and> ext = [] then
      (if n = 0 then sws_pipe_received ((in_frame r op key l ext)\<lparr>inmsg_current_chunk_len := 0, instate := RECVD_CHUNKED\<rparr>)
       else sws_start_payload ((in_frame r op key l ext)\<lparr>inmsg_current_chunk_len := word_of_nat n\<rparr>) ''Message larger than application allows.'')
    else Some (nn_usock_recv ((in_frame r op key l ext)\<lparr>instate := RECV_HDREXT\<rparr>) (INHDR 2) ((if key = None then 0 else 4) + length ext)))"
proof -
  have ctl: "n \<le> 125 \<and> ext = [] \<and> l = word_of_nat n \<or> 125 < n \<and> length ext = 2 \<or> 125 < n \<and> length ext = 8"
    using w by (auto simp: ws_length_def split: if_splits)
  have z: "(word_of_nat n :: byte) = 0 \<longleftrightarrow> n = 0" "unat (word_of_nat n :: byte) = n" "ucast (word_of_nat n :: byte) = (word_of_nat n :: u64)"
    if "n \<le> 125"
  proof -
    show u: "unat (word_of_nat n :: byte) = n" using that by (simp add: unat_of_nat)
    then show "(word_of_nat n :: byte) = 0 \<longleftrightarrow> n = 0" by (simp add: word_unat_eq_iff)
    show "ucast (word_of_nat n :: byte) = (word_of_nat n :: u64)" using that u
      by (simp add: word_unat_eq_iff unat_ucast_byte_up unat_of_nat)
  qed
  show ?thesis
  proof (cases "key = None \<and> ext = []")
    case True
    then have e: "key = None" "ext = []" by simp_all
    then have n: "n \<le> 125" "l = word_of_nat n" using ctl by auto
    have m: "sws_mode r = NN_WS_CLIENT" using e k by (simp add: ws_masks_def)
    note z = z [OF n(1)]
    show ?thesis
    proof (cases "n = 0")
      case True
      with n m e r(2) show ?thesis by (simp add: sws_data_frame_def in_frame_def Let_def)
    next
      case False
      then have "0 < l" using n z(1) by (simp add: word_gt_0)
      moreover from this have "l \<noteq> 0" by auto
      moreover have "unat l \<le> 125" "ucast l = (word_of_nat n :: u64)" using n z by simp_all
      ultimately show ?thesis using m e False
        by (simp add: sws_data_frame_def sws_header_rest_def in_frame_def frame_sizes)
    qed
  next
    case False
    let ?F = "in_frame r op key l ext"
    have e: "ext_hdr_len ?F = (if key = None then 0 else 4) + length ext" by (rule in_frame_ext)
    then have "ext_hdr_len ?F \<noteq> 0" using False by auto
    then have "sws_data_frame ?F = Some (nn_usock_recv (?F\<lparr>instate := RECV_HDREXT\<rparr>) (INHDR 2) (ext_hdr_len ?F))"
      by (simp add: sws_data_frame_def sws_header_rest_def frame_sizes)
    then show ?thesis unfolding if_not_P [OF False] e .
  qed
qed

text \<open>The rest of the header: the extended length and the key.\<close>

definition key_at :: "nn_sws \<Rightarrow> byte list option \<Rightarrow> bool" where
  "key_at t key \<longleftrightarrow> (case key of None \<Rightarrow> \<not> masked t
     | Some k \<Rightarrow> masked t \<and> length k = 4 \<and> (\<exists>off. sws_mask t = Some off \<and> off + 4 \<le> length (inhdr t) \<and> slice off 4 (inhdr t) = k))"

lemma deliver_hdrext:
  assumes r: "hdr_inv r" "\<not> continuing r" and k: "ws_masks r key" and w: "ws_length n = (l, ext)" and n: "n < 2 ^ 32"
    and more: "\<not> (key = None \<and> ext = [])" and kb: "kb = (case key of None \<Rightarrow> [] | Some k \<Rightarrow> k)"
    and op: "data_opcode op"
  shows "\<exists>t. sws_deliver add (nn_usock_recv ((in_frame r op key l ext)\<lparr>instate := RECV_HDREXT\<rparr>) (INHDR 2)
        ((if key = None then 0 else 4) + length ext)) (ext @ kb) =
      (if n = 0 then sws_pipe_received (t\<lparr>instate := RECVD_CHUNKED\<rparr>) else sws_start_payload t ''Message size exceeds limit.'')
    \<and> key_at t key \<and> inmsg_current_chunk_len t = word_of_nat n
    \<and> (\<exists>h m. length h = 14 \<and> t = (in_frame r op key l ext)\<lparr>sws_receiving := None, inhdr := h, instate := RECV_HDREXT, inmsg_current_chunk_len := word_of_nat n, sws_mask := m\<rparr>)"
proof -
  have ctl: "n \<le> 125 \<and> ext = [] \<and> l = word_of_nat n \<or> 125 < n \<and> n \<le> 65535 \<and> l = 126 \<and> ext = be_bytes 2 n
      \<or> 65535 < n \<and> l = 127 \<and> ext = be_bytes 8 n"
    using w by (auto simp: ws_length_def split: if_splits)
  then have le: "length ext \<in> {0, 2, 8}" by auto
  let ?s = "nn_usock_recv ((in_frame r op key l ext)\<lparr>instate := RECV_HDREXT\<rparr>) (INHDR 2) ((if key = None then 0 else 4) + length ext)"
  let ?b1 = "if key = None then l else l OR 0x80"
  have len: "length (drop 2 (inhdr r)) = 12" "sws_st r = SWS_ACTIVE" using r by (simp_all add: hdr_inv_def sws_base_def sws_sized_def frame_sizes)
  have kl: "length kb = (if key = None then 0 else 4)" using k kb by (auto simp: ws_masks_def split: option.splits)
  define h where "h = [op OR 0x80, ?b1] @ ext @ kb @ drop (length ext + length kb) (drop 2 (inhdr r))"
  let ?u = "(in_frame r op key l ext)\<lparr>sws_receiving := None, inhdr := h, instate := RECV_HDREXT\<rparr>"
  have fit: "length ext + length kb \<le> 12" using le kl by auto
  have "poke ([op OR 0x80, ?b1] @ drop 2 (inhdr r)) 2 (ext @ kb) = Some h"
    using fit len by (simp add: poke_def overwrite_def h_def numeral_2_eq_2)
  then have fill: "usock_fill ?s (ext @ kb) = Some ?u"
    using kl by (simp add: usock_fill_def nn_usock_recv_def in_frame_def)
  have hl: "length h = 14" using fit len by (simp add: h_def)
  have sl: "slice 2 (length ext) h = ext" "slice (2 + length ext) (length kb) h = kb"
    by (simp_all add: h_def slice_def numeral_2_eq_2)
  let ?t = "?u\<lparr>inmsg_current_chunk_len := word_of_nat n, sws_mask := if key = None then None else Some (2 + length ext)\<rparr>"
  have ext: "sws_extended_length ?u = Some (Some ?t)"
  proof -
    from ctl consider (1) "n \<le> 125" "ext = []" "l = word_of_nat n" | (2) "125 < n" "n \<le> 65535" "l = 126" "ext = be_bytes 2 n"
      | (3) "65535 < n" "l = 127" "ext = be_bytes 8 n" by blast
    then show ?thesis
    proof cases
      case 1
      have u: "unat (word_of_nat n :: byte) = n" using 1(1) by (simp add: unat_of_nat)
      then have "ucast (word_of_nat n :: byte) = (word_of_nat n :: u64)" using 1(1)
        by (simp add: word_unat_eq_iff unat_ucast_byte_up unat_of_nat)
      with u 1 show ?thesis by (simp add: sws_extended_length_def in_frame_def frame_sizes)
    next
      case 2
      have b: "bytes2 (word_of_nat n :: u16) = ext" using 2 by (simp add: bytes2_be unat_of_nat)
      then have "nn_gets h 2 = Some (word_of_nat n)" using sl(1) hl 2 dec2_bytes2 [of "word_of_nat n"] by (simp add: nn_gets_eq)
      moreover have "unat (word_of_nat n :: u16) = n" using 2 by (simp add: unat_of_nat)
      then have "ucast (word_of_nat n :: u16) = (word_of_nat n :: u64)" by (metis of_nat_unat)
      ultimately show ?thesis using 2 by (simp add: sws_extended_length_def in_frame_def frame_sizes frame_bits)
    next
      case 3
      have b: "bytes8 (word_of_nat n :: u64) = ext" using 3 n by (simp add: bytes8_be unat_of_nat)
      then have "nn_getll h 2 = Some (word_of_nat n)" using sl(1) hl 3 dec8_bytes8 [of "word_of_nat n"] by (simp add: nn_getll_eq)
      then show ?thesis using 3 by (simp add: sws_extended_length_def in_frame_def frame_sizes frame_bits)
    qed
  qed
  have z: "(word_of_nat n :: u64) = 0 \<longleftrightarrow> n = 0" using unat_small [OF n] by (auto simp: word_unat_eq_iff)
  have "ext_hdr_len ?u \<noteq> 0" using more by (auto simp: in_frame_ext)
  moreover have "op \<noteq> NN_WS_OPCODE_CLOSE" using op by (auto simp: data_opcode_def ws_opcodes)
  ultimately have "sws_received_hdrext ?u =
      (if n = 0 then sws_pipe_received (?t\<lparr>instate := RECVD_CHUNKED\<rparr>) else sws_start_payload ?t ''Message size exceeds limit.'')"
    using ext z unfolding sws_received_hdrext_def by simp
  then have "sws_deliver add ?s (ext @ kb) =
      (if n = 0 then sws_pipe_received (?t\<lparr>instate := RECVD_CHUNKED\<rparr>) else sws_start_payload ?t ''Message size exceeds limit.'')"
    using fill len by (simp add: sws_deliver_def nn_sws_handler_def sws_active_def in_frame_def)
  moreover have "key_at ?t key"
    using kb k sl(2) hl kl fit by (cases key) (simp_all add: key_at_def in_frame_def ws_masks_def)
  ultimately show ?thesis by (intro exI [of _ ?t] conjI) (assumption | (intro exI conjI, rule hl, rule refl) | simp)+
qed

text \<open>The payload.\<close>

definition on_wire :: "byte list option \<Rightarrow> byte list \<Rightarrow> byte list" where
  "on_wire key p = (case key of None \<Rightarrow> p | Some k \<Rightarrow> ws_masked k p)"

lemma length_on_wire [simp]: "length (on_wire key p) = length p"
  by (simp add: on_wire_def ws_masked_def split: option.splits)

definition arrived :: "nn_sws \<Rightarrow> byte list \<Rightarrow> nn_sws" where
  "arrived t p = (in_payload t (length p))\<lparr>sws_receiving := None, inmsg_array := [p]\<rparr>"

lemma deliver_payload:
  assumes t: "key_at t key" "\<not> is_control_frame t" "data_opcode (sws_opcode t)" "sws_st t = SWS_ACTIVE"
      "inmsg_current_chunk_len t = word_of_nat (length p)" and n: "length p < 2 ^ 32"
  shows "sws_deliver add (in_payload t (length p)) (on_wire key p) =
    (if sws_opcode t = NN_WS_OPCODE_TEXT then nn_sws_validate_utf8_chunk (arrived t p) else sws_chunk_done (arrived t p))"
proof -
  let ?u = "(in_payload t (length p))\<lparr>sws_receiving := None, inmsg_array := [on_wire key p]\<rparr>"
  have fill: "usock_fill (in_payload t (length p)) (on_wire key p) = Some ?u"
    by (simp add: usock_fill_def in_payload_def poke_def overwrite_all)
  have u: "unat (inmsg_current_chunk_len t) = length p" using t(5) unat_small [OF n] by simp
  have un: "sws_unmask ?u = Some (arrived t p)"
  proof (cases key)
    case None
    then show ?thesis using t(1) by (simp add: key_at_def sws_unmask_def arrived_def on_wire_def in_payload_def)
  next
    case (Some k)
    then obtain off where off: "masked t" "length k = 4" "sws_mask t = Some off" "off + 4 \<le> length (inhdr t)" "slice off 4 (inhdr t) = k"
      using t(1) by (auto simp: key_at_def)
    have b: "chunk_bytes_at ?u = Some (ws_masked k p)"
      using u Some length_on_wire [of key p] by (simp add: chunk_bytes_at_def in_payload_def on_wire_def)
    have "mask_bytes k 0 (ws_masked k p) = p"
      using off(2) by (simp add: mask_bytes_twice flip: mask_bytes_masked)
    moreover have "length (ws_masked k p) < 2 ^ 32" "k \<noteq> []" using n off(2) by (auto simp: ws_masked_def)
    ultimately have m: "nn_sws_mask_payload (ws_masked k p) k None = Some (p, 0)" by (simp add: nn_sws_mask_payload_def)
    have "length (ws_masked k p) = length p" by (simp add: ws_masked_def)
    then have st: "store_chunk ?u p = Some (arrived t p)"
      using Some by (simp add: store_chunk_def in_payload_def arrived_def on_wire_def poke_def overwrite_all)
    have "inhdr ?u = inhdr t" "masked ?u = masked t" "sws_mask ?u = sws_mask t" by (simp_all add: in_payload_def)
    with b m st off show ?thesis by (simp add: sws_unmask_def frame_sizes)
  qed
  have "sws_received_payload ?u =
      (if sws_opcode t = NN_WS_OPCODE_TEXT then nn_sws_validate_utf8_chunk (arrived t p) else sws_chunk_done (arrived t p))"
    using un t(3) by (auto simp: sws_received_payload_def arrived_def in_payload_def data_opcode_def ws_opcodes)
  moreover have "nn_sws_handler add ?u NN_USOCK_RECEIVED = sws_received_payload ?u"
    using t(4) by (simp add: nn_sws_handler_def sws_active_def in_payload_def)
  ultimately show ?thesis using fill by (simp add: sws_deliver_def)
qed

lemma scan_text: "scan_code_points p = Some All_valid \<longleftrightarrow> utf8_text p"
proof (induction p rule: scan_code_points.induct)
  case (1 p)
  show ?case
  proof (cases "p = [] \<or> nn_utf8_code_point p \<le> 0")
    case True
    show ?thesis
    proof (cases "p = []")
      case False
      with True code_point_range [of p] have "nn_utf8_code_point p < 0"
        by (auto simp: NN_SWS_UTF8_INVALID_def NN_SWS_UTF8_FRAGMENT_def)
      with False utf8_text_bad [of p] show ?thesis by (subst scan_code_points.simps) (auto simp: Let_def)
    qed (subst scan_code_points.simps, simp)
  next
    case False
    then obtain n where n: "nn_utf8_code_point p = int n" "0 < n" using zero_less_imp_eq_int [of "nn_utf8_code_point p"] by auto
    then obtain c where "n = length (utf8_encode c)" "take n p = utf8_encode c" using code_point_iff by blast
    then have le: "n \<le> length p" by (metis length_take min.cobounded2 min.commute)
    have "scan_code_points p = scan_code_points (drop n p)" using False n le by (subst scan_code_points.simps) simp
    with 1 [OF _ refl] False n le utf8_text_cons [OF n] show ?thesis by simp
  qed
qed

text \<open>A message has been taken in.\<close>

definition delivered :: "byte \<Rightarrow> byte list \<Rightarrow> nn_sws \<Rightarrow> bool" where
  "delivered op p s \<longleftrightarrow> memory_for s (length p) \<and> sws_st s = SWS_ACTIVE \<and> instate s = RECVD_CHUNKED \<and> pb_instate (sws_pipebase s) = IN_IDLE
     \<and> sws_receiving s = None \<and> concat (inmsg_array s) = p \<and> inmsg_hdr s = op OR 0x80 \<and> is_final_frame s
     \<and> inmsg_total_size s = word_of_nat (length p) \<and> sws_sized s \<and> utf8_code_pt_fragment_len s < NN_SWS_UTF8_MAX_CODEPOINT_LEN"

lemma received_delivered:
  assumes "sws_st s = SWS_ACTIVE" "instate s = RECVD_CHUNKED" "pb_instate (sws_pipebase s) = IN_ASYNC" "sws_receiving s = None"
    "concat (inmsg_array s) = p" "inmsg_hdr s = op OR 0x80" "is_final_frame s" "inmsg_total_size s = word_of_nat (length p)"
    "sws_sized s" "utf8_code_pt_fragment_len s < NN_SWS_UTF8_MAX_CODEPOINT_LEN" "memory_for s (length p)"
  shows "\<exists>s'. sws_pipe_received s = Some s' \<and> delivered op p s'"
  using assms by (simp add: memory_for_def sws_pipe_received_def nn_pipebase_received_def delivered_def sws_sized_def)

lemma arrived_verdict:
  assumes v: "v = arrived t p" and t: "sws_sized t" "sws_st t = SWS_ACTIVE" "pb_instate (sws_pipebase t) = IN_ASYNC" "is_final_frame t"
      "inmsg_hdr t = op OR 0x80" "inmsg_current_chunk_len t = word_of_nat (length p)"
      "utf8_code_pt_fragment_len t < NN_SWS_UTF8_MAX_CODEPOINT_LEN"
    and n: "length p < 2 ^ 32" and fresh: "op = NN_WS_OPCODE_TEXT \<longrightarrow> utf8_code_pt_fragment_len t = 0"
    and mem: "memory_for t (length p)"
  shows "\<exists>s. (if op = NN_WS_OPCODE_TEXT then nn_sws_validate_utf8_chunk v else sws_chunk_done v) = Some s
    \<and> (if op = NN_WS_OPCODE_TEXT \<and> \<not> utf8_text p then sws_closed s \<and> sws_receiving s = None else delivered op p s)"
proof -
  have f: "sws_sized v" "sws_st v = SWS_ACTIVE" "pb_instate (sws_pipebase v) = IN_ASYNC" "is_final_frame v" "inmsg_hdr v = op OR 0x80"
      "sws_receiving v = None" "inmsg_array v = [p]" "inmsg_total_size v = word_of_nat (length p)"
      "utf8_code_pt_fragment_len v = utf8_code_pt_fragment_len t" "chunk_bytes_at v = Some p" "memory_for v (length p)"
    using t mem unat_small [OF n] by (simp_all add: memory_for_def v arrived_def in_payload_def sws_sized_def chunk_bytes_at_def)
  have dn: "\<exists>s. sws_chunk_done (v\<lparr>utf8_code_pt_fragment_len := a, utf8_code_pt_fragment := b\<rparr>) = Some s \<and> delivered op p s"
    if "a < NN_SWS_UTF8_MAX_CODEPOINT_LEN" "length b = NN_SWS_UTF8_MAX_CODEPOINT_LEN" for a b
    using f that by (simp add: sws_chunk_done_def) (rule received_delivered, simp_all add: sws_sized_def memory_for_def)
  show ?thesis
  proof (cases "op = NN_WS_OPCODE_TEXT")
    case False
    have "\<exists>s. sws_chunk_done v = Some s \<and> delivered op p s"
      using f t(7) by (simp add: sws_chunk_done_def) (rule received_delivered, simp_all add: sws_sized_def memory_for_def)
    with False show ?thesis by simp
  next
    case True
    with fresh f have fl: "utf8_code_pt_fragment_len v = 0" by simp
    obtain r where r: "scan_code_points p = Some r" "\<forall>q. r = Fragment_at q \<longrightarrow> length q < 4" using scan_ends by blast
    have fail: "\<exists>s. nn_sws_fail_conn u c m = Some s \<and> sws_closed s \<and> sws_receiving s = None"
      if "sws_sized u" "sws_st u = SWS_ACTIVE" "length m \<le> 60" "sws_receiving u = None" for u c m
      using fail_conn_ok [OF that(1-3), of c] asks_fail [OF that(4) [folded f(6)], of c m] that(4) f(6)
      by (auto simp: asks_def sws_closed_def)
    show ?thesis
    proof (cases r)
      case All_valid
      then have "utf8_text p" using r(1) scan_text by simp
      with True All_valid r(1) f(10) fl dn [where a = 0 and b = "replicate NN_SWS_UTF8_MAX_CODEPOINT_LEN 0"] show ?thesis by (simp add: nn_sws_validate_utf8_chunk_def frame_sizes)
    next
      case (Invalid_at q)
      then have nt: "\<not> utf8_text p" using r(1) scan_text [of p] by auto
      have "sws_sized (v\<lparr>utf8_code_pt_fragment_len := 0, utf8_code_pt_fragment := replicate NN_SWS_UTF8_MAX_CODEPOINT_LEN 0\<rparr>)"
        using f(1) by (simp add: sws_sized_def)
      from fail [OF this] f nt True Invalid_at r(1) fl show ?thesis by (simp add: nn_sws_validate_utf8_chunk_def frame_sizes)
    next
      case (Fragment_at q)
      then have nt: "\<not> utf8_text p" using r(1) scan_text [of p] by auto
      let ?f = "overwrite (utf8_code_pt_fragment v) 0 q"
      have p: "poke (utf8_code_pt_fragment v) 0 q = Some ?f"
        using f(1) Fragment_at r(2) by (simp add: poke_def sws_sized_def frame_sizes)
      have "sws_sized (v\<lparr>utf8_code_pt_fragment_len := length q, utf8_code_pt_fragment := ?f\<rparr>)"
        using f(1) length_poke [OF p] by (simp add: sws_sized_def)
      from fail [OF this] f p nt True Fragment_at r(1) fl show ?thesis by (simp add: nn_sws_validate_utf8_chunk_def frame_sizes)
    qed
  qed
qed

text \<open>What comes of a frame.\<close>

definition verdict :: "byte \<Rightarrow> byte list \<Rightarrow> nn_sws \<Rightarrow> bool" where
  "verdict op p s \<longleftrightarrow> (if op = NN_WS_OPCODE_TEXT \<and> \<not> utf8_text p then sws_closed s \<and> sws_receiving s = None else delivered op p s)"

lemma verdict_receiving: "verdict op p s \<Longrightarrow> sws_receiving s = None"
  by (auto simp: verdict_def delivered_def split: if_splits)

text \<open>The facts about the state that a frame is looked at in, on which its payload rests.\<close>

definition frame_facts :: "nn_sws \<Rightarrow> byte \<Rightarrow> nn_sws \<Rightarrow> bool" where
  "frame_facts r op t \<longleftrightarrow> \<not> is_control_frame t \<and> sws_opcode t = op \<and> sws_sized t \<and> sws_st t = SWS_ACTIVE
     \<and> pb_instate (sws_pipebase t) = IN_ASYNC \<and> is_final_frame t \<and> inmsg_hdr t = op OR 0x80 \<and> inmsg_total_size t = 0
     \<and> inmsg_array t = [] \<and> sws_receiving t = None \<and> sws_rcvmaxsize t = sws_rcvmaxsize r \<and> sws_malloc t = sws_malloc r
     \<and> utf8_code_pt_fragment_len t = utf8_code_pt_fragment_len r \<and> utf8_code_pt_fragment_len r < NN_SWS_UTF8_MAX_CODEPOINT_LEN"

lemma frame_facts_in_frame:
  assumes r: "hdr_inv r" "\<not> continuing r" and h: "length h = 14"
  shows "frame_facts r op ((in_frame r op key l ext)\<lparr>sws_receiving := None, inhdr := h, instate := i, inmsg_current_chunk_len := n, sws_mask := m\<rparr>)"
    "frame_facts r op ((in_frame r op key l ext)\<lparr>inmsg_current_chunk_len := n\<rparr>)"
proof -
  have "length (inhdr (in_frame r op key l ext)) = 14"
    using r by (simp add: in_frame_def hdr_inv_def sws_base_def sws_sized_def frame_sizes)
  moreover have "inmsg_total_size r = 0 \<and> inmsg_array r = []"
    using r by (simp add: hdr_inv_def sws_base_def word_unat_eq_iff)
  ultimately show "frame_facts r op ((in_frame r op key l ext)\<lparr>sws_receiving := None, inhdr := h, instate := i, inmsg_current_chunk_len := n, sws_mask := m\<rparr>)"
    "frame_facts r op ((in_frame r op key l ext)\<lparr>inmsg_current_chunk_len := n\<rparr>)"
    using r h by (simp_all add: frame_facts_def hdr_inv_def sws_base_def sws_sized_def frame_sizes)
qed

lemma feed_payload:
  assumes t: "frame_facts r op t" "key_at t key" "inmsg_current_chunk_len t = word_of_nat (length p)"
    and op: "data_opcode op" and n: "length p < 2 ^ 32" "0 < length p" "within_limit r (length p)" "memory_for r (length p)"
    and fresh: "op = NN_WS_OPCODE_TEXT \<longrightarrow> utf8_code_pt_fragment_len r = 0"
    and s: "sws_start_payload t m = Some s'"
  shows "\<exists>s. sws_feed add s' (on_wire key p) = Some (s, []) \<and> verdict op p s"
proof -
  have "sws_start_payload t m = Some (in_payload t (length p))"
    by (rule start_payload_first) (use t n in \<open>simp_all add: frame_facts_def within_limit_def memory_for_def\<close>)
  with s have s': "s' = in_payload t (length p)" by simp
  have ask: "sws_receiving s' = Some (BUF MSG_CHUNK, length (on_wire key p))" by (simp add: s' in_payload_def)
  have ne: "on_wire key p \<noteq> []" using n(2) by (metis length_greater_0_conv length_on_wire)
  have d: "sws_deliver add s' (on_wire key p) =
      (if op = NN_WS_OPCODE_TEXT then nn_sws_validate_utf8_chunk (arrived t p) else sws_chunk_done (arrived t p))"
    unfolding s' using deliver_payload [OF t(2) _ _ _ t(3) n(1)] t(1) op by (simp add: frame_facts_def)
  obtain s where s: "sws_deliver add s' (on_wire key p) = Some s" "verdict op p s"
    using arrived_verdict [OF refl _ _ _ _ _ t(3) _ n(1), of op] t(1) fresh n(4) unfolding d
    by (auto simp: frame_facts_def verdict_def memory_for_def)
  from feed_step [OF ask ne s(1), of "[]"] feed_stop [OF verdict_receiving [OF s(2)]] s(2) show ?thesis by auto
qed

lemma received_empty:
  assumes "frame_facts r op t" "memory_for r 0"
  shows "\<exists>s. sws_pipe_received (t\<lparr>instate := RECVD_CHUNKED\<rparr>) = Some s \<and> verdict op [] s"
proof -
  have "\<exists>s. sws_pipe_received (t\<lparr>instate := RECVD_CHUNKED\<rparr>) = Some s \<and> delivered op [] s"
    by (rule received_delivered) (use assms in \<open>simp_all add: frame_facts_def sws_sized_def memory_for_def\<close>)
  then show ?thesis by (simp add: verdict_def)
qed

lemma feed_frame:
  assumes r: "hdr_inv r" "\<not> continuing r" and op: "data_opcode op" and k: "ws_masks r key"
    and n: "length p < 2 ^ 32" "within_limit r (length p)" "memory_for r (length p)"
    and fresh: "op = NN_WS_OPCODE_TEXT \<longrightarrow> utf8_code_pt_fragment_len r = 0"
  shows "\<exists>s. sws_feed add r (ws_frame op key p) = Some (s, []) \<and> verdict op p s"
proof -
  obtain l ext where w: "ws_length (length p) = (l, ext)" by fastforce
  define kb where "kb = (case key of None \<Rightarrow> [] | Some k \<Rightarrow> k)"
  let ?b1 = "if key = None then l else l OR 0x80"
  let ?F = "in_frame r op key l ext"
  have frame: "ws_frame op key p = [op OR 0x80, ?b1] @ ((ext @ kb) @ on_wire key p)"
    using w by (simp add: ws_frame_def kb_def on_wire_def split: option.splits)
  have ask: "sws_receiving r = Some (INHDR 0, length [op OR 0x80, ?b1])" using r by (simp add: hdr_inv_def frame_sizes)
  have d: "sws_deliver add r [op OR 0x80, ?b1] = sws_data_frame ?F" by (rule deliver_header [OF r op k w])
  have hl: "length (replicate 14 (0 :: byte)) = 14" by simp
  show ?thesis
  proof (cases "key = None \<and> ext = []")
    case True
    let ?t = "?F\<lparr>inmsg_current_chunk_len := word_of_nat (length p)\<rparr>"
    have t: "frame_facts r op ?t" "key_at ?t key" using frame_facts_in_frame(2) [OF r hl] True by (simp_all add: key_at_def)
    have rest: "sws_feed add r (ws_frame op key p) = sws_feed add s' (on_wire key p)" if "sws_data_frame ?F = Some s'" for s'
      using feed_step [OF ask _ d [unfolded that], of "(ext @ kb) @ on_wire key p"] True frame by (simp add: kb_def)
    show ?thesis
    proof (cases "p = []")
      case empty: True
      obtain s where s: "sws_pipe_received (?t\<lparr>instate := RECVD_CHUNKED\<rparr>) = Some s" "verdict op [] s"
        using received_empty [OF t(1)] n(3) empty by auto
      then have "sws_data_frame ?F = Some s" using data_frame_rest [OF r k w, of op] True empty by simp
      from rest [OF this] feed_stop [OF verdict_receiving [OF s(2)]] s(2) empty show ?thesis by (auto simp: on_wire_def ws_masked_def split: option.splits)
    next
      case False
      let ?m = "''Message larger than application allows.''"
      have sp: "sws_start_payload ?t ?m = Some (in_payload ?t (length p))"
        by (rule start_payload_first) (use t(1) n in \<open>simp_all add: frame_facts_def within_limit_def memory_for_def\<close>)
      then have "sws_data_frame ?F = Some (in_payload ?t (length p))" using data_frame_rest [OF r k w, of op] True False by simp
      from rest [OF this] feed_payload [OF t _ op n(1) _ n(2,3) fresh sp] False show ?thesis by simp
    qed
  next
    case False
    let ?N = "(if key = None then 0 else 4) + length ext"
    let ?s = "nn_usock_recv (?F\<lparr>instate := RECV_HDREXT\<rparr>) (INHDR 2) ?N"
    have df: "sws_data_frame ?F = Some ?s" using data_frame_rest [OF r k w, of op] unfolding if_not_P [OF False] .
    have kl: "length (ext @ kb) = ?N" using k by (auto simp: kb_def ws_masks_def split: option.splits)
    then have ask2: "sws_receiving ?s = Some (INHDR 2, length (ext @ kb))" by (simp add: nn_usock_recv_def)
    have ne: "ext @ kb \<noteq> []" using False k by (auto simp: kb_def ws_masks_def split: option.splits)
    let ?m = "''Message size exceeds limit.''"
    obtain t h m where t: "sws_deliver add ?s (ext @ kb) =
        (if length p = 0 then sws_pipe_received (t\<lparr>instate := RECVD_CHUNKED\<rparr>) else sws_start_payload t ?m)"
      "key_at t key" "inmsg_current_chunk_len t = word_of_nat (length p)"
      "t = ?F\<lparr>sws_receiving := None, inhdr := h, instate := RECV_HDREXT, inmsg_current_chunk_len := word_of_nat (length p), sws_mask := m\<rparr>"
      "length h = 14"
      using deliver_hdrext [OF r k w n(1) False kb_def op, of add] by blast
    have ff: "frame_facts r op t" unfolding t(4) using t(5) by (rule frame_facts_in_frame(1) [OF r])
    have rest: "sws_feed add r (ws_frame op key p) = sws_feed add s' (on_wire key p)" if "sws_deliver add ?s (ext @ kb) = Some s'" for s'
      using feed_step [OF ask _ d [unfolded df], of "(ext @ kb) @ on_wire key p"] feed_step [OF ask2 ne that, of "on_wire key p"]
      by (simp add: frame)
    show ?thesis
    proof (cases "p = []")
      case empty: True
      obtain s where s: "sws_pipe_received (t\<lparr>instate := RECVD_CHUNKED\<rparr>) = Some s" "verdict op [] s"
        using received_empty [OF ff] n(3) empty by auto
      then have "sws_deliver add ?s (ext @ kb) = Some s" using t(1) empty by simp
      from rest [OF this] feed_stop [OF verdict_receiving [OF s(2)]] s(2) empty show ?thesis by (auto simp: on_wire_def ws_masked_def split: option.splits)
    next
      case False
      have sp: "sws_start_payload t ?m = Some (in_payload t (length p))"
        by (rule start_payload_first) (use ff t(3) n in \<open>simp_all add: frame_facts_def within_limit_def memory_for_def\<close>)
      then have "sws_deliver add ?s (ext @ kb) = Some (in_payload t (length p))" using t(1) False by simp
      from rest [OF this] feed_payload [OF ff t(2,3) op n(1) _ n(2,3) fresh sp] False show ?thesis by simp
    qed
  qed
qed

section \<open>From one session to the other\<close>

lemma msg_type_found:
  assumes "opcode_cmsg fresh op = Some h"
  shows "out_opcode (c\<lparr>outmsg := \<lparr>m_sphdr = x, m_hdrs = h, m_body = y\<rparr>\<rparr>) = Some op"
proof -
  have sp: "NN_CMSG_SPACE 1 = 24" "NN_CMSG_SPACE 0 = 16" "NN_CMSG_ALIGN 24 = 24"
    by (simp_all add: NN_CMSG_SPACE_def NN_CMSG_ALIGN_def)
  have "length fresh = 24" using assms sp by (simp add: opcode_cmsg_def split: if_splits)
  then have h: "h = overwrite (overwrite (overwrite (overwrite fresh 8 (le_bytes 4 NN_WS)) 12 (le_bytes 4 NN_WS_MSG_TYPE)) 0 (le_bytes 8 24)) 16 [op]"
    using assms sp by (simp add: opcode_cmsg_def mem_simps)
  have len: "length h = 24" and p: "peek h 16 = Some op" and sl: "slice 0 8 h = le_bytes 8 24" "slice 8 4 h = le_bytes 4 NN_WS"
      "slice 12 4 h = le_bytes 4 NN_WS_MSG_TYPE"
    using \<open>length fresh = 24\<close> by (simp_all add: h mem_simps)
  have l: "cmsg_len h 0 = Some 24" using len sl by (simp add: cmsg_len_def le_nat_le_bytes)
  have "nn_cmsg_nxthdr h None = Some (Some 0)" using len l sp by (simp add: nn_cmsg_nxthdr_def)
  moreover have "find_msg_type h (Some 0) = Some (Some 0)"
    using sl by (subst find_msg_type.simps) (simp add: le_nat_le_bytes NN_WS_def NN_WS_MSG_TYPE_def)
  ultimately show ?thesis using len p by (auto simp: out_opcode_def)
qed

lemma recv_delivered:
  assumes d: "delivered op p s" and op: "data_opcode op" and n: "length p < 2 ^ 32" and f: "length fresh = 24"
  shows "\<exists>m s'. sws_pipe_recv fresh s = Some (m, s') \<and> m_sphdr m = [] \<and> m_body m = p
    \<and> (\<forall>c. out_opcode (c\<lparr>outmsg := m\<rparr>) = Some op) \<and> hdr_inv s' \<and> \<not> continuing s'"
proof -
  have b: "(op OR 0x80) AND NOT 0x80 = op" "op AND 0x0F = op" "(op OR 0x80) AND 0x80 \<noteq> 0"
    using op by (auto simp: data_opcode_def ws_opcodes)
  have "\<exists>h. opcode_cmsg fresh op = Some h"
    using f by (simp add: opcode_cmsg_def NN_CMSG_SPACE_def NN_CMSG_ALIGN_def poke_def length_overwrite)
  then obtain h where h: "opcode_cmsg fresh op = Some h" by blast
  let ?t = "s\<lparr>sws_pipebase := (sws_pipebase s)\<lparr>pb_instate := IN_RECEIVING\<rparr>, inmsg_array := [], continuing := False\<rparr>"
  obtain u where u: "nn_sws_recv_hdr ?t = Some u" by (simp add: nn_sws_recv_hdr_def)
  let ?m = "\<lparr>m_sphdr = [], m_hdrs = h, m_body = p\<rparr>"
  let ?u = "u\<lparr>sws_pipebase := (sws_pipebase u)\<lparr>pb_instate := IN_ASYNC\<rparr>\<rparr>"
  have "sws_pipe_recv fresh s = Some (?m, ?u)"
    using d b op h u unat_small [OF n]
    by (auto simp: sws_pipe_recv_def nn_sws_recv_def delivered_def memory_for_def frame_bits data_opcode_def)
  moreover have "hdr_inv ?u \<and> \<not> continuing ?u"
    using u d by (auto simp: nn_sws_recv_hdr_def Let_def nn_usock_recv_def hdr_inv_def sws_base_def sws_sized_def delivered_def frame_sizes)
  moreover have "out_opcode (c\<lparr>outmsg := ?m\<rparr>) = Some op" for c by (rule msg_type_found [OF h])
  ultimately show ?thesis by (intro exI [of _ ?m] exI [of _ ?u]) simp
qed

end
