(* ===== verification/NN_Sws_Props.thy ===== *)
theory NN_Sws_Props
  imports NN_Sws_Frames
begin

text \<open>The properties of the WebSocket session, each with a run it applies to.\<close>

unbundle bit_operations_syntax

section \<open>Two sessions\<close>

text \<open>A session in memory that is all zero, connected; the socket is added without an error.\<close>

definition zero_sws :: nn_sws where
  "zero_sws = \<lparr>sws_st = SWS_IDLE, sws_msg_type = 0, sws_mode = NN_WS_CLIENT, sws_pipebase = nn_pipebase_init 0 0,
     instate = SWS_IN_NONE, inhdr = replicate NN_SWS_FRAME_MAX_HDR_LEN 0, sws_opcode = 0, payload_ctl = 0, masked = False,
     sws_mask = None, ext_hdr_len = 0, is_final_frame = False, is_control_frame = False, continuing = False,
     utf8_code_pt_fragment = replicate NN_SWS_UTF8_MAX_CODEPOINT_LEN 0, utf8_code_pt_fragment_len = 0,
     pings_received = 0, pongs_received = 0, inmsg_array = [], inmsg_current_chunk_buf = None, inmsg_current_chunk_len = 0,
     inmsg_total_size = 0, inmsg_chunks = 0, inmsg_hdr = 0, inmsg_control = replicate NN_SWS_PAYLOAD_MAX_LENGTH 0,
     fail_msg = replicate NN_SWS_PAYLOAD_MAX_LENGTH 0, fail_msg_len = 0, outstate = SWS_OUT_NONE, outhdr = [],
     outmsg = plain_msg [], sws_receiving = None, sws_sent = [], sws_rcvmaxsize = 1048576, sws_malloc = (\<lambda>_. True), sws_random = 0, sws_events = []\<rparr>"

definition connected :: "sws_mode \<Rightarrow> byte \<Rightarrow> nn_sws" where
  "connected mode t = (case sws_connect (\<lambda>_. 0) (nn_sws_init 8 8 zero_sws) mode t of Some s \<Rightarrow> s | None \<Rightarrow> zero_sws)"

lemma connected_ok: "sws_connect (\<lambda>_. 0) (nn_sws_init 8 8 zero_sws) mode t = Some (connected mode t)"
  by (simp add: connected_def sws_connect_def nn_sws_start_def nn_sws_handler_def nn_sws_init_def zero_sws_def
      nn_pipebase_start_def nn_pipebase_init_def Let_def raise_event_def nn_sws_recv_hdr_def)

lemma connected_session: "session (\<lambda>_. 0) (connected mode t)"
  by (rule session_start [OF _ connected_ok]) (simp add: sws_sized_def zero_sws_def)

lemma connected_fields:
  "sws_st (connected mode t) = SWS_ACTIVE" "instate (connected mode t) = RECV_HDR" "\<not> continuing (connected mode t)"
  "sws_receiving (connected mode t) = Some (INHDR 0, 2)" "outstate (connected mode t) = SWS_OUT_IDLE"
  "sws_mode (connected mode t) = mode" "sws_msg_type (connected mode t) = t" "sws_rcvmaxsize (connected mode t) = 1048576"
  "sws_malloc (connected mode t) = (\<lambda>_. True)"
  "utf8_code_pt_fragment_len (connected mode t) = 0" "inmsg_array (connected mode t) = []"
  "inhdr (connected mode t) = replicate 14 0" "inmsg_total_size (connected mode t) = 0"
  "outmsg (connected mode t) = plain_msg []"
  by (simp_all add: connected_def sws_connect_def nn_sws_start_def nn_sws_handler_def nn_sws_init_def zero_sws_def
      nn_pipebase_start_def nn_pipebase_init_def Let_def raise_event_def nn_sws_recv_hdr_def nn_usock_recv_def frame_sizes)

lemma connected_memory: "n < 2 ^ 32 \<Longrightarrow> memory_for (connected mode t) n"
  using unat_small [of n] unat_add_lem [of nn_chunk_hdrsize "word_of_nat n"]
  by (simp add: memory_for_def chunkref_fits_def connected_fields word_less_nat_alt nn_chunk_hdrsize_def sizeof_nn_chunk_def)

text \<open>A session that waits for the header of a message.\<close>

lemma session_awaits:
  assumes "session add s" "sws_st s = SWS_ACTIVE" "instate s = RECV_HDR"
  shows "hdr_inv s"
  using session_inv [OF assms(1)] assms(2,3)
  by (auto simp: run_inv_def sws_inv_def ext_inv_def ext_pre_def payload_inv_def payload_pre_def ready_inv_def)

section \<open>The session is well formed\<close>

text \<open>What the socket is asked for fits the place it goes to.\<close>

definition asked_fits :: "nn_sws \<Rightarrow> bool" where
  "asked_fits s \<longleftrightarrow> (case sws_receiving s of
       None \<Rightarrow> instate s = RECVD_CHUNKED \<or> instate s = RECVD_CONTROL
     | Some (INHDR off, n) \<Rightarrow> 0 < n \<and> off + n \<le> length (inhdr s)
     | Some (BUF INMSG_CONTROL, n) \<Rightarrow> 0 < n \<and> n \<le> length (inmsg_control s)
     | Some (BUF MSG_CHUNK, n) \<Rightarrow> 0 < n \<and> inmsg_array s \<noteq> [] \<and> n = length (last (inmsg_array s)))"

text \<open>C38. In every state a run of a session reaches while it is active, the arrays of the structure have
  the lengths of their declarations, at most three bytes of a code point are kept, the total size is
  that of the fragments, and the socket has been asked for a positive number of bytes that
  fit the place they go to, or for none exactly while a message waits to be taken.\<close>

theorem nn_sws_well_formed:
  assumes "session add s" "sws_st s = SWS_ACTIVE"
  shows "length (inhdr s) = 14 \<and> length (inmsg_control s) = 125 \<and> length (fail_msg s) = 125
    \<and> length (utf8_code_pt_fragment s) = 4 \<and> utf8_code_pt_fragment_len s \<le> 3
    \<and> unat (inmsg_total_size s) = length (concat (inmsg_array s)) \<and> asked_fits s"
proof -
  from session_inv [OF assms(1)] assms(2) have i: "sws_inv s" "ready_inv s \<longrightarrow> sws_receiving s = None" by (simp_all add: run_inv_def)
  then have b: "sws_base s"
    by (auto simp: sws_inv_def hdr_inv_def ext_inv_def ext_pre_def payload_inv_def payload_pre_def ready_inv_def frame_ok_def)
  from i(1) consider "hdr_inv s" | "ext_inv s" | "payload_inv s" | "ready_inv s" by (auto simp: sws_inv_def)
  then have "asked_fits s"
  proof cases
    case 1
    with b show ?thesis by (simp add: asked_fits_def hdr_inv_def sws_base_def sws_sized_def frame_sizes)
  next
    case 2
    have "ext_size s \<le> 12" by (simp add: ext_size_def frame_sizes)
    with 2 b show ?thesis
      by (auto simp: asked_fits_def ext_inv_def ext_pre_def sws_base_def sws_sized_def frame_sizes)
  next
    case 3
    with b show ?thesis
      by (auto simp: asked_fits_def payload_inv_def payload_pre_def chunk_ok_def sws_base_def sws_sized_def split: if_splits)
  next
    case 4
    with i(2) show ?thesis by (auto simp: asked_fits_def ready_inv_def)
  qed
  with b show ?thesis by (simp add: sws_base_def sws_sized_def frame_sizes)
qed

theorem nn_sws_well_formed_witness:
  "length (inhdr (connected NN_WS_SERVER 2)) = 14 \<and> asked_fits (connected NN_WS_SERVER 2)"
  using nn_sws_well_formed [OF connected_session connected_fields(1)] by blast

section \<open>What a peer can do\<close>

text \<open>C33. A peer cannot make an active session fail, whatever it sends, except in the ways \<open>sws_crash\<close>
  names: in every state a run reaches, the bytes the session waits for are handled, with no failed
  assertion, no unexpected event and no access outside an array, if and only if they do not
  announce a chunk within the limit that there is no memory for (\<open>malloc\<close> does not give it, or its
  size wraps \<open>size_t\<close>; the limit is checked against a total that can wrap too), hold \<open>2 ^ 32\<close> masked
  bytes or more, or complete a four byte code point that began in an earlier frame.\<close>

theorem nn_sws_survives_peer:
  assumes "session add s" "sws_st s = SWS_ACTIVE" "sws_receiving s = Some (b, n)" "length bs = n"
  shows "\<exists>t. usock_fill s bs = Some t \<and> (sws_deliver add s bs = None \<longleftrightarrow> sws_crash t)"
proof -
  from session_inv [OF assms(1)] assms(2,3) have s: "sws_inv s" "\<not> sws_huge s" "\<not> ready_inv s" by (auto simp: run_inv_def)
  have r: "sws_receiving s = Some (b, length bs)" using assms(3,4) by simp
  from deliver_cases [OF s(1,2) r s(3), of add] show ?thesis
    by (auto simp: sws_goes_on_def sws_survives_def split: if_splits)
qed

theorem nn_sws_survives_peer_witness:
  "sws_deliver (\<lambda>_. 0) (connected NN_WS_SERVER 2) [0x89, 0x80] \<noteq> None"
  using nn_sws_survives_peer [OF connected_session connected_fields(1,4), of "[0x89, 0x80]"]
  by (auto simp: usock_fill_def connected_fields poke_def overwrite_def sws_crash_def
      header_refused_def)

section \<open>A message goes through\<close>

text \<open>C34. A message goes through: what \<open>nn_sws_send\<close> of a client or server puts on the wire for a binary
  message, or a text in UTF-8, within the limit and the memory of the peer, makes the peer's session, when it waits
  for a message, deliver exactly its header and body, with ancillary data that name the opcode, and
  wait for the next message; all bytes are used up.\<close>

theorem nn_sws_message_roundtrip:
  assumes a: "sws_st a = SWS_ACTIVE" "outstate a = SWS_OUT_IDLE" and op: "out_opcode (a\<lparr>outmsg := m\<rparr>) = Some op"
      "op = NN_WS_OPCODE_BINARY \<or> op = NN_WS_OPCODE_TEXT \<and> utf8_text (m_sphdr m @ m_body m) \<and> utf8_code_pt_fragment_len b = 0"
    and n: "msg_size m < 2 ^ 32" "within_limit b (msg_size m)" "length fresh = 24"
      "memory_for b (msg_size m)"
    and b: "session add b" "sws_st b = SWS_ACTIVE" "instate b = RECV_HDR" "\<not> continuing b" "sws_mode b \<noteq> sws_mode a"
  shows "\<exists>a' frame b' m' b''. nn_sws_send a m = Some (0, a') \<and> sws_sent a' = sws_sent a @ [frame]
    \<and> sws_feed add b frame = Some (b', []) \<and> sws_pipe_recv fresh b' = Some (m', b'')
    \<and> m_body m' = m_sphdr m @ m_body m \<and> m_sphdr m' = [] \<and> out_opcode (c\<lparr>outmsg := m'\<rparr>) = Some op
    \<and> instate b'' = RECV_HDR \<and> \<not> continuing b''"
proof -
  let ?p = "m_sphdr m @ m_body m"
  have dop: "data_opcode op" using op(2) by (auto simp: data_opcode_def)
  have p: "length ?p < 2 ^ 32" "within_limit b (length ?p)" "memory_for b (length ?p)" using n by (simp_all add: msg_size_def)
  obtain a' where a': "nn_sws_send a m = Some (0, a')" "sws_sent a' = sws_sent a @ [ws_frame op (ws_key a) ?p]"
    using send_frame [OF a op(1) n(1)] by blast
  have k: "ws_masks b (ws_key a)"
    using b(5) by (cases "sws_mode a"; cases "sws_mode b") (simp_all add: ws_masks_def ws_key_def)
  have h: "hdr_inv b" by (rule session_awaits [OF b(1-3)])
  obtain b' where b': "sws_feed add b (ws_frame op (ws_key a) ?p) = Some (b', [])" "verdict op ?p b'"
    using feed_frame [OF h b(4) dop k p, of add] op(2) by (auto simp: ws_opcodes)
  then have d: "delivered op ?p b'" using op(2) by (auto simp: verdict_def ws_opcodes)
  obtain m' b'' where r: "sws_pipe_recv fresh b' = Some (m', b'')" "m_sphdr m' = []" "m_body m' = ?p"
      "out_opcode (c\<lparr>outmsg := m'\<rparr>) = Some op" "hdr_inv b''" "\<not> continuing b''"
    using recv_delivered [OF d dop p(1) n(3)] by blast
  with a' b'(1) show ?thesis
    by (intro exI [of _ a'] exI [of _ "ws_frame op (ws_key a) ?p"] exI [of _ b'] exI [of _ m'] exI [of _ b''])
      (simp add: hdr_inv_def)
qed

lemma connected_op: "out_opcode (connected mode t\<lparr>outmsg := plain_msg bs\<rparr>) = Some t"
  by (simp add: out_opcode_def plain_msg_def connected_fields)

theorem nn_sws_message_roundtrip_witness:
  "\<exists>a' frame b' m' b''. nn_sws_send (connected NN_WS_CLIENT 1) (plain_msg [0x68, 0x69]) = Some (0, a')
    \<and> sws_sent a' = sws_sent (connected NN_WS_CLIENT 1) @ [frame]
    \<and> sws_feed (\<lambda>_. 0) (connected NN_WS_SERVER 2) frame = Some (b', [])
    \<and> sws_pipe_recv (replicate 24 0) b' = Some (m', b'') \<and> m_body m' = [0x68, 0x69] \<and> m_sphdr m' = []
    \<and> out_opcode (zero_sws\<lparr>outmsg := m'\<rparr>) = Some 1 \<and> instate b'' = RECV_HDR \<and> \<not> continuing b''"
proof -
  have "utf8_text [0x68, 0x69]"
    by (subst utf8_text_cons [where n = 1]; simp add: nn_utf8_code_point_def)+
  then show ?thesis
    using nn_sws_message_roundtrip [where a = "connected NN_WS_CLIENT 1" and m = "plain_msg [0x68, 0x69]" and op = 1
        and b = "connected NN_WS_SERVER 2" and add = "\<lambda>_. 0" and fresh = "replicate 24 0" and c = zero_sws]
    by (simp add: connected_fields connected_memory connected_op connected_session ws_opcodes msg_size_def within_limit_def plain_msg_def
        connected_op [unfolded plain_msg_def])
qed

section \<open>Text\<close>

text \<open>C35. A text message in one frame is delivered if and only if it is UTF-8 in the sense of RFC 3629
  (the encoding of scalar values, shortest form, no surrogates); otherwise the session closes the
  connection.\<close>

theorem nn_sws_text_checked:
  assumes r: "session add r" "sws_st r = SWS_ACTIVE" "instate r = RECV_HDR" "\<not> continuing r" "utf8_code_pt_fragment_len r = 0"
    and k: "ws_masks r key" and n: "length p < 2 ^ 32" "within_limit r (length p)" "memory_for r (length p)"
  shows "\<exists>s. sws_feed add r (ws_frame NN_WS_OPCODE_TEXT key p) = Some (s, []) \<and>
    (if utf8_text p then sws_st s = SWS_ACTIVE \<and> instate s = RECVD_CHUNKED \<and> concat (inmsg_array s) = p
     else sws_st s \<in> {SWS_CLOSING_CONNECTION, SWS_DONE})"
proof -
  have h: "hdr_inv r" by (rule session_awaits [OF r(1-3)])
  have "data_opcode NN_WS_OPCODE_TEXT" by (simp add: data_opcode_def)
  from feed_frame [OF h r(4) this k n, of add] r(5) show ?thesis
    by (auto simp: verdict_def delivered_def sws_closed_def)
qed

theorem nn_sws_text_checked_witness:
  "\<exists>s. sws_feed (\<lambda>_. 0) (connected NN_WS_CLIENT 2) (ws_frame NN_WS_OPCODE_TEXT None [0xED, 0xA0, 0x80]) = Some (s, [])
    \<and> sws_st s \<in> {SWS_CLOSING_CONNECTION, SWS_DONE}"
proof -
  have "nn_utf8_code_point [0xED, 0xA0, 0x80] < 0" by (simp add: nn_utf8_code_point_def NN_SWS_UTF8_INVALID_def)
  then have "\<not> utf8_text [0xED, 0xA0, 0x80]" by (rule utf8_text_bad) simp
  then show ?thesis
    using nn_sws_text_checked [where r = "connected NN_WS_CLIENT 2" and key = None and p = "[0xED, 0xA0, 0x80]" and add = "\<lambda>_. 0"]
    by (simp add: connected_fields connected_memory connected_session ws_masks_def within_limit_def)
qed

section \<open>Two ways to make a session fail\<close>

lemma four_byte_prefix:
  "nn_utf8_code_point [b0, b1, b2, b3] = 4 \<Longrightarrow> nn_utf8_code_point [b0, b1, b2] = NN_SWS_UTF8_FRAGMENT"
  by (auto simp: nn_utf8_code_point_def Let_def NN_SWS_UTF8_INVALID_def NN_SWS_UTF8_FRAGMENT_def split: if_splits)

lemmas run_simps = sws_deliver_def usock_fill_def nn_sws_handler_def sws_active_def sws_received_hdr_def sws_frame_length_def
  sws_frame_opcode_def sws_data_frame_def sws_header_rest_def sws_start_payload_def nn_msg_chunk_new_def chunkref_fits_def NN_CHUNKREF_MAX_def nn_usock_recv_def
  peek_def poke_def overwrite_def nn_chunk_hdrsize_def sizeof_nn_chunk_def frame_sizes frame_bits ws_opcodes Let_def

lemmas connected_unfold = connected_def sws_connect_def nn_sws_start_def nn_sws_init_def zero_sws_def
  nn_pipebase_start_def nn_pipebase_init_def raise_event_def nn_sws_recv_hdr_def

lemmas payload_simps = sws_received_payload_def sws_unmask_def nn_sws_validate_utf8_chunk_def chunk_bytes_at_def

lemma feed_fails:
  "sws_receiving s = Some (buf, length a) \<Longrightarrow> a \<noteq> [] \<Longrightarrow> sws_deliver add s a = None \<Longrightarrow> sws_feed add s (a @ b) = None"
  by (subst sws_feed.simps) simp

lemma split_run:
  assumes v: "nn_utf8_code_point [b0, b1, b2, b3] = 4"
  shows "sws_feed (\<lambda>_. 0) (connected NN_WS_CLIENT t) ([0x01, 0x03] @ [b0, b1, b2] @ [0x80, 0x01] @ [b3] @ []) = None"
proof -
  have p: "nn_utf8_code_point [b0, b1, b2] = NN_SWS_UTF8_FRAGMENT" using v by (rule four_byte_prefix)
  let ?s0 = "connected NN_WS_CLIENT t"
  define s1 where "s1 = the (sws_deliver (\<lambda>_. 0) ?s0 [0x01, 0x03])"
  have 1: "sws_deliver (\<lambda>_. 0) ?s0 [0x01, 0x03] = Some s1" "sws_receiving s1 = Some (BUF MSG_CHUNK, length [b0, b1, b2])"
    by (simp_all add: s1_def connected_unfold run_simps)
  define s2 where "s2 = the (sws_deliver (\<lambda>_. 0) s1 [b0, b1, b2])"
  have sc: "scan_code_points [b0, b1, b2] = Some (Fragment_at [b0, b1, b2])"
    using p by (subst scan_code_points.simps) (simp add: NN_SWS_UTF8_FRAGMENT_def NN_SWS_UTF8_INVALID_def frame_sizes)
  then have 2: "sws_deliver (\<lambda>_. 0) s1 [b0, b1, b2] = Some s2" "sws_receiving s2 = Some (INHDR 0, length [0x80, 0x01 :: byte])"
    by (simp_all add: s2_def s1_def connected_unfold run_simps payload_simps)
  define s3 where "s3 = the (sws_deliver (\<lambda>_. 0) s2 [0x80, 0x01])"
  from sc have 3: "sws_deliver (\<lambda>_. 0) s2 [0x80, 0x01] = Some s3" "sws_receiving s3 = Some (BUF MSG_CHUNK, length [b3])"
    by (simp_all add: s3_def s2_def s1_def connected_unfold run_simps payload_simps)
  have "continue_code_point [b0, b1, b2, 0] (Suc (Suc (Suc 0))) [b3] = Some ([b0, b1, b2, b3], 4, Inr [])"
    using v by (simp add: continue_code_point_def poke_def overwrite_def numeral_eq_Suc)
  with sc have 4: "sws_deliver (\<lambda>_. 0) s3 [b3] = None"
    by (simp add: s3_def s2_def s1_def connected_unfold run_simps payload_simps)
  show ?thesis
    using feed_step [OF _ _ 1(1)] feed_step [OF 1(2) _ 2(1)] feed_step [OF 2(2) _ 3(1)] feed_fails [OF 3(2) _ 4]
    by (simp add: connected_fields)
qed

lemma dec8_ones: "dec8 (replicate 8 0xFF) = 0xFFFFFFFFFFFFFFFF"
  by code_simp

lemma wrap_run:
  "sws_feed (\<lambda>_. 0) (connected NN_WS_CLIENT t) ([0x02, 0x01] @ [x] @ [0x80, 0x7F] @ replicate 8 0xFF @ []) = None"
proof -
  let ?s0 = "connected NN_WS_CLIENT t"
  define s1 where "s1 = the (sws_deliver (\<lambda>_. 0) ?s0 [0x02, 0x01])"
  have 1: "sws_deliver (\<lambda>_. 0) ?s0 [0x02, 0x01] = Some s1" "sws_receiving s1 = Some (BUF MSG_CHUNK, length [x])"
    by (simp_all add: s1_def connected_unfold run_simps)
  define s2 where "s2 = the (sws_deliver (\<lambda>_. 0) s1 [x])"
  have 2: "sws_deliver (\<lambda>_. 0) s1 [x] = Some s2" "sws_receiving s2 = Some (INHDR 0, length [0x80, 0x7F :: byte])"
    by (simp_all add: s2_def s1_def connected_unfold run_simps payload_simps sws_chunk_done_def)
  define s3 where "s3 = the (sws_deliver (\<lambda>_. 0) s2 [0x80, 0x7F])"
  have 3: "sws_deliver (\<lambda>_. 0) s2 [0x80, 0x7F] = Some s3" "sws_receiving s3 = Some (INHDR 2, length (replicate 8 (0xFF :: byte)))"
    by (simp_all add: s3_def s2_def s1_def connected_unfold run_simps payload_simps sws_chunk_done_def)
  have 4: "sws_deliver (\<lambda>_. 0) s3 (replicate 8 0xFF) = None"
    by (simp add: s3_def s2_def s1_def connected_unfold run_simps payload_simps sws_chunk_done_def sws_received_hdrext_def
       sws_extended_length_def nn_getll_eq slice_def dec8_ones)
  show ?thesis
    using feed_step [OF _ _ 1(1)] feed_step [OF 1(2) _ 2(1)] feed_step [OF 2(2) _ 3(1)] feed_fails [OF 3(2) _ 4, of "[]"]
    by (simp add: connected_fields)
qed

text \<open>C37. Two of the ways to fail are open to any peer right after the handshake: a text whose four byte
  code point is split three to one over two frames, although RFC 6455 allows it, and a fragment of
  one byte followed by a header that announces \<open>2 ^ 64 - 1\<close> bytes, which wraps the total size to 0
  and so passes the limit. In both the process aborts.\<close>

theorem nn_sws_peer_can_crash:
  assumes "scalar_value c" "0x10000 \<le> c"
  shows "sws_feed (\<lambda>_. 0) (connected NN_WS_CLIENT t)
      ([0x01, 0x03] @ take 3 (utf8_encode c) @ [0x80, 0x01] @ drop 3 (utf8_encode c)) = None
    \<and> sws_feed (\<lambda>_. 0) (connected NN_WS_CLIENT t) ([0x02, 0x01] @ [x] @ [0x80, 0x7F] @ replicate 8 0xFF) = None"
proof -
  obtain b0 b1 b2 b3 where e: "utf8_encode c = [b0, b1, b2, b3]" using assms(2) by (simp add: utf8_encode_def utf8_nats_def)
  have "nn_utf8_code_point (utf8_encode c) = int (length (utf8_encode c))"
    using code_point_iff [of "length (utf8_encode c)" "utf8_encode c"] assms(1) by auto
  then have "nn_utf8_code_point [b0, b1, b2, b3] = 4" by (simp add: e)
  from split_run [OF this, of t] wrap_run [of t x] show ?thesis by (simp add: e)
qed

theorem nn_sws_peer_can_crash_witness:
  "sws_feed (\<lambda>_. 0) (connected NN_WS_CLIENT 2) [0x01, 0x03, 0xF0, 0x9F, 0x98, 0x80, 0x01, 0x80] = None"
  using nn_sws_peer_can_crash [where c = "0x1F600" and t = 2 and x = 0] by (simp add: scalar_value_def utf8_encode_def utf8_nats_def)

section \<open>A second connection\<close>

text \<open>C36. A session is started again for the next connection when the one it had breaks, with what it had
  received of a message. If that was not a fragment, the assertion in \<open>nn_sws_recv_hdr\<close> fails as soon
  as the next handshake ends; if it was, the fragments of the broken connection are kept and the
  session takes the first frame of the new one for their continuation.\<close>

theorem nn_sws_reconnect:
  assumes "session add s" "sws_st s = SWS_ACTIVE" "\<And>p. 0 \<le> add p"
  shows "\<exists>s1 s2. nn_sws_handler add s NN_USOCK_ERROR = Some s1 \<and> nn_sws_shutdown s1 True True = Some s2 \<and> sws_st s2 = SWS_IDLE
    \<and> (if continuing s \<or> inmsg_array s = []
       then \<exists>s3. sws_connect add s2 mode t = Some s3 \<and> instate s3 = RECV_HDR \<and> continuing s3 = continuing s
         \<and> inmsg_array s3 = inmsg_array s
       else sws_connect add s2 mode t = None)"
proof -
  have na: "\<not> add p < 0" for p using assms(3) [of p] by simp
  show ?thesis using assms(2) na
    by (auto simp: nn_sws_handler_def sws_active_def sws_done_def raise_event_def sws_pipe_stop_def nn_pipebase_stop_def
        nn_sws_shutdown_def sws_connect_def nn_sws_start_def nn_pipebase_start_def Let_def nn_sws_recv_hdr_def nn_usock_recv_def)
qed

theorem nn_sws_reconnect_witness:
  "\<exists>s s1 s2. sws_feed (\<lambda>_. 0) (connected NN_WS_CLIENT 2) [0x82, 0x05, 0x68] = Some (s, [0x68])
    \<and> nn_sws_handler (\<lambda>_. 0) s NN_USOCK_ERROR = Some s1 \<and> nn_sws_shutdown s1 True True = Some s2
    \<and> sws_connect (\<lambda>_. 0) s2 NN_WS_CLIENT 2 = None"
proof -
  let ?s0 = "connected NN_WS_CLIENT 2"
  define s where "s = the (sws_deliver (\<lambda>_. 0) ?s0 [0x82, 0x05])"
  have d: "sws_deliver (\<lambda>_. 0) ?s0 [0x82, 0x05] = Some s" and r: "sws_receiving s = Some (BUF MSG_CHUNK, 5)"
    and a: "inmsg_array s = [replicate 5 0]" "\<not> continuing s" "sws_st s = SWS_ACTIVE"
    by (simp_all add: s_def connected_unfold run_simps)
  have "session (\<lambda>_. 0) s" by (rule session_bytes [OF connected_session d]) (simp add: sws_huge_def a)
  from nn_sws_reconnect [OF this a(3), of NN_WS_CLIENT 2] a
  obtain s1 s2 where "nn_sws_handler (\<lambda>_. 0) s NN_USOCK_ERROR = Some s1" "nn_sws_shutdown s1 True True = Some s2"
      "sws_connect (\<lambda>_. 0) s2 NN_WS_CLIENT 2 = None" by auto
  moreover have "sws_feed (\<lambda>_. 0) ?s0 ([0x82, 0x05] @ [0x68]) = Some (s, [0x68])"
    using feed_step [OF _ _ d, of _ "[0x68]"] r by (simp add: connected_fields sws_feed.simps)
  ultimately show ?thesis by auto
qed

end
