(* ===== verification/NN_Sws_Mask.thy ===== *)
theory NN_Sws_Mask
  imports NN_Sws_Frames NN_Chunkref
begin

text \<open>
  \<open>nn_sws_send\<close> of a client masks the message where it is: in the chunks of its references. Copies of a
  message share these chunks.
\<close>

section \<open>Masking in place\<close>

text \<open>The bytes of a reference, and writing as many to the same place.\<close>

definition ref_bytes :: "nn_chunkref \<Rightarrow> chunk_mem \<Rightarrow> byte list option" where
  "ref_bytes r h = do {
     n \<leftarrow> nn_chunkref_size r h;
     case nn_chunkref_data r of
       Inl p \<Rightarrow> do {
         b \<leftarrow> blocks h (fst p);
         if snd p + unat n \<le> length (area b) then Some (slice (snd p) (unat n) (area b)) else None }
     | Inr bs \<Rightarrow> if unat n \<le> length bs then Some (take (unat n) bs) else None }"

definition set_ref_bytes :: "nn_chunkref \<Rightarrow> byte list \<Rightarrow> chunk_mem \<Rightarrow> (nn_chunkref \<times> chunk_mem) option" where
  "set_ref_bytes r bs h = (case nn_chunkref_data r of
       Inl p \<Rightarrow> do {
         b \<leftarrow> blocks h (fst p);
         m \<leftarrow> poke (area b) (snd p) bs;
         Some (r, set_block h p (b\<lparr>area := m\<rparr>)) }
     | Inr _ \<Rightarrow> map_option (\<lambda>m. (r\<lparr>inl := m\<rparr>, h)) (poke (inl r) 0 bs))"

definition mask_ref :: "byte list \<Rightarrow> nat \<Rightarrow> nn_chunkref \<Rightarrow> chunk_mem \<Rightarrow> (nat \<times> nn_chunkref \<times> chunk_mem) option" where
  "mask_ref key pos r h = do {
     bs \<leftarrow> ref_bytes r h;
     (bs, pos) \<leftarrow> nn_sws_mask_payload bs key (Some pos);
     (r, h) \<leftarrow> set_ref_bytes r bs h;
     Some (pos, r, h) }"

text \<open>The masking of \<open>nn_sws_send\<close>, beginning with the header and moving to the body.\<close>

definition mask_outmsg :: "byte list \<Rightarrow> nn_msg \<Rightarrow> chunk_mem \<Rightarrow> (nn_msg \<times> chunk_mem) option" where
  "mask_outmsg key m h = do {
     (pos, s, h) \<leftarrow> mask_ref key 0 (sphdr m) h;
     (pos, b, h) \<leftarrow> mask_ref key pos (body m) h;
     Some (m\<lparr>sphdr := s, body := b\<rparr>, h) }"

section \<open>What it does\<close>

lemma ref_bytes_holds:
  assumes "holds h r bs n"
  shows "ref_bytes r h = Some bs"
  using assms
proof (rule holdsE)
  assume i: "bs = take (unat (tag r)) (inl r)" "unat (tag r) < NN_CHUNKREF_MAX" "length (inl r) = 31"
  then have "unat (ucast (tag r) :: u64) = unat (tag r)" by (simp add: unat_ucast_byte_up)
  with i small_not_ff [OF i(2)] show ?thesis
    by (simp add: ref_bytes_def nn_chunkref_size_def nn_chunkref_data_def NN_CHUNKREF_MAX_def)
next
  fix b
  assume c: "tag r = 0xff" "valid_chunk h (chunk r) b" "bs = chunk_bytes b (chunk r)"
  with valid_size [OF c(2)] show ?thesis
    by (simp add: ref_bytes_def nn_chunkref_size_def nn_chunkref_data_def valid_chunk_def chunk_bytes_def)
qed

lemma set_ref_bytes_inline:
  assumes "holds h r bs n" "tag r \<noteq> 0xff" "length cs = length bs"
  shows "\<exists>r'. set_ref_bytes r cs h = Some (r', h) \<and> holds g r' cs 1 \<and> tag r' \<noteq> 0xff"
  using assms(1)
proof (rule holdsE)
  assume i: "bs = take (unat (tag r)) (inl r)" "unat (tag r) < NN_CHUNKREF_MAX" "length (inl r) = 31"
  then have l: "length cs = unat (tag r)" "length cs \<le> 31" using assms(3) by (simp_all add: NN_CHUNKREF_MAX_def)
  let ?r = "r\<lparr>inl := overwrite (inl r) 0 cs\<rparr>"
  have "set_ref_bytes r cs h = Some (?r, h)"
    using assms(2) i(3) l by (simp add: set_ref_bytes_def nn_chunkref_data_def poke_def)
  moreover have "holds g ?r cs 1"
    by (rule holds_inline) (use i l in \<open>simp_all add: length_overwrite overwrite_def\<close>)
  ultimately show ?thesis using assms(2) by auto
qed (use assms(2) in simp)

lemma set_ref_bytes_chunk:
  assumes "holds h r bs n" "tag r = 0xff" "length cs = length bs"
  shows "\<exists>h'. set_ref_bytes r cs h = Some (r, h') \<and> holds h' r cs n"
  using assms(1)
proof (rule holdsE)
  assume "unat (tag r) < NN_CHUNKREF_MAX"
  with assms(2) show ?thesis by (simp add: NN_CHUNKREF_MAX_def)
next
  fix b
  assume c: "tag r = 0xff" "valid_chunk h (chunk r) b" "bs = chunk_bytes b (chunk r)" "n = refcount b" "length (inl r) = 31"
  let ?o = "snd (chunk r)"
  have v: "blocks h (fst (chunk r)) = Some b" "8 \<le> ?o" "?o + unat (csize b) \<le> length (area b)"
    using c(2) by (simp_all add: valid_chunk_def)
  have l: "length cs = unat (csize b)" using assms(3) c by (simp add: length_chunk_bytes)
  let ?b = "b\<lparr>area := overwrite (area b) ?o cs\<rparr>"
  have g: "nn_getl (overwrite (area b) ?o cs) i = nn_getl (area b) i" if "i + 4 \<le> ?o" for i
    using that v l by (simp add: nn_getl_eq length_overwrite slice_overwrite_before)
  have val: "valid_chunk (set_block h (chunk r) ?b) (chunk r) ?b"
    using c(2) v l g [of "?o - 4"] g [of "?o - 8"] by (simp add: valid_chunk_def length_overwrite)
  have "holds (set_block h (chunk r) ?b) r cs n"
    by (rule holds_chunk [OF c(1) val c(5)]) (use v l c(4) in \<open>simp_all add: chunk_bytes_def slice_overwrite_same\<close>)
  moreover have "set_ref_bytes r cs h = Some (r, set_block h (chunk r) ?b)"
    using c(1) v l by (simp add: set_ref_bytes_def nn_chunkref_data_def poke_def)
  ultimately show ?thesis by blast
qed

lemma mask_ref_inline:
  assumes "holds h r bs n" "tag r \<noteq> 0xff" "length key = 4" "length bs < 2 ^ 32"
  shows "\<exists>r'. mask_ref key pos r h = Some ((length bs + pos) mod 4, r', h) \<and> (\<forall>g. holds g r' (mask_bytes key pos bs) 1)"
proof -
  have k: "key \<noteq> []" using assms(3) by auto
  obtain r' where r': "set_ref_bytes r (mask_bytes key pos bs) h = Some (r', h)" "holds h r' (mask_bytes key pos bs) 1" "tag r' \<noteq> 0xff"
    using set_ref_bytes_inline [OF assms(1,2), of "mask_bytes key pos bs" h] by auto
  have "holds g r' (mask_bytes key pos bs) 1" for g
    using set_ref_bytes_inline [OF assms(1,2), of "mask_bytes key pos bs" g] r'(1) by auto
  with r'(1) k assms(3,4) ref_bytes_holds [OF assms(1)] show ?thesis
    by (auto simp: mask_ref_def nn_sws_mask_payload_def)
qed

lemma mask_ref_chunk:
  assumes "holds h r bs n" "tag r = 0xff" "length key = 4" "length bs < 2 ^ 32"
  shows "\<exists>h'. mask_ref key pos r h = Some ((length bs + pos) mod 4, r, h') \<and> holds h' r (mask_bytes key pos bs) n"
proof -
  have k: "key \<noteq> []" using assms(3) by auto
  obtain h' where "set_ref_bytes r (mask_bytes key pos bs) h = Some (r, h')" "holds h' r (mask_bytes key pos bs) n"
    using set_ref_bytes_chunk [OF assms(1,2), of "mask_bytes key pos bs"] by auto
  with k assms(3,4) ref_bytes_holds [OF assms(1)] show ?thesis
    by (auto simp: mask_ref_def nn_sws_mask_payload_def)
qed

lemma masked_append: "length k = 4 \<Longrightarrow> ws_masked k (x @ p) = mask_bytes k 0 x @ mask_bytes k (length x) p"
  by (simp add: mask_bytes_append flip: mask_bytes_masked)

text \<open>
  C39. A client masks a message where it is. Of two copies of a message sent by clients one after the other,
  the second goes out wrong if the body is in a chunk, which the copies share: what its peer
  reads, having taken off the mask, is the header and the body still masked with the key of the first.
  If the body is inline, the peer reads the message.
\<close>

theorem nn_sws_masks_shared_chunk:
  assumes m: "holds h (sphdr m) x 1" "tag (sphdr m) \<noteq> 0xff" "holds h (body m) p n"
    and k: "length k1 = 4" "length k2 = 4" and len: "length p < 2 ^ 32"
  shows "\<exists>m1 h1 m2 h2 y q j. mask_outmsg k1 m h = Some (m1, h1) \<and> mask_outmsg k2 (nn_msg_bulkcopy_cp d m) h1 = Some (m2, h2)
    \<and> holds h2 (sphdr m2) y 1 \<and> holds h2 (body m2) q j
    \<and> ws_masked k2 (y @ q) = (if tag (body m) = 0xff then x @ drop (length x) (ws_masked k1 (x @ p)) else x @ p)"
proof -
  have lx: "length x < 2 ^ 32" using m(1,2) by (auto elim!: holdsE simp: NN_CHUNKREF_MAX_def)
  have cp: "nn_msg_bulkcopy_cp d m = m" by (simp add: nn_msg_bulkcopy_cp_def nn_chunkref_bulkcopy_cp_def)
  have mm: "mask_bytes k (length x mod 4) b = mask_bytes k (length x) b" if "length k = 4" for k b
    using mask_bytes_mod [of k "length x" b] that by simp
  obtain s1 where s1: "mask_ref k1 0 (sphdr m) h = Some (length x mod 4, s1, h)"
    using mask_ref_inline [OF m(1,2) k(1) lx, of 0] by auto
  show ?thesis
  proof (cases "tag (body m) = 0xff")
    case True
    obtain h1 where h1: "mask_ref k1 (length x mod 4) (body m) h = Some ((length p + length x mod 4) mod 4, body m, h1)"
        "holds h1 (body m) (mask_bytes k1 (length x) p) n"
      using mask_ref_chunk [OF m(3) True k(1) len, of "length x mod 4"] mm [OF k(1)] by auto
    have "holds h1 (sphdr m) x 1" using m(1,2) by (auto elim!: holdsE intro: holds_inline)
    then obtain s2 where s2: "mask_ref k2 0 (sphdr m) h1 = Some (length x mod 4, s2, h1)" "\<And>g. holds g s2 (mask_bytes k2 0 x) 1"
      using mask_ref_inline [OF _ m(2) k(2) lx, of h1 1 0] by auto
    obtain h2 i where h2: "mask_ref k2 (length x mod 4) (body m) h1 = Some (i, body m, h2)"
        "holds h2 (body m) (mask_bytes k2 (length x) (mask_bytes k1 (length x) p)) n"
      using mask_ref_chunk [OF h1(2) True k(2), of "length x mod 4"] len mm [OF k(2)] by auto
    have "ws_masked k2 (mask_bytes k2 0 x @ mask_bytes k2 (length x) (mask_bytes k1 (length x) p)) = x @ mask_bytes k1 (length x) p"
      using masked_append [OF k(2), of "mask_bytes k2 0 x"] by (simp add: mask_bytes_twice)
    then show ?thesis
      using s1 h1(1) s2 h2 True masked_append [OF k(1), of x p] by (auto simp: mask_outmsg_def cp)
  next
    case False
    obtain b1 i where b1: "mask_ref k1 (length x mod 4) (body m) h = Some (i, b1, h)"
      using mask_ref_inline [OF m(3) False k(1) len] by blast
    obtain s2 where s2: "mask_ref k2 0 (sphdr m) h = Some (length x mod 4, s2, h)" "\<And>g. holds g s2 (mask_bytes k2 0 x) 1"
      using mask_ref_inline [OF m(1,2) k(2) lx, of 0] by auto
    obtain b2 i' where b2: "mask_ref k2 (length x mod 4) (body m) h = Some (i', b2, h)" "holds h b2 (mask_bytes k2 (length x) p) 1"
      using mask_ref_inline [OF m(3) False k(2) len, of "length x mod 4"] mm [OF k(2)] by auto
    have "ws_masked k2 (mask_bytes k2 0 x @ mask_bytes k2 (length x) p) = x @ p"
      using masked_append [OF k(2), of "mask_bytes k2 0 x"] by (simp add: mask_bytes_twice)
    then show ?thesis using s1 b1 s2 b2 False by (auto simp: mask_outmsg_def cp)
  qed
qed

theorem nn_sws_masks_shared_chunk_witness:
  "\<exists>m1 h1 m2 h2 y q j. mask_outmsg [1, 0, 0, 0]
      \<lparr>sphdr = blank_ref, hdrs = blank_ref, body = blank_ref\<lparr>tag := 0xff, chunk := (0, 8)\<rparr>\<rparr> (small_mem 2) = Some (m1, h1)
    \<and> mask_outmsg [0, 2, 0, 0] (nn_msg_bulkcopy_cp \<lparr>sphdr = blank_ref, hdrs = blank_ref, body = blank_ref\<rparr>
        \<lparr>sphdr = blank_ref, hdrs = blank_ref, body = blank_ref\<lparr>tag := 0xff, chunk := (0, 8)\<rparr>\<rparr>) h1 = Some (m2, h2)
    \<and> holds h2 (sphdr m2) y 1 \<and> holds h2 (body m2) q j \<and> ws_masked [0, 2, 0, 0] (y @ q) = [0, 2, 3]"
proof -
  let ?r = "blank_ref\<lparr>tag := 0xff, chunk := (0, 8)\<rparr>"
  let ?m = "\<lparr>sphdr = blank_ref, hdrs = blank_ref, body = ?r\<rparr>"
  have b: "holds (small_mem 2) ?r [1, 2, 3] 2"
    by (rule holds_chunk [where b = "small_chunk 2"])
      (use small_mem_valid [of 2] in \<open>simp_all add: blank_ref_def small_chunk_def chunk_bytes_def slice_def\<close>)
  have s: "holds (small_mem 2) blank_ref [] 1" by (rule holds_inline) (simp_all add: blank_ref_def NN_CHUNKREF_MAX_def)
  have "ws_masked [1, 0, 0, 0] [1, 2, 3] = [0, 2, 3]" by (simp add: ws_masked_def)
  then show ?thesis
    using nn_sws_masks_shared_chunk [of "small_mem 2" ?m "[]" "[1, 2, 3]" 2 "[1, 0, 0, 0]" "[0, 2, 0, 0]"
      "\<lparr>sphdr = blank_ref, hdrs = blank_ref, body = blank_ref\<rparr>"] b s
    by (simp add: blank_ref_def)
qed

end
