(* ===== verification/Spec2Isabelle.thy ===== *)
theory Spec2Isabelle
  imports Getd_Flaws NN_Chunkref NN_Hash NN_Queue NN_Msgqueue NN_Lb_Fq NN_Dist NN_Trie NN_Socket_Props NN_Reqrep_Props NN_Sws_Props NN_Sws_Mask
begin

text \<open>
  \<^bold>\<open>A verification library for getd and the messaging library it ships.\<close>

  \<^bold>\<open>The program.\<close> getd (\<open>src/main.c\<close>, \<open>requestHandlers.c\<close>, \<open>requestVerify.c\<close>, \<open>requests.h\<close>) is a
  file server: a client opens a session, names a file, and gets it in pieces of 4096 bytes. It
  talks to its client over a pair socket of nanomsg 1.1.5, whose sources are part of the
  repository (\<open>src/nanomsg-1.1.5/src\<close>; the copy inside it, \<open>src/nanomsg-1.1.5/nanomsg-1.1.5\<close>, is
  identical and not mapped again). nanomsg is a stack: containers and messages (\<open>utils\<close>), the pipes
  between protocols and transports (\<open>core/pipe.c\<close>), the schedulers of pipes
  (\<open>protocols/utils\<close>), the protocols themselves, and transports below them.

  \<^bold>\<open>Conventions.\<close> Memory is a list of bytes per C object; \<open>None\<close> is undefined behaviour (an access
  outside the object), a failed \<open>nn_assert\<close>, which aborts the process, or a loop that does not end. A
  theorem that a function is \<open>Some\<close> therefore says that the code runs to its end, within its objects and
  with all its assertions true. Structures that the code links by pointers live in explicit stores
  from addresses to records (lists, queues, hash items, chunks, pipes, the data a protocol attaches to a
  pipe). Machine integers are words of their width where they can wrap. Error codes are negative
  integers, as in the code. The operating system, the allocator, random numbers and the transports
  below a pipe are parameters; what is assumed of them is a named hypothesis (\<open>sane_transport\<close>: a
  transport's codes are flags; \<open>honest_transport\<close>: it announces a message only if there is one, and a
  message taken is gone; \<open>raw_transport\<close>: a message it has not parsed has no header). Memory
  allocation can fail where \<open>malloc_env\<close> is a parameter (chunks) and in WebSocket sessions (\<open>sws_malloc\<close>: the
  sizes \<open>malloc\<close> gives at the moment, which change in a run); elsewhere it does not. \<open>fopen\<close> depends on the
  path and on how many streams are open.

  \<^bold>\<open>getd.\<close>
  \<^item> \<open>Getd_Prelude\<close>: bytes in an object (\<open>peek\<close>, \<open>poke\<close>, \<open>slice\<close>), byte order, lemma collections.
  \<^item> \<open>C_Strings\<close>: the functions of \<open>string.h\<close> and \<open>stdio.h\<close> the program calls.
  \<^item> \<open>Requests\<close>: \<open>requests.h\<close>, the seven message structures with their layout and casts.
  \<^item> \<open>RequestVerify\<close>: the three checks of \<open>requestVerify.c\<close>, and what passing them means.
  \<^item> \<open>RequestHandlers\<close>: builders, session identifiers and handlers of \<open>requestHandlers.c\<close>.
  \<^item> \<open>Getd_Main\<close>: the loop of \<open>main.c\<close>, a turn as a function, turns and signals as a relation.
  \<^item> \<open>Handler_Specs\<close>: what every handler does, on every branch.
  \<^item> \<open>Getd_Spec\<close>: the abstract machine over requests and replies, and the refinement of it by the loop.
  \<^item> \<open>Getd_Props\<close>: the invariant, whole transfers, who gets file contents; \<open>Getd_Flaws\<close>: what the code
    does on inputs its checks let through, and what carries over between messages.

  \<^bold>\<open>nanomsg: containers and messages.\<close>
  \<^item> \<open>NN_List\<close>, \<open>NN_Queue\<close>, \<open>NN_Hash\<close> (\<open>utils/list.c\<close>, \<open>queue.c\<close>, \<open>hash.c\<close>): intrusive containers on
    stores, each shown to be a sequence or a finite map under any legal script of operations. Their
    contracts are locales, interpreted on the code's model.
  \<^item> \<open>NN_Wire\<close> (\<open>utils/wire.c\<close>): network byte order, a locale of codecs with three interpretations.
  \<^item> \<open>NN_Chunk\<close>, \<open>NN_Chunkref\<close> (\<open>utils/chunk.c\<close>, \<open>chunkref.c\<close>, \<open>msg.c\<close>): reference-counted chunks on a
    heap of blocks and the references to them; \<open>NN_Message\<close>: the level of byte sequences the
    components above work on, justified by \<open>nn_chunkref_is_its_bytes\<close>.
  \<^item> \<open>NN_Msgqueue\<close> (\<open>transports/inproc/msgqueue.c\<close>): the queue of an inproc connection.
  \<^item> \<open>NN_Errno\<close>: the error numbers.

  \<^bold>\<open>nanomsg: pipes and protocols.\<close>
  \<^item> \<open>NN_Pipe\<close> (\<open>core/pipe.c\<close>): the two state machines of a pipe.
  \<^item> \<open>NN_Priolist\<close>, \<open>NN_Lb_Fq\<close>, \<open>NN_Dist\<close> (\<open>protocols/utils\<close>): which pipe is served next; sending to
    one, receiving from one in fair turns, sending to all.
  \<^item> \<open>NN_Trie\<close> (\<open>protocols/pubsub/trie.c\<close>): the subscriptions of a subscriber.
  \<^item> \<open>NN_Protocol\<close>: events, statistics (\<open>core/sock.c\<close>), the loop that drops messages, the invariant of
    fair queues over honest transports; \<open>NN_Sockets\<close>: pair, push, pull, pub, sub and bus;
    \<open>NN_Reqrep\<close>: raw request, raw reply and reply.
  \<^item> \<open>NN_Socket_Props\<close>, \<open>NN_Reqrep_Props\<close>: what a subscriber, a bus and a reply socket promise.

  \<^bold>\<open>nanomsg: the WebSocket transport.\<close>
  \<^item> \<open>NN_Utf8\<close> (\<open>nn_utf8_code_point\<close>): the validator against the encoding of RFC 3629; \<open>NN_Random\<close>
    (\<open>utils/random.c\<close>): the generator that masks are drawn from.
  \<^item> \<open>NN_Sws\<close> (\<open>transports/ws/sws.c\<close>): a session, the framing of what it sends and its state machine.
  \<^item> \<open>NN_Sws_Inv\<close>: the invariant of an active session, step by step; \<open>NN_Sws_Session\<close>: runs of a
    session, and where exactly a peer can make it fail; \<open>NN_Sws_Frames\<close>: the frame of RFC 6455, sent and
    taken apart; \<open>NN_Sws_Props\<close>: the properties; \<open>NN_Sws_Mask\<close>: masking in the chunks that copies share.
  The counters \<open>pings_received\<close> and \<open>pongs_received\<close>, \<open>int\<close> in the code and never read, wrap here.
  The socket of the operating system is the bytes asked for (\<open>sws_receiving\<close>) and given (\<open>sws_sent\<close>).
  The data a protocol attaches to a pipe is at the address of the pipe, so one number names both.

  \<^bold>\<open>Bounds.\<close> No fuel is used. Loops are structural, have a measure (\<open>backtrace_bottom\<close>: the bytes
  left; \<open>endIndex_loop\<close>: 256 minus the index; \<open>scan_code_points\<close>: the bytes left), or are \<open>partial_function\<close>s shown to end (\<open>drop_until\<close> over
  an honest transport).

  \<^bold>\<open>Not modelled.\<close> Threads, locks, pollers and sockets of the operating system (\<open>aio\<close>, \<open>utils\<close>), the
  blocking calls of \<open>core/sock.c\<close> and \<open>core/global.c\<close>, and the state machines of connections in the tcp,
  ipc, ws (its handshake, binding and connecting) and inproc transports; the request and survey state machines with their timers. Creation
  of sockets (allocation and tables of function pointers), printing, tests, tools and demos.
\<close>

end
